(* ===== verification/Prelude.thy ===== *)
theory Prelude
  imports Main "HOL-Library.Word"
begin

text \<open>
  Shared vocabulary of the development.

  Python exceptions are values of \<open>py_error\<close>; an operation that can raise returns
  \<open>py_error + 'a\<close> and operations are sequenced with \<open>rbind\<close>, which stops at the first
  exception.  Python integers are \<open>int\<close> (or \<open>nat\<close> where the code only ever holds list lengths,
  list positions and block numbers); floor division and modulo of Python on integers are
  Isabelle's \<open>div\<close> and \<open>mod\<close>.  \<open>cdiv\<close>, \<open>round_up\<close> and \<open>round_down\<close> are the functions of
  \<^verbatim>\<open>src/vllm/utils/math_utils.py\<close>.  \<open>py_slice\<close> is list slicing with Python's treatment
  of negative and out-of-range bounds, \<open>py_nth\<close> list indexing that raises.
\<close>

section \<open>Results\<close>

datatype py_error =
    ValueError
  | RuntimeError
  | AssertionError
  | IndexError
  | KeyError
  | OverflowError
  | NotImplementedError
  | TypeError
  | StopIteration

type_synonym 'a result = "py_error + 'a"

type_synonym byte = "8 word"
type_synonym bytes = "byte list"

definition rbind :: "'a result \<Rightarrow> ('a \<Rightarrow> 'b result) \<Rightarrow> 'b result" where
  "rbind m k = (case m of Inl e \<Rightarrow> Inl e | Inr x \<Rightarrow> k x)"

definition py_assert :: "bool \<Rightarrow> 'a result \<Rightarrow> 'a result" where
  "py_assert b k = (if b then k else Inl AssertionError)"

fun is_ok :: "'a result \<Rightarrow> bool" where
  "is_ok (Inl e) = False"
| "is_ok (Inr x) = True"

text \<open>A \<open>for\<close> loop whose body updates a state and may raise.\<close>

fun rfold :: "('a \<Rightarrow> 's \<Rightarrow> 's result) \<Rightarrow> 'a list \<Rightarrow> 's \<Rightarrow> 's result" where
  "rfold f [] s = Inr s"
| "rfold f (x # xs) s = rbind (f x s) (rfold f xs)"

section \<open>Lists as Python uses them\<close>

definition py_nth :: "'a list \<Rightarrow> int \<Rightarrow> 'a result" where
  "py_nth xs i =
     (if i \<ge> 0 then (if nat i < length xs then Inr (xs ! nat i) else Inl IndexError)
      else if - i \<le> int (length xs) then Inr (xs ! (length xs - nat (- i)))
      else Inl IndexError)"

definition slice_bound :: "nat \<Rightarrow> int \<Rightarrow> nat" where
  "slice_bound n i = (if i < 0 then nat (int n + i) else min n (nat i))"

definition py_slice :: "'a list \<Rightarrow> int \<Rightarrow> int \<Rightarrow> 'a list" where
  "py_slice xs a b =
     (let s = slice_bound (length xs) a; t = slice_bound (length xs) b
      in take (t - s) (drop s xs))"

definition py_drop :: "'a list \<Rightarrow> int \<Rightarrow> 'a list" where
  "py_drop xs a = drop (slice_bound (length xs) a) xs"

definition py_take :: "'a list \<Rightarrow> int \<Rightarrow> 'a list" where
  "py_take xs b = take (slice_bound (length xs) b) xs"

text \<open>\<open>s.add(x)\<close> on a set kept as the list of its elements in insertion order.\<close>

definition set_add :: "'a \<Rightarrow> 'a list \<Rightarrow> 'a list" where
  "set_add x xs = (if x \<in> set xs then xs else xs @ [x])"

section \<open>Integer helpers\<close>

definition cdiv :: "int \<Rightarrow> int \<Rightarrow> int" where
  "cdiv a b = - (a div (- b))"

definition round_up :: "int \<Rightarrow> int \<Rightarrow> int" where
  "round_up x y = ((x + y - 1) div y) * y"

definition round_down :: "int \<Rightarrow> int \<Rightarrow> int" where
  "round_down x y = (x div y) * y"

section \<open>Lemma collections\<close>

named_theorems result_simps \<open>evaluation of results and of the loops over them\<close>
named_theorems inv_intros \<open>preservation of the component invariants\<close>

section \<open>Lemmas on results\<close>

lemma rbind_Inl [simp, result_simps]: "rbind (Inl e) k = Inl e"
  by (simp add: rbind_def)

lemma rbind_Inr [simp, result_simps]: "rbind (Inr x) k = k x"
  by (simp add: rbind_def)

lemma rbind_eq_Inr_iff: "rbind m k = Inr y \<longleftrightarrow> (\<exists>x. m = Inr x \<and> k x = Inr y)"
  by (cases m) simp_all

lemma rbind_eq_Inl_iff:
  "rbind m k = Inl e \<longleftrightarrow> m = Inl e \<or> (\<exists>x. m = Inr x \<and> k x = Inl e)"
  by (cases m) simp_all

lemma rbindE:
  assumes "rbind m k = Inr y"
  obtains x where "m = Inr x" and "k x = Inr y"
  using assms by (cases m) simp_all

lemma rbind_assoc: "rbind (rbind m k) h = rbind m (\<lambda>x. rbind (k x) h)"
  by (cases m) simp_all

lemma rbind_Inr_right [simp]: "rbind m Inr = m"
  by (cases m) simp_all

lemma py_assert_True [simp, result_simps]: "b \<Longrightarrow> py_assert b k = k"
  by (simp add: py_assert_def)

lemma py_assert_False [simp, result_simps]: "\<not> b \<Longrightarrow> py_assert b k = Inl AssertionError"
  by (simp add: py_assert_def)

lemma py_assert_eq_Inr_iff [simp]: "py_assert b k = Inr y \<longleftrightarrow> b \<and> k = Inr y"
  by (simp add: py_assert_def)

lemma is_ok_iff: "is_ok m \<longleftrightarrow> (\<exists>x. m = Inr x)"
  by (cases m) simp_all

lemma rfold_append: "rfold f (xs @ ys) s = rbind (rfold f xs s) (rfold f ys)"
proof (induction xs arbitrary: s)
  case Nil
  show ?case by simp
next
  case (Cons x xs)
  then show ?case by (cases "f x s") simp_all
qed

text \<open>A loop keeps what its body keeps.\<close>

lemma rfold_invariant:
  assumes "rfold f xs s = Inr t" and "P s"
    and "\<And>x s s'. x \<in> set xs \<Longrightarrow> P s \<Longrightarrow> f x s = Inr s' \<Longrightarrow> P s'"
  shows "P t"
  using assms
proof (induction xs arbitrary: s)
  case Nil
  then show ?case by simp
next
  case (Cons x xs)
  from Cons.prems(1) obtain s' where s': "f x s = Inr s'" and rest: "rfold f xs s' = Inr t"
    by (auto elim: rbindE)
  have "P s'"
    by (rule Cons.prems(3)[OF _ Cons.prems(2) s']) simp
  then show ?case
    using Cons.prems(3) by (rule Cons.IH[OF rest]) simp_all
qed

text \<open>A loop whose body never raises under the invariant does not raise.\<close>

lemma rfold_total:
  assumes "P s"
    and "\<And>x s. x \<in> set xs \<Longrightarrow> P s \<Longrightarrow> \<exists>s'. f x s = Inr s' \<and> P s'"
  shows "\<exists>t. rfold f xs s = Inr t \<and> P t"
  using assms
proof (induction xs arbitrary: s)
  case Nil
  then show ?case by simp
next
  case (Cons x xs)
  from Cons.prems obtain s' where "f x s = Inr s'" and "P s'"
    by fastforce
  with Cons show ?case by simp
qed

section \<open>Lemmas on indexing and slicing\<close>

lemma py_nth_nat [simp]: "i < length xs \<Longrightarrow> py_nth xs (int i) = Inr (xs ! i)"
  by (simp add: py_nth_def)

lemma py_nth_ok: "0 \<le> i \<Longrightarrow> i < int (length xs) \<Longrightarrow> py_nth xs i = Inr (xs ! nat i)"
  by (simp add: py_nth_def Let_def)

lemma py_nth_raises: "int (length xs) \<le> i \<Longrightarrow> py_nth xs i = Inl IndexError"
  by (auto simp: py_nth_def Let_def)

lemma py_nth_Inr_nonneg:
  "py_nth xs i = Inr x \<Longrightarrow> 0 \<le> i \<Longrightarrow> i < int (length xs) \<and> x = xs ! nat i"
  by (auto simp: py_nth_def Let_def split: if_splits)

lemma slice_bound_nonneg: "0 \<le> i \<Longrightarrow> slice_bound n i = min n (nat i)"
  by (simp add: slice_bound_def)

lemma slice_bound_le: "slice_bound n i \<le> n"
  by (auto simp: slice_bound_def)

lemma py_drop_nonneg [simp]: "0 \<le> a \<Longrightarrow> py_drop xs a = drop (nat a) xs"
  by (simp add: py_drop_def slice_bound_nonneg min_def)

lemma py_take_nonneg [simp]: "0 \<le> b \<Longrightarrow> py_take xs b = take (nat b) xs"
  by (simp add: py_take_def slice_bound_nonneg min_def)

lemma py_slice_nonneg:
  assumes "0 \<le> a" and "0 \<le> b"
  shows "py_slice xs a b = take (nat b - nat a) (drop (nat a) xs)"
  using assms by (auto simp: py_slice_def slice_bound_nonneg min_def Let_def)

lemma length_py_slice:
  "0 \<le> a \<Longrightarrow> a \<le> b \<Longrightarrow> b \<le> int (length xs) \<Longrightarrow> length (py_slice xs a b) = nat (b - a)"
  by (simp add: py_slice_nonneg)

lemma nth_py_slice:
  "0 \<le> a \<Longrightarrow> a \<le> b \<Longrightarrow> b \<le> int (length xs) \<Longrightarrow> i < nat (b - a) \<Longrightarrow>
   py_slice xs a b ! i = xs ! (nat a + i)"
  by (simp add: py_slice_nonneg)

lemma set_set_add [simp]: "set (set_add x xs) = insert x (set xs)"
  by (auto simp: set_add_def)

lemma distinct_set_add [simp]: "distinct xs \<Longrightarrow> distinct (set_add x xs)"
  by (auto simp: set_add_def)

lemma set_add_not_Nil [simp]: "set_add x xs \<noteq> []"
  by (auto simp: set_add_def)

section \<open>Lemmas on ceiling division\<close>

lemma le_div_iff_int:
  fixes a b c :: int
  assumes "0 < b"
  shows "a \<le> c div b \<longleftrightarrow> a * b \<le> c"
proof
  assume "a \<le> c div b"
  then have "a * b \<le> c div b * b"
    using assms by (simp add: mult_right_mono)
  also have "\<dots> \<le> c"
    using assms by (metis div_mult_mod_eq le_add_same_cancel1 pos_mod_sign)
  finally show "a * b \<le> c" .
next
  assume "a * b \<le> c"
  then have "a * b div b \<le> c div b"
    using assms by (rule zdiv_mono1)
  then show "a \<le> c div b"
    using assms by simp
qed

lemma cdiv_le_iff:
  assumes "0 < b"
  shows "cdiv a b \<le> k \<longleftrightarrow> a \<le> k * b"
proof -
  have "a div (- b) = (- a) div b"
    by (simp add: div_minus_right)
  moreover have "- k \<le> (- a) div b \<longleftrightarrow> - k * b \<le> - a"
  proof
    assume "- k \<le> (- a) div b"
    then have "- k * b \<le> ((- a) div b) * b"
      using assms by (intro mult_right_mono) simp_all
    also have "\<dots> \<le> - a"
      using assms by (simp add: minus_mod_eq_div_mult [symmetric])
    finally show "- k * b \<le> - a" .
  next
    assume "- k * b \<le> - a"
    then have "(- k * b) div b \<le> (- a) div b"
      using assms by (rule zdiv_mono1)
    with assms show "- k \<le> (- a) div b"
      by (metis less_irrefl nonzero_mult_div_cancel_right)
  qed
  ultimately show ?thesis
    unfolding cdiv_def by linarith
qed

lemma less_cdiv_iff: "0 < b \<Longrightarrow> k < cdiv a b \<longleftrightarrow> k * b < a"
  using cdiv_le_iff[of b a k] by linarith

lemma cdiv_upper: "0 < b \<Longrightarrow> a \<le> cdiv a b * b"
  using cdiv_le_iff[of b a "cdiv a b"] by simp

lemma cdiv_lower: "0 < b \<Longrightarrow> (cdiv a b - 1) * b < a"
  using less_cdiv_iff[of b "cdiv a b - 1" a] by simp

lemma cdiv_mult [simp]: "0 < b \<Longrightarrow> cdiv (k * b) b = k"
  using cdiv_le_iff[of b "k * b" k] less_cdiv_iff[of b "k - 1" "k * b"]
  by (simp add: algebra_simps)

lemma cdiv_nonneg: "0 < b \<Longrightarrow> 0 \<le> a \<Longrightarrow> 0 \<le> cdiv a b"
  using less_cdiv_iff[of b "-1" a] by (simp add: le_less_trans)

lemma cdiv_mono: "0 < b \<Longrightarrow> a \<le> a' \<Longrightarrow> cdiv a b \<le> cdiv a' b"
  using cdiv_le_iff[of b a "cdiv a' b"] cdiv_upper[of b a'] by linarith

lemma round_down_le: "0 < y \<Longrightarrow> round_down x y \<le> x"
  unfolding round_down_def
  by (metis pos_mod_sign diff_ge_0_iff_ge minus_div_mult_eq_mod)

lemma round_down_dvd: "y dvd round_down x y"
  by (simp add: round_down_def)

end
