(* ===== verification/Free_Block_Queue.thy ===== *)
theory Free_Block_Queue
  imports Prelude
begin

text \<open>
  \<^verbatim>\<open>FreeKVCacheBlockQueue\<close> of \<^verbatim>\<open>src/vllm/v1/core/kv_cache_utils.py\<close>: the doubly linked
  list of free KV-cache blocks.

  A reference to a \<^verbatim>\<open>KVCacheBlock\<close> object is a \<open>block_ref\<close>: one of the two fake blocks of
  the queue (their \<^verbatim>\<open>block_id\<close> is -1) or the block with a given number.  The attributes
  \<^verbatim>\<open>prev_free_block\<close> and \<^verbatim>\<open>next_free_block\<close> of all objects are two functions on references,
  the field-wise view of the heap; the code lets only this class write them.

  The locale \<open>free_queue\<close> is the contract the block pool relies on: the queue behaves as a
  list under \<open>popleft\<close>, \<open>popleft_n\<close>, \<open>remove\<close>, \<open>append\<close>, \<open>append_n\<close> and \<open>prepend_n\<close>.  The
  interpretation \<open>fq\<close> discharges it for the pointer operations.
\<close>

section \<open>State and operations\<close>

datatype block_ref = FakeHead | FakeTail | Block nat

record fqueue =
  prev_free_block :: "block_ref \<Rightarrow> block_ref option"
  next_free_block :: "block_ref \<Rightarrow> block_ref option"
  num_free_blocks :: int

fun block_id :: "block_ref \<Rightarrow> int" where
  "block_id FakeHead = -1"
| "block_id FakeTail = -1"
| "block_id (Block n) = int n"

definition set_prev :: "block_ref \<Rightarrow> block_ref option \<Rightarrow> fqueue \<Rightarrow> fqueue" where
  "set_prev r v q = q\<lparr>prev_free_block := (prev_free_block q)(r := v)\<rparr>"

definition set_next :: "block_ref \<Rightarrow> block_ref option \<Rightarrow> fqueue \<Rightarrow> fqueue" where
  "set_next r v q = q\<lparr>next_free_block := (next_free_block q)(r := v)\<rparr>"

definition link_neighbours :: "block_ref list \<Rightarrow> nat \<Rightarrow> fqueue \<Rightarrow> fqueue" where
  "link_neighbours bs i q =
     (let q1 = (if i > 0 then set_prev (bs ! i) (Some (bs ! (i - 1))) q else q)
      in if i < length bs - 1 then set_next (bs ! i) (Some (bs ! (i + 1))) q1 else q1)"

definition init_queue :: "block_ref list \<Rightarrow> fqueue" where
  "init_queue bs =
     (let q0 = \<lparr>prev_free_block = (\<lambda>_. None), next_free_block = (\<lambda>_. None),
                num_free_blocks = int (length bs)\<rparr>;
          q1 = fold (link_neighbours bs) [0..<length bs] q0
      in if length bs > 0
         then set_next (last bs) (Some FakeTail) (set_prev FakeTail (Some (last bs))
                (set_prev (bs ! 0) (Some FakeHead) (set_next FakeHead (Some (bs ! 0)) q1)))
         else set_prev FakeTail (Some FakeHead) (set_next FakeHead (Some FakeTail) q1))"

definition popleft_no_block :: "fqueue \<Rightarrow> 'a result" where
  "popleft_no_block q =
     (if num_free_blocks q \<noteq> 0 then Inl AssertionError else Inl ValueError)"

definition popleft :: "fqueue \<Rightarrow> (block_ref \<times> fqueue) result" where
  "popleft q =
     (case next_free_block q FakeHead of
        None \<Rightarrow> popleft_no_block q
      | Some first_block \<Rightarrow>
          if first_block = FakeTail then popleft_no_block q
          else (case next_free_block q first_block of
                  None \<Rightarrow> Inl RuntimeError
                | Some nxt \<Rightarrow>
                    (let q1 = set_next FakeHead (Some nxt) q;
                         q2 = set_prev nxt (Some FakeHead) q1;
                         q3 = set_next first_block None (set_prev first_block None q2)
                     in Inr (first_block, q3\<lparr>num_free_blocks := num_free_blocks q - 1\<rparr>))))"

fun popleft_loop ::
  "nat \<Rightarrow> block_ref option \<Rightarrow> block_ref list \<Rightarrow> fqueue \<Rightarrow>
   (block_ref list \<times> block_ref option \<times> fqueue) result" where
  "popleft_loop 0 cur ret q = Inr (ret, cur, q)"
| "popleft_loop (Suc n) None ret q = Inl AssertionError"
| "popleft_loop (Suc n) (Some b) ret q =
     popleft_loop n (next_free_block q b) (ret @ [b]) (set_next b None (set_prev b None q))"

definition popleft_n :: "int \<Rightarrow> fqueue \<Rightarrow> (block_ref list \<times> fqueue) result" where
  "popleft_n n q =
     (if n = 0 then Inr ([], q)
      else py_assert (num_free_blocks q \<ge> n)
        (let q0 = q\<lparr>num_free_blocks := num_free_blocks q - n\<rparr>
         in rbind (popleft_loop (nat n) (next_free_block q0 FakeHead) [] q0)
              (\<lambda>(ret, cur, q1).
                 Inr (ret,
                      case cur of
                        None \<Rightarrow> q1
                      | Some b \<Rightarrow>
                          set_prev b (Some FakeHead) (set_next FakeHead (Some b) q1)))))"

definition remove_q :: "block_ref \<Rightarrow> fqueue \<Rightarrow> fqueue result" where
  "remove_q b q =
     (case (prev_free_block q b, next_free_block q b) of
        (Some p, Some n) \<Rightarrow>
          (let q1 = set_next p (Some n) q;
               q2 = set_prev n (Some p) q1;
               q3 = set_next b None (set_prev b None q2)
           in Inr (q3\<lparr>num_free_blocks := num_free_blocks q - 1\<rparr>))
      | _ \<Rightarrow> Inl RuntimeError)"

definition append_q :: "block_ref \<Rightarrow> fqueue \<Rightarrow> fqueue result" where
  "append_q b q =
     (case prev_free_block q FakeTail of
        None \<Rightarrow> Inl RuntimeError
      | Some last_block \<Rightarrow>
          (let q1 = set_prev b (Some last_block) (set_next last_block (Some b) q);
               q2 = set_prev FakeTail (Some b) (set_next b (Some FakeTail) q1)
           in Inr (q2\<lparr>num_free_blocks := num_free_blocks q + 1\<rparr>)))"

text \<open>The loop both \<open>prepend_n\<close> and \<open>append_n\<close> run: chain the blocks behind a given one.\<close>

fun link_run :: "block_ref \<Rightarrow> block_ref list \<Rightarrow> fqueue \<Rightarrow> block_ref \<times> fqueue" where
  "link_run p [] q = (p, q)"
| "link_run p (b # bs) q = link_run b bs (set_next p (Some b) (set_prev b (Some p) q))"

definition prepend_n :: "block_ref list \<Rightarrow> fqueue \<Rightarrow> fqueue result" where
  "prepend_n bs q =
     (if length bs = 0 then Inr q
      else (case next_free_block q FakeHead of
              None \<Rightarrow> Inl AssertionError
            | Some first_block \<Rightarrow>
                (case link_run FakeHead bs q of
                   (prev_block, q1) \<Rightarrow>
                     (let q2 = set_prev first_block (Some prev_block)
                                 (set_next prev_block (Some first_block) q1)
                      in Inr (q2\<lparr>num_free_blocks := num_free_blocks q + int (length bs)\<rparr>)))))"

definition append_n :: "block_ref list \<Rightarrow> fqueue \<Rightarrow> fqueue result" where
  "append_n bs q =
     (if length bs = 0 then Inr q
      else (case prev_free_block q FakeTail of
              None \<Rightarrow> Inl AssertionError
            | Some last_block \<Rightarrow>
                (case link_run last_block bs q of
                   (l, q1) \<Rightarrow>
                     (let q2 = set_prev FakeTail (Some l) (set_next l (Some FakeTail) q1)
                      in Inr (q2\<lparr>num_free_blocks := num_free_blocks q + int (length bs)\<rparr>)))))"

text \<open>
  The two traversals follow links until they run out, so they may not return on a cyclic
  list: \<open>None\<close> is divergence.
\<close>

partial_function (option) collect_while_next ::
  "(block_ref \<Rightarrow> block_ref option) \<Rightarrow> block_ref \<Rightarrow> block_ref list \<Rightarrow> block_ref list option" where
  "collect_while_next nxt cur ret =
     (case nxt cur of
        None \<Rightarrow> Some ret
      | Some c \<Rightarrow> collect_while_next nxt c (ret @ [cur]))"

definition get_all_free_blocks :: "fqueue \<Rightarrow> block_ref list result option" where
  "get_all_free_blocks q =
     (case next_free_block q FakeHead of
        None \<Rightarrow> Some (Inl RuntimeError)
      | Some cur \<Rightarrow> map_option Inr (collect_while_next (next_free_block q) cur []))"

partial_function (option) collect_until_tail ::
  "(block_ref \<Rightarrow> block_ref option) \<Rightarrow> block_ref option \<Rightarrow> block_ref list \<Rightarrow> block_ref list option"
  where
  "collect_until_tail nxt cur ret =
     (case cur of
        None \<Rightarrow> Some ret
      | Some c \<Rightarrow>
          if c = FakeTail then Some ret
          else collect_until_tail nxt (nxt c) (ret @ [c]))"

definition iter_blocks_after :: "block_ref option \<Rightarrow> fqueue \<Rightarrow> block_ref list option" where
  "iter_blocks_after cursor q =
     (case cursor of
        None \<Rightarrow> collect_until_tail (next_free_block q) (next_free_block q FakeHead) []
      | Some c \<Rightarrow> collect_until_tail (next_free_block q) (next_free_block q c) [])"

section \<open>The representation invariant\<close>

fun chain :: "(block_ref \<Rightarrow> block_ref option) \<Rightarrow> block_ref list \<Rightarrow> bool" where
  "chain f [] = True"
| "chain f [x] = True"
| "chain f (x # y # ys) = (f x = Some y \<and> chain f (y # ys))"

fun is_block :: "block_ref \<Rightarrow> bool" where
  "is_block (Block n) = True"
| "is_block _ = False"

text \<open>
  \<open>free_list q xs\<close>: the queue holds exactly the blocks \<open>xs\<close>, front first, its counter is
  their number, and every other block is detached.
\<close>

definition free_list :: "fqueue \<Rightarrow> block_ref list \<Rightarrow> bool" where
  "free_list q xs \<longleftrightarrow>
     chain (next_free_block q) (FakeHead # xs @ [FakeTail]) \<and>
     chain (prev_free_block q) (FakeTail # rev xs @ [FakeHead]) \<and>
     next_free_block q FakeTail = None \<and>
     (\<forall>b. is_block b \<and> b \<notin> set xs \<longrightarrow> prev_free_block q b = None \<and> next_free_block q b = None) \<and>
     distinct xs \<and> list_all is_block xs \<and>
     num_free_blocks q = int (length xs)"

section \<open>The contract of the queue\<close>

locale free_queue =
  fixes rep :: "'q \<Rightarrow> 'b list \<Rightarrow> bool"
    and real :: "'b \<Rightarrow> bool"
    and size_of :: "'q \<Rightarrow> int"
    and pop :: "'q \<Rightarrow> ('b \<times> 'q) result"
    and pop_n :: "int \<Rightarrow> 'q \<Rightarrow> ('b list \<times> 'q) result"
    and del :: "'b \<Rightarrow> 'q \<Rightarrow> 'q result"
    and add_last :: "'b list \<Rightarrow> 'q \<Rightarrow> 'q result"
    and add_first :: "'b list \<Rightarrow> 'q \<Rightarrow> 'q result"
  assumes rep_distinct: "rep q xs \<Longrightarrow> distinct xs"
    and rep_real: "rep q xs \<Longrightarrow> x \<in> set xs \<Longrightarrow> real x"
    and rep_unique: "rep q xs \<Longrightarrow> rep q ys \<Longrightarrow> xs = ys"
    and rep_size: "rep q xs \<Longrightarrow> size_of q = int (length xs)"
    and rep_pop: "rep q (x # xs) \<Longrightarrow> \<exists>q'. pop q = Inr (x, q') \<and> rep q' xs"
    and rep_pop_empty: "rep q [] \<Longrightarrow> pop q = Inl ValueError"
    and rep_pop_n: "rep q xs \<Longrightarrow> 0 \<le> n \<Longrightarrow> n \<le> int (length xs) \<Longrightarrow>
      \<exists>q'. pop_n n q = Inr (take (nat n) xs, q') \<and> rep q' (drop (nat n) xs)"
    and rep_pop_n_short: "rep q xs \<Longrightarrow> int (length xs) < n \<Longrightarrow> pop_n n q = Inl AssertionError"
    and rep_del: "rep q xs \<Longrightarrow> x \<in> set xs \<Longrightarrow> \<exists>q'. del x q = Inr q' \<and> rep q' (remove1 x xs)"
    and rep_del_absent: "rep q xs \<Longrightarrow> real x \<Longrightarrow> x \<notin> set xs \<Longrightarrow> del x q = Inl RuntimeError"
    and rep_add_last: "rep q xs \<Longrightarrow> distinct bs \<Longrightarrow> list_all real bs \<Longrightarrow> set bs \<inter> set xs = {} \<Longrightarrow>
      \<exists>q'. add_last bs q = Inr q' \<and> rep q' (xs @ bs)"
    and rep_add_first: "rep q xs \<Longrightarrow> distinct bs \<Longrightarrow> list_all real bs \<Longrightarrow> set bs \<inter> set xs = {} \<Longrightarrow>
      \<exists>q'. add_first bs q = Inr q' \<and> rep q' (bs @ xs)"
begin

text \<open>What is popped and put back at the front leaves the order as it was.\<close>

lemma pop_n_add_first:
  assumes "rep q xs" and "0 \<le> n" and "n \<le> int (length xs)"
  shows "\<exists>ys q1 q2. pop_n n q = Inr (ys, q1) \<and> add_first ys q1 = Inr q2 \<and> rep q2 xs"
proof -
  from rep_pop_n[OF assms] obtain q1 where q1: "pop_n n q = Inr (take (nat n) xs, q1)"
    and r1: "rep q1 (drop (nat n) xs)"
    by blast
  have "distinct (take (nat n) xs)"
    using rep_distinct[OF assms(1)] by simp
  moreover have "list_all real (take (nat n) xs)"
    using rep_real[OF assms(1)] by (auto simp: list_all_iff dest: in_set_takeD)
  moreover have "set (take (nat n) xs) \<inter> set (drop (nat n) xs) = {}"
    using rep_distinct[OF assms(1)] by (simp add: set_take_disj_set_drop_if_distinct)
  ultimately obtain q2 where "add_first (take (nat n) xs) q1 = Inr q2"
    and "rep q2 (take (nat n) xs @ drop (nat n) xs)"
    using rep_add_first[OF r1] by blast
  with q1 show ?thesis by simp
qed

text \<open>Blocks freed at the back are handed out only after everything that was there before.\<close>

lemma add_last_served_last:
  assumes "rep q xs" and "distinct bs" and "list_all real bs" and "set bs \<inter> set xs = {}"
    and "0 \<le> n" and "n \<le> int (length xs)"
  shows "\<exists>q1 q2. add_last bs q = Inr q1 \<and> pop_n n q1 = Inr (take (nat n) xs, q2)
           \<and> rep q2 (drop (nat n) xs @ bs)"
proof -
  from rep_add_last[OF assms(1-4)] obtain q1 where q1: "add_last bs q = Inr q1"
    and r1: "rep q1 (xs @ bs)"
    by blast
  have "n \<le> int (length (xs @ bs))"
    using assms(6) by simp
  from rep_pop_n[OF r1 assms(5) this] obtain q2
    where "pop_n n q1 = Inr (take (nat n) (xs @ bs), q2)" and "rep q2 (drop (nat n) (xs @ bs))"
    by blast
  with q1 assms(6) show ?thesis by simp
qed

lemma pop_n_error_iff:
  assumes "rep q xs" and "0 \<le> n"
  shows "is_ok (pop_n n q) \<longleftrightarrow> n \<le> size_of q"
  using rep_pop_n[OF assms] rep_pop_n_short[OF assms(1), of n] rep_size[OF assms(1)]
  by (cases "n \<le> int (length xs)") auto

end

section \<open>Lemmas on linked chains\<close>

lemma set_prev_simps [simp]:
  "prev_free_block (set_prev r v q) = (prev_free_block q)(r := v)"
  "next_free_block (set_prev r v q) = next_free_block q"
  "num_free_blocks (set_prev r v q) = num_free_blocks q"
  by (simp_all add: set_prev_def)

lemma set_next_simps [simp]:
  "prev_free_block (set_next r v q) = prev_free_block q"
  "next_free_block (set_next r v q) = (next_free_block q)(r := v)"
  "num_free_blocks (set_next r v q) = num_free_blocks q"
  by (simp_all add: set_next_def)

lemma chain_Cons: "chain f (x # xs) \<longleftrightarrow> (xs = [] \<or> f x = Some (hd xs)) \<and> chain f xs"
  by (cases xs) auto

lemma chain_append:
  "chain f (xs @ ys) \<longleftrightarrow>
     chain f xs \<and> chain f ys \<and> (xs = [] \<or> ys = [] \<or> f (last xs) = Some (hd ys))"
  by (induction xs) (auto simp: chain_Cons)

lemma chain_cong: "(\<And>x. x \<in> set (butlast xs) \<Longrightarrow> f x = g x) \<Longrightarrow> chain f xs = chain g xs"
proof (induction xs)
  case Nil
  show ?case by simp
next
  case (Cons x xs)
  then show ?case by (cases xs) auto
qed

lemma chain_upd: "a \<notin> set (butlast xs) \<Longrightarrow> chain (f(a := v)) xs = chain f xs"
  by (rule chain_cong) auto

lemma all_nat_split: "(\<forall>i. P i) \<longleftrightarrow> P 0 \<and> (\<forall>i. P (Suc i))"
  using not0_implies_Suc by metis

lemma chain_conv_nth: "chain f xs \<longleftrightarrow> (\<forall>i. Suc i < length xs \<longrightarrow> f (xs ! i) = Some (xs ! Suc i))"
proof (induction f xs rule: chain.induct)
  case (3 f x y ys)
  have "(\<forall>i. Suc i < length (x # y # ys) \<longrightarrow> f ((x # y # ys) ! i) = Some ((x # y # ys) ! Suc i)) \<longleftrightarrow>
        f x = Some y \<and> (\<forall>i. Suc i < length (y # ys) \<longrightarrow> f ((y # ys) ! i) = Some ((y # ys) ! Suc i))"
    by (subst all_nat_split) simp
  with 3 show ?case by simp
qed simp_all

lemma last_notin_butlast: "distinct xs \<Longrightarrow> xs \<noteq> [] \<Longrightarrow> last xs \<notin> set (butlast xs)"
  by (induction xs) auto

lemma chain_unlink:
  assumes "chain f (as @ x # bs)" and "distinct (as @ x # bs)" and "as \<noteq> []" and "bs \<noteq> []"
  shows "chain (f(last as := Some (hd bs), x := None)) (as @ bs)"
proof -
  let ?f = "f(last as := Some (hd bs), x := None)"
  have ne: "last as \<noteq> x" "last as \<notin> set bs" "x \<notin> set as" "x \<notin> set bs"
    using assms(2) last_in_set[OF assms(3)] by auto
  have "x \<notin> set (butlast as)" and "last as \<notin> set (butlast as)"
    using ne assms(2,3) by (auto simp: last_notin_butlast dest: in_set_butlastD)
  then have "chain ?f as"
    using assms(1) by (simp add: chain_append chain_upd)
  moreover have "x \<notin> set (butlast bs)" and "last as \<notin> set (butlast bs)"
    using ne by (auto dest: in_set_butlastD)
  then have "chain ?f bs"
    using assms(1) by (simp add: chain_append chain_Cons chain_upd)
  ultimately show ?thesis
    using ne by (simp add: chain_append)
qed

lemma chain_deterministic:
  "chain f (x # xs @ [t]) \<Longrightarrow> chain f (x # ys @ [t]) \<Longrightarrow> f t = None \<Longrightarrow> xs = ys"
proof (induction xs arbitrary: x ys)
  case Nil
  then show ?case by (cases ys) (auto simp: chain_Cons)
next
  case (Cons a xs)
  then show ?case by (cases ys) (auto simp: chain_Cons)
qed

section \<open>The pointer operations implement the list operations\<close>

lemma free_listI:
  assumes "chain (next_free_block q) (FakeHead # xs @ [FakeTail])"
    and "chain (prev_free_block q) (FakeTail # rev xs @ [FakeHead])"
    and "next_free_block q FakeTail = None"
    and "\<And>b. is_block b \<Longrightarrow> b \<notin> set xs \<Longrightarrow> prev_free_block q b = None \<and> next_free_block q b = None"
    and "distinct xs" and "list_all is_block xs" and "num_free_blocks q = int (length xs)"
  shows "free_list q xs"
  using assms by (simp add: free_list_def)

lemma free_list_distinct: "free_list q xs \<Longrightarrow> distinct xs"
  by (simp add: free_list_def)

lemma free_list_is_block: "free_list q xs \<Longrightarrow> x \<in> set xs \<Longrightarrow> is_block x"
  by (simp add: free_list_def list_all_iff)

lemma free_list_size: "free_list q xs \<Longrightarrow> num_free_blocks q = int (length xs)"
  by (simp add: free_list_def)

lemma free_list_no_fake:
  assumes "free_list q xs"
  shows "FakeHead \<notin> set xs" "FakeTail \<notin> set xs"
  using free_list_is_block[OF assms] by fastforce+

lemma free_list_ends:
  assumes "free_list q xs"
  shows "next_free_block q FakeHead = Some (hd (xs @ [FakeTail]))"
    and "prev_free_block q FakeTail = Some (last (FakeHead # xs))"
  using assms by (auto simp: free_list_def chain_Cons hd_append hd_rev)

lemma free_list_detached:
  "free_list q xs \<Longrightarrow> is_block b \<Longrightarrow> b \<notin> set xs \<Longrightarrow>
     prev_free_block q b = None \<and> next_free_block q b = None"
  by (simp add: free_list_def)

lemma free_list_unique: "free_list q xs \<Longrightarrow> free_list q ys \<Longrightarrow> xs = ys"
  using chain_deterministic[of "next_free_block q" FakeHead xs FakeTail ys]
  by (simp add: free_list_def)

lemma remove_q_links:
  assumes "free_list q (as @ x # bs)"
  shows "prev_free_block q x = Some (last (FakeHead # as))"
    and "next_free_block q x = Some (hd (bs @ [FakeTail]))"
proof -
  have "chain (next_free_block q) ((FakeHead # as) @ [x] @ (bs @ [FakeTail]))"
    and "chain (prev_free_block q) ((FakeTail # rev bs) @ [x] @ (rev as @ [FakeHead]))"
    using assms by (simp_all add: free_list_def)
  then show "prev_free_block q x = Some (last (FakeHead # as))"
    and "next_free_block q x = Some (hd (bs @ [FakeTail]))"
    unfolding chain_append by (auto simp: hd_append hd_rev)
qed

lemma remove_q_eq:
  "prev_free_block q x = Some p \<Longrightarrow> next_free_block q x = Some n \<Longrightarrow>
   remove_q x q = Inr \<lparr>prev_free_block = (prev_free_block q)(n := Some p, x := None),
                       next_free_block = (next_free_block q)(p := Some n, x := None),
                       num_free_blocks = num_free_blocks q - 1\<rparr>"
  by (simp add: remove_q_def Let_def set_prev_def set_next_def)

lemma free_list_remove_q:
  assumes fl: "free_list q (as @ x # bs)"
  shows "\<exists>q'. remove_q x q = Inr q' \<and> free_list q' (as @ bs)"
proof -
  let ?p = "last (FakeHead # as)" and ?n = "hd (bs @ [FakeTail])"
  let ?nx = "(next_free_block q)(?p := Some ?n, x := None)"
  let ?pv = "(prev_free_block q)(?n := Some ?p, x := None)"
  obtain q' where q': "remove_q x q = Inr q'" and nx: "next_free_block q' = ?nx"
    and pv: "prev_free_block q' = ?pv" and nm: "num_free_blocks q' = num_free_blocks q - 1"
    by (rule that[OF remove_q_eq[OF remove_q_links[OF fl]]]) simp_all
  have dist: "distinct ((FakeHead # as) @ x # (bs @ [FakeTail]))"
    using free_list_distinct[OF fl] free_list_no_fake[OF fl] by auto
  have "chain ?nx ((FakeHead # as) @ (bs @ [FakeTail]))"
    using fl dist by (intro chain_unlink) (auto simp: free_list_def)
  moreover have "chain ?pv ((FakeTail # rev bs) @ (rev as @ [FakeHead]))"
  proof -
    have "last (FakeTail # rev bs) = ?n" and "hd (rev as @ [FakeHead]) = ?p"
      by (auto simp: hd_append hd_rev last_rev)
    moreover have "distinct ((FakeTail # rev bs) @ x # (rev as @ [FakeHead]))"
      using dist by auto
    ultimately show ?thesis
      using fl chain_unlink[of "prev_free_block q" "FakeTail # rev bs" x "rev as @ [FakeHead]"]
      by (simp add: free_list_def)
  qed
  moreover have "?p = FakeHead \<or> ?p \<in> set as" and "?n = FakeTail \<or> ?n \<in> set bs"
    by (auto simp: hd_append)
  ultimately have "free_list q' (as @ bs)"
    using fl dist nx pv nm by (intro free_listI) (auto simp: free_list_def)
  with q' show ?thesis by blast
qed

lemma remove_q_detached: "free_list q xs \<Longrightarrow> is_block x \<Longrightarrow> x \<notin> set xs \<Longrightarrow> remove_q x q = Inl RuntimeError"
  by (simp add: remove_q_def free_list_detached)

text \<open>\<open>popleft\<close> takes the first block out exactly as \<open>remove\<close> would.\<close>

lemma popleft_conv_remove_q:
  assumes "free_list q (x # xs)"
  shows "popleft q = rbind (remove_q x q) (\<lambda>q'. Inr (x, q'))"
proof -
  have "next_free_block q FakeHead = Some x" and "x \<noteq> FakeTail"
    using free_list_ends(1)[OF assms] free_list_no_fake[OF assms] by auto
  moreover have "prev_free_block q x = Some FakeHead" and "next_free_block q x = Some (hd (xs @ [FakeTail]))"
    using remove_q_links[of q "[]" x xs] assms by simp_all
  ultimately show ?thesis
    by (simp add: popleft_def remove_q_def Let_def)
qed

lemma popleft_empty: "free_list q [] \<Longrightarrow> popleft q = Inl ValueError"
  using free_list_ends(1)[of q "[]"] free_list_size[of q "[]"]
  by (simp add: popleft_def popleft_no_block_def)

definition detach :: "block_ref list \<Rightarrow> fqueue \<Rightarrow> fqueue" where
  "detach bs q = q\<lparr>prev_free_block := (\<lambda>b. if b \<in> set bs then None else prev_free_block q b),
                   next_free_block := (\<lambda>b. if b \<in> set bs then None else next_free_block q b)\<rparr>"

lemma popleft_loop_detaches:
  "chain (next_free_block q) (xs @ [FakeTail]) \<Longrightarrow> distinct xs \<Longrightarrow> FakeTail \<notin> set xs \<Longrightarrow> n \<le> length xs \<Longrightarrow>
   popleft_loop n (Some (hd (xs @ [FakeTail]))) ret q =
     Inr (ret @ take n xs, Some (hd (drop n xs @ [FakeTail])), detach (take n xs) q)"
proof (induction n arbitrary: xs ret q)
  case 0
  show ?case by (simp add: detach_def)
next
  case (Suc n)
  then obtain x ys where xs: "xs = x # ys" by (cases xs) auto
  let ?q = "set_next x None (set_prev x None q)"
  have "x \<notin> set (butlast (ys @ [FakeTail]))"
    using Suc.prems xs by auto
  then have "chain (next_free_block ?q) (ys @ [FakeTail])"
    using Suc.prems xs by (simp add: chain_Cons chain_upd)
  then have "popleft_loop n (Some (hd (ys @ [FakeTail]))) (ret @ [x]) ?q =
     Inr ((ret @ [x]) @ take n ys, Some (hd (drop n ys @ [FakeTail])), detach (take n ys) ?q)"
    by (rule Suc.IH) (use Suc.prems xs in simp_all)
  moreover have "detach (take n ys) ?q = detach (take (Suc n) xs) q"
    by (rule fqueue.equality) (auto simp: detach_def xs)
  moreover have "next_free_block q x = Some (hd (ys @ [FakeTail]))"
    using Suc.prems(1) xs by (simp add: chain_Cons)
  ultimately show ?case by (simp add: xs)
qed

lemma free_list_popleft_n:
  assumes fl: "free_list q xs" and "0 \<le> n" and "n \<le> int (length xs)"
  shows "\<exists>q'. popleft_n n q = Inr (take (nat n) xs, q') \<and> free_list q' (drop (nat n) xs)"
proof (cases "n = 0")
  case True
  with fl show ?thesis by (simp add: popleft_n_def)
next
  case False
  define as bs where "as = take (nat n) xs" and "bs = drop (nat n) xs"
  have xs: "xs = as @ bs" and len: "length as = nat n"
    using assms by (simp_all add: as_def bs_def)
  let ?q0 = "q\<lparr>num_free_blocks := num_free_blocks q - n\<rparr>"
  let ?n = "hd (bs @ [FakeTail])"
  let ?q1 = "detach as ?q0"
  let ?q2 = "set_prev ?n (Some FakeHead) (set_next FakeHead (Some ?n) ?q1)"
  have links: "chain (next_free_block q) (FakeHead # as @ bs @ [FakeTail])"
    "chain (prev_free_block q) (FakeTail # rev bs @ rev as @ [FakeHead])"
    "next_free_block q FakeTail = None"
    using fl by (simp_all add: free_list_def xs)
  have dist: "distinct as" "distinct bs" "set as \<inter> set bs = {}"
    "FakeHead \<notin> set as" "FakeHead \<notin> set bs" "FakeTail \<notin> set as" "FakeTail \<notin> set bs"
    using free_list_distinct[OF fl] free_list_no_fake[OF fl] by (auto simp: xs)
  have "popleft_loop (nat n) (next_free_block ?q0 FakeHead) [] ?q0 = Inr (as, Some ?n, ?q1)"
    using popleft_loop_detaches[of ?q0 "as @ bs" "nat n" "[]"] links dist len free_list_ends(1)[OF fl]
    by (simp add: xs chain_Cons)
  then have run: "popleft_n n q = Inr (as, ?q2)"
    using False assms free_list_size[OF fl] by (simp add: popleft_n_def)
  have nx: "next_free_block ?q2 = (\<lambda>b. if b \<in> set as then None else next_free_block q b)(FakeHead := Some ?n)"
    and pv: "prev_free_block ?q2 = (\<lambda>b. if b \<in> set as then None else prev_free_block q b)(?n := Some FakeHead)"
    by (auto simp: detach_def fun_eq_iff)
  have old: "chain (next_free_block q) (bs @ [FakeTail])" "chain (prev_free_block q) (FakeTail # rev bs)"
    using links chain_append[of "next_free_block q" "FakeHead # as" "bs @ [FakeTail]"]
      chain_append[of "prev_free_block q" "FakeTail # rev bs" "rev as @ [FakeHead]"] by simp_all
  have "chain (next_free_block ?q2) (bs @ [FakeTail]) = chain (next_free_block q) (bs @ [FakeTail])"
    unfolding nx using dist by (intro chain_cong) auto
  then have fwd: "chain (next_free_block ?q2) (FakeHead # bs @ [FakeTail])"
    using old by (subst chain_Cons) (simp add: nx)
  have "chain (prev_free_block ?q2) (FakeTail # rev bs) = chain (prev_free_block q) (FakeTail # rev bs)"
    unfolding pv using dist
    by (cases bs) (auto intro!: chain_cong simp: butlast_append split: if_splits)
  moreover have "last (FakeTail # rev bs) = ?n"
    by (cases bs) simp_all
  ultimately have bwd: "chain (prev_free_block ?q2) ((FakeTail # rev bs) @ [FakeHead])"
    using old by (subst chain_append) (simp add: pv)
  have n: "?n = FakeTail \<or> ?n \<in> set bs"
    by (cases bs) simp_all
  have "free_list ?q2 bs"
  proof (rule free_listI)
    show "next_free_block ?q2 FakeTail = None"
      using links unfolding nx by simp
    show "prev_free_block ?q2 b = None \<and> next_free_block ?q2 b = None" if "is_block b" and "b \<notin> set bs" for b
    proof -
      have "b \<noteq> ?n" and "b \<noteq> FakeHead"
        using that n by auto
      then show ?thesis
        using free_list_detached[OF fl that(1)] that(2) unfolding nx pv by (simp add: xs)
    qed
    show "list_all is_block bs" and "num_free_blocks ?q2 = int (length bs)"
      using fl len assms by (simp_all add: free_list_def xs detach_def)
  qed (use dist fwd bwd in simp_all)
  with run show ?thesis by (simp add: as_def bs_def)
qed

lemma popleft_n_short: "free_list q xs \<Longrightarrow> int (length xs) < n \<Longrightarrow> popleft_n n q = Inl AssertionError"
  by (simp add: popleft_n_def free_list_size)

text \<open>The effect of the linking loop, for blocks that are distinct and not the start block.\<close>

lemma link_run_effect:
  assumes "distinct (p # bs)"
  shows "fst (link_run p bs q) = last (p # bs)"
    and "chain (next_free_block (snd (link_run p bs q))) (p # bs)"
    and "chain (prev_free_block (snd (link_run p bs q))) (rev (p # bs))"
    and "b \<notin> set (butlast (p # bs)) \<Longrightarrow> next_free_block (snd (link_run p bs q)) b = next_free_block q b"
    and "b \<notin> set bs \<Longrightarrow> prev_free_block (snd (link_run p bs q)) b = prev_free_block q b"
    and "num_free_blocks (snd (link_run p bs q)) = num_free_blocks q"
  using assms
proof (induction bs arbitrary: p q b)
  case (Cons x bs)
  note IH = Cons.IH[where p = x]
  { case (1 p q) then show ?case using IH(1) by auto }
  { case (2 p q)
    have "p \<notin> set (butlast (x # bs))"
      using 2 by (auto dest: in_set_butlastD)
    then show ?case using IH(2) IH(4)[where b = p] 2 by (simp add: chain_Cons) }
  { case (3 p q)
    let ?q = "set_next p (Some x) (set_prev x (Some p) q)"
    have "prev_free_block (snd (link_run x bs ?q)) x = Some p"
      using IH(5)[where b = x and q = ?q] 3 by simp
    moreover have "chain (prev_free_block (snd (link_run x bs ?q))) (rev (x # bs))"
      using IH(3)[where q = ?q] 3 by simp
    ultimately show ?case
      using chain_append[of "prev_free_block (snd (link_run x bs ?q))" "rev (x # bs)" "[p]"] by simp }
  { case (4 p q b) then show ?case using IH(4)[where b = b] by (cases bs) auto }
  { case (5 p q b) then show ?case using IH(5)[where b = b] by auto }
  { case (6 p q) then show ?case using IH(6) by simp }
qed simp_all

lemma free_list_append_n:
  assumes fl: "free_list q xs" and "distinct bs" and bl: "list_all is_block bs"
    and disj: "set bs \<inter> set xs = {}"
  shows "\<exists>q'. append_n bs q = Inr q' \<and> free_list q' (xs @ bs)"
proof (cases "bs = []")
  case True
  with fl show ?thesis by (simp add: append_n_def)
next
  case False
  let ?p = "last (FakeHead # xs)"
  let ?q1 = "snd (link_run ?p bs q)"
  let ?q2 = "set_prev FakeTail (Some (last bs)) (set_next (last bs) (Some FakeTail) ?q1)"
  let ?q3 = "?q2\<lparr>num_free_blocks := num_free_blocks q + int (length bs)\<rparr>"
  have nofake: "FakeHead \<notin> set bs" "FakeTail \<notin> set bs" "FakeTail \<notin> set xs" "FakeHead \<notin> set xs"
    using bl free_list_no_fake[OF fl] by (auto simp: list_all_iff)
  have p: "?p \<notin> set bs"
    using nofake disj last_in_set[of xs] by (cases "xs = []") auto
  then have "distinct (?p # bs)" using assms(2) by simp
  note run = link_run_effect[OF this, where q = q]
  have eq: "append_n bs q = Inr ?q3"
    using free_list_ends(2)[OF fl] run(1) False
    by (cases "link_run ?p bs q") (simp add: append_n_def Let_def)
  have links: "chain (next_free_block q) (FakeHead # xs)" "chain (prev_free_block q) (rev xs @ [FakeHead])"
    "next_free_block q FakeTail = None"
    using fl chain_append[of "next_free_block q" "FakeHead # xs" "[FakeTail]"]
    by (simp_all add: free_list_def chain_Cons)
  have lb: "last bs \<in> set bs" using False by simp
  have "chain (next_free_block ?q3) (FakeHead # xs) = chain (next_free_block q) (FakeHead # xs)"
  proof (rule chain_cong)
    fix x assume x: "x \<in> set (butlast (FakeHead # xs))"
    have "x \<noteq> ?p" using x last_notin_butlast[of "FakeHead # xs"] nofake free_list_distinct[OF fl] by auto
    moreover have "x \<notin> set bs" using x nofake disj by (auto dest: in_set_butlastD split: if_splits)
    ultimately have "x \<notin> set (butlast (?p # bs))" and "x \<noteq> last bs"
      using lb by (auto dest: in_set_butlastD split: if_splits)
    then show "next_free_block ?q3 x = next_free_block q x"
      using run(4)[of x] by simp
  qed
  moreover have "chain (next_free_block ?q3) (?p # bs)"
    using run(2) last_notin_butlast[of "?p # bs"] \<open>distinct (?p # bs)\<close> False
    by (simp add: chain_upd)
  moreover have "next_free_block ?q3 (last bs) = Some FakeTail" by simp
  ultimately have nx: "chain (next_free_block ?q3) ((FakeHead # xs) @ (bs @ [FakeTail]))"
    using links False unfolding chain_append by (simp add: chain_Cons)
  have "chain (prev_free_block ?q3) (rev xs @ [FakeHead]) = chain (prev_free_block q) (rev xs @ [FakeHead])"
  proof (rule chain_cong)
    fix x assume "x \<in> set (butlast (rev xs @ [FakeHead]))"
    then have "x \<notin> set bs" "x \<noteq> FakeTail" using nofake disj by auto
    then show "prev_free_block ?q3 x = prev_free_block q x" using run(5)[of x] by simp
  qed
  moreover have "chain (prev_free_block ?q3) (rev bs @ [?p])"
    using run(3) nofake by (simp add: chain_upd)
  then have "chain (prev_free_block ?q3) (rev bs)" "prev_free_block ?q3 (hd bs) = Some ?p"
    using False unfolding chain_append by (simp_all add: last_rev)
  ultimately have pv: "chain (prev_free_block ?q3) ((FakeTail # rev bs) @ (rev xs @ [FakeHead]))"
    using links False unfolding chain_append
    by (auto simp: chain_Cons hd_rev last_rev hd_append)
  have "free_list ?q3 (xs @ bs)"
  proof (rule free_listI)
    show "next_free_block ?q3 FakeTail = None"
    proof -
      have "FakeTail \<noteq> last bs" and "FakeTail \<noteq> ?p"
        using lb nofake by (auto dest: arg_cong[of _ _ "\<lambda>b. b \<in> set xs"] split: if_splits)
      moreover have "FakeTail \<notin> set (butlast (?p # bs))"
        using \<open>FakeTail \<noteq> ?p\<close> nofake(2) by (auto dest: in_set_butlastD split: if_splits)
      ultimately show ?thesis
        using run(4)[of FakeTail] links by simp
    qed
    show "prev_free_block ?q3 b = None \<and> next_free_block ?q3 b = None"
      if "is_block b" and "b \<notin> set (xs @ bs)" for b
    proof -
      have "b \<noteq> FakeTail" "b \<noteq> last bs" "b \<notin> set (butlast (?p # bs))" "b \<notin> set bs"
        using that lb last_in_set[of xs] by (auto dest: in_set_butlastD split: if_splits)
      then show ?thesis
        using run(4,5)[of b] free_list_detached[OF fl, of b] that by simp
    qed
    show "distinct (xs @ bs)" "list_all is_block (xs @ bs)" "num_free_blocks ?q3 = int (length (xs @ bs))"
      using fl assms by (auto simp: free_list_def)
  qed (use nx pv in simp_all)
  with eq show ?thesis by blast
qed

lemma free_list_prepend_n:
  assumes fl: "free_list q xs" and "distinct bs" and bl: "list_all is_block bs"
    and disj: "set bs \<inter> set xs = {}"
  shows "\<exists>q'. prepend_n bs q = Inr q' \<and> free_list q' (bs @ xs)"
proof (cases "bs = []")
  case True
  with fl show ?thesis by (simp add: prepend_n_def)
next
  case False
  let ?n = "hd (xs @ [FakeTail])"
  let ?q1 = "snd (link_run FakeHead bs q)"
  let ?q2 = "set_prev ?n (Some (last bs)) (set_next (last bs) (Some ?n) ?q1)"
  let ?q3 = "?q2\<lparr>num_free_blocks := num_free_blocks q + int (length bs)\<rparr>"
  have nofake: "FakeHead \<notin> set bs" "FakeTail \<notin> set bs" "FakeTail \<notin> set xs" "FakeHead \<notin> set xs"
    using bl free_list_no_fake[OF fl] by (auto simp: list_all_iff)
  have n: "?n \<in> insert FakeTail (set xs)"
    by (cases xs) auto
  have dist: "distinct (FakeHead # bs)" using nofake assms(2) by simp
  note run = link_run_effect[OF this, where q = q]
  have eq: "prepend_n bs q = Inr ?q3"
    using free_list_ends(1)[OF fl] run(1) False
    by (cases "link_run FakeHead bs q") (simp add: prepend_n_def Let_def)
  have links: "chain (next_free_block q) (xs @ [FakeTail])" "chain (prev_free_block q) (FakeTail # rev xs)"
    "next_free_block q FakeTail = None"
    using fl chain_append[of "prev_free_block q" "FakeTail # rev xs" "[FakeHead]"]
    by (simp_all add: free_list_def chain_Cons)
  have lb: "last bs \<in> set bs" using False by simp
  have "chain (next_free_block ?q3) (xs @ [FakeTail]) = chain (next_free_block q) (xs @ [FakeTail])"
  proof (rule chain_cong)
    fix x assume "x \<in> set (butlast (xs @ [FakeTail]))"
    then have "x \<notin> set (butlast (FakeHead # bs))" and "x \<noteq> last bs"
      using nofake disj lb by (auto dest: in_set_butlastD split: if_splits)
    then show "next_free_block ?q3 x = next_free_block q x"
      using run(4)[of x] by simp
  qed
  moreover have "chain (next_free_block ?q3) (FakeHead # bs)"
    using run(2) last_notin_butlast[of "FakeHead # bs"] dist False
    by (simp add: chain_upd)
  ultimately have nx: "chain (next_free_block ?q3) ((FakeHead # bs) @ (xs @ [FakeTail]))"
    using links False by (subst chain_append) simp
  have "chain (prev_free_block ?q3) (FakeTail # rev xs) = chain (prev_free_block q) (FakeTail # rev xs)"
  proof (rule chain_cong)
    fix x assume x: "x \<in> set (butlast (FakeTail # rev xs))"
    have "last (FakeTail # rev xs) = ?n" by (cases xs) simp_all
    with x have "x \<noteq> ?n"
      using last_notin_butlast[of "FakeTail # rev xs"] nofake free_list_distinct[OF fl] by auto
    moreover have "x \<notin> set bs"
      using nofake disj in_set_butlastD[OF x] by auto
    ultimately show "prev_free_block ?q3 x = prev_free_block q x" using run(5)[of x] by simp
  qed
  moreover have "last (FakeTail # rev xs) = ?n" by (cases xs) simp_all
  moreover have "?n \<notin> set (butlast (rev bs @ [FakeHead]))"
    using n disj nofake by auto
  then have "chain (prev_free_block ?q3) (rev bs @ [FakeHead])"
    using run(3) by (simp add: chain_upd)
  ultimately have pv: "chain (prev_free_block ?q3) ((FakeTail # rev xs) @ (rev bs @ [FakeHead]))"
    using links False by (subst chain_append) (simp add: hd_rev)
  have "free_list ?q3 (bs @ xs)"
  proof (rule free_listI)
    have "FakeTail \<noteq> last bs" "FakeTail \<notin> set (butlast (FakeHead # bs))"
      using lb nofake by (auto dest: in_set_butlastD split: if_splits)
    then show "next_free_block ?q3 FakeTail = None"
      using run(4)[of FakeTail] links by simp
    show "prev_free_block ?q3 b = None \<and> next_free_block ?q3 b = None"
      if "is_block b" and "b \<notin> set (bs @ xs)" for b
    proof -
      have "b \<noteq> ?n" "b \<noteq> last bs" "b \<notin> set (butlast (FakeHead # bs))" "b \<notin> set bs"
        using that lb n by (auto dest: in_set_butlastD split: if_splits)
      then show ?thesis
        using run(4,5)[of b] free_list_detached[OF fl, of b] that by simp
    qed
    show "distinct (bs @ xs)" "list_all is_block (bs @ xs)" "num_free_blocks ?q3 = int (length (bs @ xs))"
      using fl assms by (auto simp: free_list_def)
  qed (use nx pv in simp_all)
  with eq show ?thesis by blast
qed

lemma append_q_conv: "append_q b q = (case prev_free_block q FakeTail of None \<Rightarrow> Inl RuntimeError | Some _ \<Rightarrow> append_n [b] q)"
  by (simp add: append_q_def append_n_def Let_def set_prev_def set_next_def fun_upd_twist split: option.splits)

lemma free_list_append_q:
  "free_list q xs \<Longrightarrow> is_block b \<Longrightarrow> b \<notin> set xs \<Longrightarrow> \<exists>q'. append_q b q = Inr q' \<and> free_list q' (xs @ [b])"
  using free_list_append_n[of q xs "[b]"] free_list_ends(2)[of q xs] by (simp add: append_q_conv)

interpretation fq: free_queue free_list is_block num_free_blocks popleft popleft_n remove_q append_n prepend_n
proof
  show "\<exists>q'. popleft q = Inr (x, q') \<and> free_list q' xs" if "free_list q (x # xs)" for q x xs
    using free_list_remove_q[of q "[]" x xs] popleft_conv_remove_q[OF that] that by auto
  show "\<exists>q'. remove_q x q = Inr q' \<and> free_list q' (remove1 x xs)"
    if fl: "free_list q xs" and x: "x \<in> set xs" for q xs x
  proof -
    from split_list_first[OF x] obtain as bs where "xs = as @ x # bs" and "x \<notin> set as"
      by blast
    then show ?thesis
      using free_list_remove_q[of q as x bs] fl by (simp add: remove1_append)
  qed
qed (fact free_list_distinct free_list_is_block free_list_unique free_list_size popleft_empty
  free_list_popleft_n popleft_n_short remove_q_detached free_list_append_n free_list_prepend_n)+

section \<open>Construction and traversal\<close>

lemma link_neighbours_fold:
  fixes n :: int and bs :: "block_ref list" and k :: nat
  assumes "distinct bs" and "k \<le> length bs"
  defines "q0 \<equiv> \<lparr>prev_free_block = (\<lambda>_. None), next_free_block = (\<lambda>_. None), num_free_blocks = n\<rparr>"
  defines "q \<equiv> fold (link_neighbours bs) [0..<k] q0"
  shows "(\<forall>i. i < k \<longrightarrow> 0 < i \<longrightarrow> prev_free_block q (bs ! i) = Some (bs ! (i - 1))) \<and>
         (\<forall>i. i < k \<longrightarrow> Suc i < length bs \<longrightarrow> next_free_block q (bs ! i) = Some (bs ! Suc i)) \<and>
         (\<forall>b. b \<notin> set bs \<longrightarrow> prev_free_block q b = None \<and> next_free_block q b = None) \<and>
         num_free_blocks q = n"
  using assms(2) unfolding q_def
proof (induction k)
  case 0
  show ?case by (simp add: q0_def)
next
  case (Suc k)
  have ne: "bs ! i \<noteq> bs ! k" if "i < k" for i
    using that Suc.prems assms(1) by (simp add: nth_eq_iff_index_eq)
  have mem: "bs ! k \<in> set bs"
    using Suc.prems by simp
  show ?case
    using Suc.IH Suc.prems ne mem by (auto simp: link_neighbours_def Let_def less_Suc_eq intro!: nth_mem)
qed

lemma init_queue_free_list:
  assumes "distinct bs" and "list_all is_block bs"
  shows "free_list (init_queue bs) bs"
proof (cases "bs = []")
  case True
  then show ?thesis
    by (auto simp: init_queue_def free_list_def elim: is_block.elims)
next
  case False
  let ?n = "length bs"
  define q where "q = fold (link_neighbours bs) [0..<?n]
    \<lparr>prev_free_block = (\<lambda>_. None), next_free_block = (\<lambda>_. None), num_free_blocks = int ?n\<rparr>"
  note eff = link_neighbours_fold[OF assms(1) order_refl, of "int ?n", folded q_def]
  define q' where "q' = init_queue bs"
  have hd_bs: "bs ! 0 = hd bs" and last_bs: "last bs = bs ! (?n - 1)"
    using False by (simp_all add: hd_conv_nth last_conv_nth)
  have nx: "next_free_block q' = (next_free_block q)(FakeHead := Some (hd bs), last bs := Some FakeTail)"
    and pv: "prev_free_block q' = (prev_free_block q)(hd bs := Some FakeHead, FakeTail := Some (last bs))"
    and nm: "num_free_blocks q' = int ?n"
    using False eff by (simp_all add: q'_def init_queue_def q_def hd_bs)
  have nofake: "FakeHead \<notin> set bs" "FakeTail \<notin> set bs"
    using assms(2) by (auto simp: list_all_iff)
  have mem: "hd bs \<in> set bs" "last bs \<in> set bs"
    using False by simp_all
  have ends: "FakeHead \<noteq> last bs" "FakeTail \<noteq> last bs" "FakeTail \<noteq> hd bs"
    using mem nofake by metis+
  have "chain (next_free_block q') bs"
    unfolding chain_conv_nth nx
  proof (intro allI impI)
    fix i assume i: "Suc i < ?n"
    then have "bs ! i \<noteq> last bs" "bs ! i \<in> set bs"
      using assms(1) by (auto simp: last_bs nth_eq_iff_index_eq)
    moreover have "bs ! i \<noteq> FakeHead"
      using calculation(2) nofake by auto
    ultimately show "((next_free_block q)(FakeHead := Some (hd bs), last bs := Some FakeTail)) (bs ! i) =
        Some (bs ! Suc i)"
      using eff i by simp
  qed
  then have fwd: "chain (next_free_block q') (FakeHead # bs @ [FakeTail])"
    using False ends by (auto simp: chain_Cons chain_append nx)
  have "chain (prev_free_block q') (rev bs)"
    unfolding chain_conv_nth pv
  proof (intro allI impI)
    fix i assume i: "Suc i < length (rev bs)"
    let ?j = "?n - Suc i"
    have j: "?j < ?n" "0 < ?j" "rev bs ! i = bs ! ?j" "rev bs ! Suc i = bs ! (?j - 1)"
      using i by (simp_all add: rev_nth Suc_diff_Suc)
    have "bs ! ?j \<noteq> bs ! 0"
      using assms(1) j(1,2) by (subst nth_eq_iff_index_eq) auto
    moreover have "bs ! ?j \<noteq> FakeTail"
      using nth_mem[OF j(1)] nofake(2) by metis
    ultimately show "((prev_free_block q)(hd bs := Some FakeHead, FakeTail := Some (last bs))) (rev bs ! i) =
        Some (rev bs ! Suc i)"
      using eff j by (simp add: hd_bs)
  qed
  moreover have "chain (prev_free_block q') (rev bs @ [FakeHead])"
    using calculation False ends by (subst chain_append) (auto simp: pv last_rev)
  ultimately have bwd: "chain (prev_free_block q') (FakeTail # rev bs @ [FakeHead])"
    using False by (subst chain_Cons) (auto simp: pv hd_rev hd_append)
  have "free_list q' bs"
  proof (rule free_listI)
    show "next_free_block q' FakeTail = None"
      using eff nofake ends by (auto simp: nx)
    show "prev_free_block q' b = None \<and> next_free_block q' b = None" if "is_block b" "b \<notin> set bs" for b
      using that eff mem by (auto simp: nx pv)
  qed (use fwd bwd nm assms in simp_all)
  then show ?thesis by (simp add: q'_def)
qed

lemma collect_while_next_list:
  "chain f (xs @ [FakeTail]) \<Longrightarrow> f FakeTail = None \<Longrightarrow>
     collect_while_next f (hd (xs @ [FakeTail])) ret = Some (ret @ xs)"
proof (induction xs arbitrary: ret)
  case Nil
  then show ?case by (subst collect_while_next.simps) simp
next
  case (Cons x xs)
  then show ?case by (subst collect_while_next.simps) (simp add: chain_Cons)
qed

lemma collect_until_tail_list:
  "chain f (xs @ [FakeTail]) \<Longrightarrow> FakeTail \<notin> set xs \<Longrightarrow>
     collect_until_tail f (Some (hd (xs @ [FakeTail]))) ret = Some (ret @ xs)"
proof (induction xs arbitrary: ret)
  case Nil
  then show ?case by (subst collect_until_tail.simps) simp
next
  case (Cons x xs)
  then show ?case by (subst collect_until_tail.simps) (auto simp: chain_Cons)
qed

text \<open>
  C12: The queue reports its blocks.  On every queue that holds the blocks \<open>xs\<close>, the
  traversal of \<open>get_all_free_blocks\<close> returns, and returns exactly \<open>xs\<close>; started after a
  cursor in the queue, \<open>iter_blocks_after\<close> yields the blocks behind it, and with no cursor
  all of them.  A cursor that has left the queue yields nothing.
\<close>

theorem traversal_yields_free_list:
  assumes "free_list q xs"
  shows "get_all_free_blocks q = Some (Inr xs) \<and>
    iter_blocks_after None q = Some xs \<and>
    (\<forall>as b bs. xs = as @ b # bs \<longrightarrow> iter_blocks_after (Some b) q = Some bs) \<and>
    (\<forall>b. is_block b \<longrightarrow> b \<notin> set xs \<longrightarrow> iter_blocks_after (Some b) q = Some [])"
proof (intro conjI allI impI)
  have ch: "chain (next_free_block q) (xs @ [FakeTail])" "next_free_block q FakeTail = None"
    using assms by (simp_all add: free_list_def chain_Cons)
  show "get_all_free_blocks q = Some (Inr xs)"
    by (simp add: get_all_free_blocks_def free_list_ends[OF assms] collect_while_next_list[OF ch])
  show "iter_blocks_after None q = Some xs"
    using free_list_no_fake[OF assms]
    by (simp add: iter_blocks_after_def free_list_ends[OF assms] collect_until_tail_list[OF ch(1)])
  fix as b bs
  show "iter_blocks_after (Some b) q = Some bs" if xs: "xs = as @ b # bs"
  proof -
    have "chain (next_free_block q) (bs @ [FakeTail])"
      using ch(1) by (simp add: xs chain_append[of _ as] chain_Cons)
    moreover have "FakeTail \<notin> set bs"
      using free_list_no_fake[OF assms] by (simp add: xs)
    moreover have "next_free_block q b = Some (hd (bs @ [FakeTail]))"
      using remove_q_links(2)[of q as b bs] assms by (simp add: xs)
    ultimately show ?thesis
      by (simp add: iter_blocks_after_def collect_until_tail_list)
  qed
  show "iter_blocks_after (Some b) q = Some []" if "is_block b" and "b \<notin> set xs"
    using free_list_detached[OF assms that]
    by (simp add: iter_blocks_after_def collect_until_tail.simps)
qed

text \<open>The traversals at a concrete queue: three blocks, of which the first is taken.\<close>

theorem traversal_yields_free_list_witness:
  "\<exists>q. rbind (popleft_n 1 (init_queue [Block 1, Block 2, Block 3])) (\<lambda>(ret, q). Inr q) = Inr q \<and>
     get_all_free_blocks q = Some (Inr [Block 2, Block 3]) \<and>
     iter_blocks_after (Some (Block 2)) q = Some [Block 3] \<and>
     iter_blocks_after (Some (Block 1)) q = Some []"
proof -
  have "free_list (init_queue [Block 1, Block 2, Block 3]) [Block 1, Block 2, Block 3]"
    by (rule init_queue_free_list) simp_all
  from fq.rep_pop_n[OF this, of 1] obtain q
    where q: "popleft_n 1 (init_queue [Block 1, Block 2, Block 3]) = Inr ([Block 1], q)"
      and fl: "free_list q [Block 2, Block 3]"
    by auto
  have "iter_blocks_after (Some (Block 2)) q = Some [Block 3]"
    using traversal_yields_free_list[OF fl] by (metis append_Nil)
  with q show ?thesis
    using traversal_yields_free_list[OF fl] by (intro exI[of _ q]) simp
qed

section \<open>Refinement of a list\<close>

text \<open>
  The calls of the queue as data, what each does to a plain list (the specification), what
  the pointer code does, and which calls a client may make: taking a non-negative number of
  blocks, and returning distinct blocks that are not free already.
\<close>

datatype queue_op =
    Popleft
  | PopleftN int
  | Remove block_ref
  | Append block_ref
  | AppendN "block_ref list"
  | PrependN "block_ref list"

fun list_step :: "queue_op \<Rightarrow> block_ref list \<Rightarrow> (block_ref list \<times> block_ref list) result" where
  "list_step Popleft xs = (case xs of [] \<Rightarrow> Inl ValueError | x # ys \<Rightarrow> Inr ([x], ys))"
| "list_step (PopleftN n) xs =
     (if n \<le> int (length xs) then Inr (take (nat n) xs, drop (nat n) xs) else Inl AssertionError)"
| "list_step (Remove b) xs = (if b \<in> set xs then Inr ([], remove1 b xs) else Inl RuntimeError)"
| "list_step (Append b) xs = Inr ([], xs @ [b])"
| "list_step (AppendN bs) xs = Inr ([], xs @ bs)"
| "list_step (PrependN bs) xs = Inr ([], bs @ xs)"

fun queue_step :: "queue_op \<Rightarrow> fqueue \<Rightarrow> (block_ref list \<times> fqueue) result" where
  "queue_step Popleft q = rbind (popleft q) (\<lambda>(b, q'). Inr ([b], q'))"
| "queue_step (PopleftN n) q = popleft_n n q"
| "queue_step (Remove b) q = rbind (remove_q b q) (\<lambda>q'. Inr ([], q'))"
| "queue_step (Append b) q = rbind (append_q b q) (\<lambda>q'. Inr ([], q'))"
| "queue_step (AppendN bs) q = rbind (append_n bs q) (\<lambda>q'. Inr ([], q'))"
| "queue_step (PrependN bs) q = rbind (prepend_n bs q) (\<lambda>q'. Inr ([], q'))"

fun may_call :: "queue_op \<Rightarrow> block_ref list \<Rightarrow> bool" where
  "may_call Popleft xs = True"
| "may_call (PopleftN n) xs = (0 \<le> n)"
| "may_call (Remove b) xs = is_block b"
| "may_call (Append b) xs = (is_block b \<and> b \<notin> set xs)"
| "may_call (AppendN bs) xs = (list_all is_block bs \<and> distinct bs \<and> set bs \<inter> set xs = {})"
| "may_call (PrependN bs) xs = (list_all is_block bs \<and> distinct bs \<and> set bs \<inter> set xs = {})"

fun run_ops :: "(queue_op \<Rightarrow> 's \<Rightarrow> (block_ref list \<times> 's) result) \<Rightarrow> queue_op list \<Rightarrow> 's \<Rightarrow>
    (block_ref list list \<times> 's) result" where
  "run_ops step [] s = Inr ([], s)"
| "run_ops step (c # cs) s =
     rbind (step c s) (\<lambda>(out, s'). rbind (run_ops step cs s') (\<lambda>(outs, s''). Inr (out # outs, s'')))"

fun may_run :: "queue_op list \<Rightarrow> block_ref list \<Rightarrow> bool" where
  "may_run [] xs = True"
| "may_run (c # cs) xs =
     (may_call c xs \<and> (case list_step c xs of Inl e \<Rightarrow> True | Inr (out, ys) \<Rightarrow> may_run cs ys))"

text \<open>Related outcomes: the same exception, or the same output and a queue holding the list.\<close>

fun same_outcome :: "('o \<times> fqueue) result \<Rightarrow> ('o \<times> block_ref list) result \<Rightarrow> bool" where
  "same_outcome (Inl e) (Inl e') = (e = e')"
| "same_outcome (Inr (out, q)) (Inr (out', xs)) = (out = out' \<and> free_list q xs)"
| "same_outcome _ _ = False"

lemma same_outcome_Inl: "same_outcome r (Inl e) \<longleftrightarrow> r = Inl e"
  by (cases r) auto

lemma same_outcome_Inr: "same_outcome r (Inr (out, xs)) \<longleftrightarrow> (\<exists>q. r = Inr (out, q) \<and> free_list q xs)"
  by (cases r) auto

lemma queue_step_refines:
  assumes "free_list q xs" and "may_call c xs"
  shows "same_outcome (queue_step c q) (list_step c xs)"
proof (cases c)
  case Popleft
  then show ?thesis
    using assms fq.rep_pop[of q] fq.rep_pop_empty[of q]
    by (cases xs) (fastforce simp: same_outcome_Inr)+
next
  case (PopleftN n)
  then show ?thesis
    using assms fq.rep_pop_n[of q xs n] fq.rep_pop_n_short[of q xs n] by (auto simp: same_outcome_Inr)
next
  case (Remove b)
  then show ?thesis
    using assms fq.rep_del[of q xs b] fq.rep_del_absent[of q xs b] by (auto simp: same_outcome_Inr)
next
  case (Append b)
  then show ?thesis
    using assms free_list_append_q[of q xs b] by (auto simp: same_outcome_Inr)
next
  case (AppendN bs)
  then show ?thesis
    using assms fq.rep_add_last[of q xs bs] by (auto simp: same_outcome_Inr)
next
  case (PrependN bs)
  then show ?thesis
    using assms fq.rep_add_first[of q xs bs] by (auto simp: same_outcome_Inr)
qed

lemma run_ops_refines:
  "free_list q xs \<Longrightarrow> may_run cs xs \<Longrightarrow>
     same_outcome (run_ops queue_step cs q) (run_ops list_step cs xs)"
proof (induction cs arbitrary: q xs)
  case Nil
  then show ?case by simp
next
  case (Cons c cs)
  have head: "same_outcome (queue_step c q) (list_step c xs)"
    using Cons.prems by (intro queue_step_refines) simp_all
  show ?case
  proof (cases "list_step c xs")
    case (Inl e)
    with head show ?thesis by (simp add: same_outcome_Inl)
  next
    case (Inr r)
    then obtain out ys where r: "list_step c xs = Inr (out, ys)" by (cases r) auto
    with head obtain q' where q': "queue_step c q = Inr (out, q')" "free_list q' ys"
      by (auto simp: same_outcome_Inr)
    have "same_outcome (run_ops queue_step cs q') (run_ops list_step cs ys)"
      using Cons.IH[OF q'(2)] Cons.prems(2) r by simp
    then show ?thesis
      using q'(1) r by (cases "run_ops queue_step cs q'"; cases "run_ops list_step cs ys") auto
  qed
qed

text \<open>
  C1: The linked list of free blocks refines a plain list.  Whatever sequence of
  \<open>popleft\<close>, \<open>popleft_n\<close>, \<open>remove\<close>, \<open>append\<close>, \<open>append_n\<close> and \<open>prepend_n\<close> calls a client makes
  on a freshly built queue (asking for non-negative numbers, returning only distinct blocks
  that are not free), every call returns the same blocks or raises the same exception as on
  the list, and the pointers of the final queue represent the final list, with every block
  outside it detached.
\<close>

theorem linked_queue_refines_list:
  assumes "distinct bs" and "list_all is_block bs" and "may_run cs bs"
  shows "same_outcome (run_ops queue_step cs (init_queue bs)) (run_ops list_step cs bs)"
  using init_queue_free_list[OF assms(1,2)] assms(3) by (rule run_ops_refines)

theorem linked_queue_refines_list_witness:
  "same_outcome
     (run_ops queue_step [PopleftN 2, Remove (Block 3), AppendN [Block 0, Block 3], PrependN [Block 1], Popleft]
        (init_queue [Block 0, Block 1, Block 2, Block 3]))
     (Inr ([[Block 0, Block 1], [], [], [], [Block 1]], [Block 2, Block 0, Block 3]))"
  using linked_queue_refines_list[of "[Block 0, Block 1, Block 2, Block 3]"
      "[PopleftN 2, Remove (Block 3), AppendN [Block 0, Block 3], PrependN [Block 1], Popleft]"]
  by simp

end
