(* ===== verification/Request.thy ===== *)
theory Request
  imports Prelude Complex_Main "HOL-Library.List_Lexorder" "HOL-Library.Char_ord"
begin

text \<open>
  \<^verbatim>\<open>src/vllm/v1/request.py\<close>: the request as the scheduler and the KV-cache manager see it, with the
  data types it carries (\<^verbatim>\<open>PlaceholderRange\<close> of \<^verbatim>\<open>multimodal/inputs.py\<close>, the engine-core events and
  finish reasons of \<^verbatim>\<open>v1/engine/__init__.py\<close>).

  Floats are kept as rationals (every finite float is one, with the same order).  A prompt
  embedding tensor is the list of its rows, each row the bytes of its elements.  The identity
  \<^verbatim>\<open>id(request)\<close> is the field \<open>obj_id\<close>.  The block hasher, a closure in the code, is an argument of
  the operations that call it; \<open>None\<close> is a hasher that does not return.  The clock is an argument.
  Dictionaries whose values the modelled code only passes on have opaque text as values.
\<close>

section \<open>Data\<close>

record placeholder_range =
  offset :: int
  plen :: int
  is_embed :: "bool list option"

record mm_feature =
  mm_identifier :: string
  mm_position :: placeholder_range

definition embeds_cumsum :: "placeholder_range \<Rightarrow> int list option" where
  "embeds_cumsum p =
     (case is_embed p of
        None \<Rightarrow> None
      | Some m \<Rightarrow> Some (map (\<lambda>i. int (length (filter id (take (Suc i) m)))) [0..<length m]))"

definition get_num_embeds :: "placeholder_range \<Rightarrow> int" where
  "get_num_embeds p =
     (case embeds_cumsum p of
        None \<Rightarrow> plen p
      | Some cs \<Rightarrow> if cs \<noteq> [] then last cs else 0)"

definition get_embeds_indices_in_range :: "placeholder_range \<Rightarrow> int \<Rightarrow> int \<Rightarrow> (int \<times> int) result" where
  "get_embeds_indices_in_range p start_idx end_idx =
     (case embeds_cumsum p of
        None \<Rightarrow> Inr (start_idx, end_idx)
      | Some cs \<Rightarrow>
          rbind (if start_idx > 0 then py_nth cs (start_idx - 1) else Inr 0) (\<lambda>s.
          rbind (if end_idx > 0 then py_nth cs (end_idx - 1) else Inr 0) (\<lambda>e.
          Inr (s, e))))"


datatype RequestStatus =
    WAITING
  | WAITING_FOR_STRUCTURED_OUTPUT_GRAMMAR
  | WAITING_FOR_REMOTE_KVS
  | WAITING_FOR_STREAMING_REQ
  | RUNNING
  | PREEMPTED
  | FINISHED_STOPPED
  | FINISHED_LENGTH_CAPPED
  | FINISHED_ABORTED
  | FINISHED_IGNORED
  | FINISHED_ERROR
  | FINISHED_REPETITION

primrec status_value :: "RequestStatus \<Rightarrow> int" where
  "status_value WAITING = 1"
| "status_value WAITING_FOR_STRUCTURED_OUTPUT_GRAMMAR = 2"
| "status_value WAITING_FOR_REMOTE_KVS = 3"
| "status_value WAITING_FOR_STREAMING_REQ = 4"
| "status_value RUNNING = 5"
| "status_value PREEMPTED = 6"
| "status_value FINISHED_STOPPED = 7"
| "status_value FINISHED_LENGTH_CAPPED = 8"
| "status_value FINISHED_ABORTED = 9"
| "status_value FINISHED_IGNORED = 10"
| "status_value FINISHED_ERROR = 11"
| "status_value FINISHED_REPETITION = 12"

text \<open>An \<^verbatim>\<open>IntEnum\<close> compares by value.\<close>

instantiation RequestStatus :: linorder
begin

definition less_eq_RequestStatus :: "RequestStatus \<Rightarrow> RequestStatus \<Rightarrow> bool" where
  "less_eq_RequestStatus a b \<longleftrightarrow> status_value a \<le> status_value b"

definition less_RequestStatus :: "RequestStatus \<Rightarrow> RequestStatus \<Rightarrow> bool" where
  "less_RequestStatus a b \<longleftrightarrow> status_value a < status_value b"

instance
proof
  fix a b :: RequestStatus
  assume "a \<le> b" and "b \<le> a"
  then show "a = b"
    unfolding less_eq_RequestStatus_def by (cases a; cases b; simp)
qed (auto simp: less_eq_RequestStatus_def less_RequestStatus_def)

end



datatype EngineCoreEventType = QUEUED | SCHEDULED | PREEMPTED_EVENT

type_synonym engine_core_event = "EngineCoreEventType \<times> rat"

record prefill_stats =
  ps_num_prompt_tokens :: int
  ps_num_computed_tokens :: int
  ps_num_cached_tokens :: int
  ps_num_local_cached_tokens :: int
  ps_num_external_cached_tokens :: int
  ps_num_cache_creation_tokens :: int

definition new_prefill_stats :: prefill_stats where
  "new_prefill_stats = \<lparr>ps_num_prompt_tokens = 0, ps_num_computed_tokens = 0, ps_num_cached_tokens = 0,
     ps_num_local_cached_tokens = 0, ps_num_external_cached_tokens = 0, ps_num_cache_creation_tokens = 0\<rparr>"

definition prefill_stats_set :: "int \<Rightarrow> int \<Rightarrow> int \<Rightarrow> prefill_stats \<Rightarrow> prefill_stats result" where
  "prefill_stats_set num_prompt num_local num_external st =
     (let num_cached = num_local + num_external
      in py_assert (num_cached \<le> num_prompt)
           (Inr (st\<lparr>ps_num_prompt_tokens := num_prompt,
                    ps_num_computed_tokens := num_prompt - num_cached,
                    ps_num_cached_tokens := num_cached,
                    ps_num_local_cached_tokens := num_local,
                    ps_num_external_cached_tokens := num_external\<rparr>)))"

definition prefill_stats_finalize :: "int \<Rightarrow> prefill_stats \<Rightarrow> prefill_stats result" where
  "prefill_stats_finalize num_cached st =
     py_assert (num_cached \<ge> 0)
       (Inr (st\<lparr>ps_num_cache_creation_tokens :=
                  max 0 (min num_cached (ps_num_prompt_tokens st) - ps_num_cached_tokens st)\<rparr>))"

text \<open>The fields of the sampling and pooling parameters that the request reads.\<close>

record sampling_params =
  sp_max_tokens :: "int option"
  sp_structured_outputs :: "bool option"
  sp_skip_reading_prefix_cache :: "bool option"
  sp_extra_args :: "(string \<Rightarrow> string option) option"

record lora =
  lora_name :: string
  lora_int_id :: int

record pooling_params =
  pp_skip_reading_prefix_cache :: "bool option"

record structured_output_request =
  reasoning_ended :: "bool option"

record streaming_update =
  su_mm_features :: "mm_feature list option"
  su_prompt_token_ids :: "int list option"
  su_max_tokens :: int
  su_arrival_time :: rat
  su_sampling_params :: "sampling_params option"

record engine_core_request =
  er_request_id :: string
  er_prompt_token_ids :: "int list option"
  er_mm_features :: "mm_feature list option"
  er_sampling_params :: "sampling_params option"
  er_pooling_params :: "pooling_params option"
  er_arrival_time :: "rat option"
  er_lora_request :: "lora option"
  er_cache_salt :: "string option"
  er_prompt_embeds :: "bytes list option"
  er_prompt_is_token_ids :: "bool list option"
  er_client_index :: int
  er_priority :: int
  er_resumable :: bool
  er_reasoning_ended :: "bool option"
  er_abort_immediately :: bool

record request =
  request_id :: string
  obj_id :: nat
  client_index :: int
  priority :: int
  req_sampling_params :: "sampling_params option"
  req_pooling_params :: "pooling_params option"
  lora_request :: "lora option"
  req_structured_output :: "structured_output_request option"
  arrival_time :: rat
  status :: RequestStatus
  req_events :: "engine_core_event list"
  kv_transfer_params :: "string option"
  ec_transfer_params :: "string option"
  kv_cache_report_mode :: "string option"
  max_tokens :: int
  prompt_token_ids :: "int list option"
  prompt_embeds :: "bytes list option"
  prompt_is_token_ids :: "bool list option"
  prompt_embeds_per_block_hashes :: "int \<times> int \<Rightarrow> bytes option"
  num_prompt_tokens :: int
  output_token_ids :: "int list"
  all_token_ids :: "int list"
  num_output_placeholders :: int
  num_stale_output_tokens :: int
  drop_stale_output :: bool
  num_in_flight_tokens :: int
  next_decode_eligible_step :: int
  last_sched_seq :: int
  spec_token_ids :: "int list"
  num_computed_tokens :: int
  cache_salt :: "string option"
  mm_features :: "mm_feature list"
  is_prefill_chunk :: bool
  shared_prefix_boundary :: int
  num_nans_in_logits :: int
  num_preemptions :: int
  req_prefill_stats :: "prefill_stats option"
  block_hashes :: "bytes list"
  skip_reading_prefix_cache :: bool
  resumable :: bool
  streaming_queue :: "streaming_update option list option"
  abort_immediately :: bool

type_synonym block_hasher = "request \<Rightarrow> (bytes list \<times> request) result option"

section \<open>Operations\<close>

definition from_request :: "request \<Rightarrow> streaming_update option" where
  "from_request r =
     (if \<not> resumable r then None
      else Some \<lparr>su_mm_features = Some (mm_features r), su_prompt_token_ids = prompt_token_ids r,
                 su_max_tokens = max_tokens r, su_arrival_time = arrival_time r,
                 su_sampling_params = req_sampling_params r\<rparr>)"

definition from_sampling_params :: "sampling_params option \<Rightarrow> structured_output_request option" where
  "from_sampling_params sp =
     (case sp of
        None \<Rightarrow> None
      | Some p \<Rightarrow> if sp_structured_outputs p = Some True then Some \<lparr>reasoning_ended = None\<rparr> else None)"

definition length_from_prompt_token_ids_or_embeds :: "int list option \<Rightarrow> bytes list option \<Rightarrow> int result" where
  "length_from_prompt_token_ids_or_embeds ids embeds =
     (case map_option (\<lambda>xs. int (length xs)) ids of
        None \<Rightarrow> (case embeds of None \<Rightarrow> Inl ValueError | Some e \<Rightarrow> Inr (int (length e)))
      | Some n \<Rightarrow>
          (case embeds of
             None \<Rightarrow> Inr n
           | Some e \<Rightarrow> if int (length e) \<noteq> n then Inl ValueError else Inr n))"

definition get_skip_reading_prefix_cache :: "request \<Rightarrow> bool" where
  "get_skip_reading_prefix_cache r =
     (case Option.bind (req_sampling_params r) sp_skip_reading_prefix_cache of
        Some b \<Rightarrow> b
      | None \<Rightarrow>
          (case Option.bind (req_pooling_params r) pp_skip_reading_prefix_cache of
             Some b \<Rightarrow> b
           | None \<Rightarrow> False))"

definition update_block_hashes :: "block_hasher option \<Rightarrow> request \<Rightarrow> request result option" where
  "update_block_hashes hasher r =
     (case hasher of
        None \<Rightarrow> Some (Inr r)
      | Some h \<Rightarrow>
          map_option (\<lambda>res. rbind res (\<lambda>(hs, r'). Inr (r'\<lparr>block_hashes := block_hashes r' @ hs\<rparr>))) (h r))"

text \<open>
  \<open>init_limits\<close> is the branch on pooling and sampling parameters: the token limit, the status,
  and the three values read from \<^verbatim>\<open>extra_args\<close>.  A pooling request never gets a
  \<^verbatim>\<open>kv_cache_report_mode\<close> attribute.
\<close>

definition init_limits ::
  "pooling_params option \<Rightarrow> sampling_params option \<Rightarrow> structured_output_request option \<Rightarrow>
   (int \<times> RequestStatus \<times> string option \<times> string option \<times> string option) result" where
  "init_limits pp sp so =
     (case pp of
        Some _ \<Rightarrow> Inr (1, WAITING, None, None, None)
      | None \<Rightarrow>
          (case sp of
             None \<Rightarrow> Inl ValueError
           | Some p \<Rightarrow>
               (case sp_max_tokens p of
                  None \<Rightarrow> Inl AssertionError
                | Some m \<Rightarrow>
                    (let st = (if so \<noteq> None then WAITING_FOR_STRUCTURED_OUTPUT_GRAMMAR else WAITING)
                     in case sp_extra_args p of
                          Some ea \<Rightarrow>
                            Inr (m, st, ea ''kv_transfer_params'', ea ''ec_transfer_params'',
                                 Some (case ea ''kv_cache_report_mode'' of Some x \<Rightarrow> x | None \<Rightarrow> ''incremental''))
                        | None \<Rightarrow> Inr (m, st, None, None, Some ''incremental'')))))"

definition fresh_request ::
  "rat \<Rightarrow> nat \<Rightarrow> engine_core_request \<Rightarrow> structured_output_request option \<Rightarrow>
   (int \<times> RequestStatus \<times> string option \<times> string option \<times> string option) \<Rightarrow> int \<Rightarrow> request" where
  "fresh_request now oid er so lims n =
     (case lims of (mt, st, kvp, ecp, mode) \<Rightarrow>
       \<lparr>request_id = er_request_id er, obj_id = oid,
        client_index = er_client_index er, priority = er_priority er,
        req_sampling_params = er_sampling_params er,
        req_pooling_params = er_pooling_params er,
        lora_request = er_lora_request er, req_structured_output = so,
        arrival_time = (case er_arrival_time er of Some t \<Rightarrow> t | None \<Rightarrow> now),
        status = st, req_events = [], kv_transfer_params = kvp, ec_transfer_params = ecp,
        kv_cache_report_mode = mode, max_tokens = mt,
        prompt_token_ids = er_prompt_token_ids er, prompt_embeds = er_prompt_embeds er,
        prompt_is_token_ids = er_prompt_is_token_ids er,
        prompt_embeds_per_block_hashes = (\<lambda>_. None), num_prompt_tokens = n,
        output_token_ids = [],
        all_token_ids = (case er_prompt_token_ids er of
                           Some ids \<Rightarrow> ids | None \<Rightarrow> replicate (nat n) 0),
        num_output_placeholders = 0, num_stale_output_tokens = 0,
        drop_stale_output = False, num_in_flight_tokens = 0,
        next_decode_eligible_step = 0, last_sched_seq = 0, spec_token_ids = [],
        num_computed_tokens = 0, cache_salt = er_cache_salt er,
        mm_features = (case er_mm_features er of Some fs \<Rightarrow> fs | None \<Rightarrow> []),
        is_prefill_chunk = False, shared_prefix_boundary = 0, num_nans_in_logits = 0,
        num_preemptions = 0, req_prefill_stats = Some new_prefill_stats,
        block_hashes = [], skip_reading_prefix_cache = False,
        resumable = er_resumable er, streaming_queue = None,
        abort_immediately = er_abort_immediately er\<rparr>)"

definition init_request ::
  "rat \<Rightarrow> nat \<Rightarrow> block_hasher option \<Rightarrow> engine_core_request \<Rightarrow> request result option" where
  "init_request now oid hasher er =
     (let so = map_option (\<lambda>s. s\<lparr>reasoning_ended := er_reasoning_ended er\<rparr>)
                 (from_sampling_params (er_sampling_params er))
      in case init_limits (er_pooling_params er) (er_sampling_params er) so of
           Inl e \<Rightarrow> Some (Inl e)
         | Inr lims \<Rightarrow>
             (case length_from_prompt_token_ids_or_embeds (er_prompt_token_ids er) (er_prompt_embeds er) of
                Inl e \<Rightarrow> Some (Inl e)
              | Inr n \<Rightarrow>
                  map_option (\<lambda>res. rbind res (\<lambda>r.
                      Inr (r\<lparr>skip_reading_prefix_cache := get_skip_reading_prefix_cache r\<rparr>)))
                    (update_block_hashes hasher (fresh_request now oid er so lims n))))"

definition append_output_token_ids ::
  "block_hasher option \<Rightarrow> int list \<Rightarrow> request \<Rightarrow> request result option" where
  "append_output_token_ids hasher toks r =
     update_block_hashes hasher
       (r\<lparr>output_token_ids := output_token_ids r @ toks, all_token_ids := all_token_ids r @ toks\<rparr>)"

definition use_structured_output :: "request \<Rightarrow> bool" where
  "use_structured_output r \<longleftrightarrow> req_structured_output r \<noteq> None"

definition num_tokens :: "request \<Rightarrow> int" where
  "num_tokens r = int (length (all_token_ids r))"

definition num_tokens_with_spec :: "request \<Rightarrow> int" where
  "num_tokens_with_spec r = int (length (all_token_ids r)) + int (length (spec_token_ids r))"

definition num_output_tokens :: "request \<Rightarrow> int" where
  "num_output_tokens r = int (length (output_token_ids r))"

definition num_encoder_inputs :: "request \<Rightarrow> int" where
  "num_encoder_inputs r = int (length (mm_features r))"

definition has_encoder_inputs :: "request \<Rightarrow> bool" where
  "has_encoder_inputs r \<longleftrightarrow> num_encoder_inputs r > 0"



definition get_num_encoder_embeds :: "int \<Rightarrow> request \<Rightarrow> int result" where
  "get_num_encoder_embeds input_id r =
     py_assert (input_id < int (length (mm_features r)))
       (rbind (py_nth (mm_features r) input_id) (\<lambda>f. Inr (get_num_embeds (mm_position f))))"

definition record_event :: "rat \<Rightarrow> EngineCoreEventType \<Rightarrow> rat option \<Rightarrow> request \<Rightarrow> request" where
  "record_event now ty timestamp r =
     r\<lparr>req_events := req_events r @ [(ty, case timestamp of None \<Rightarrow> now | Some t \<Rightarrow> t)]\<rparr>"

definition take_events_req :: "request \<Rightarrow> engine_core_event list option \<times> request" where
  "take_events_req r =
     (if req_events r = [] then (None, r) else (Some (req_events r), r\<lparr>req_events := []\<rparr>))"

definition take_prefill_stats :: "request \<Rightarrow> prefill_stats option \<times> request" where
  "take_prefill_stats r =
     (case req_prefill_stats r of
        None \<Rightarrow> (None, r)
      | Some st \<Rightarrow> (Some st, r\<lparr>req_prefill_stats := None\<rparr>))"

definition request_lt :: "request \<Rightarrow> request \<Rightarrow> bool" where
  "request_lt a b =
     (if priority a \<noteq> priority b then priority a < priority b
      else if arrival_time a \<noteq> arrival_time b then arrival_time a < arrival_time b
      else if request_id a \<noteq> request_id b then request_id a < request_id b
      else obj_id a < obj_id b)"

section \<open>Lemmas\<close>

lemma fresh_request_simps [simp]:
  "mm_features (fresh_request now oid er so lims n) = (case er_mm_features er of Some fs \<Rightarrow> fs | None \<Rightarrow> [])"
  "block_hashes (fresh_request now oid er so lims n) = []"
  "output_token_ids (fresh_request now oid er so lims n) = []"
  "num_prompt_tokens (fresh_request now oid er so lims n) = n"
  "all_token_ids (fresh_request now oid er so lims n) =
     (case er_prompt_token_ids er of Some ids \<Rightarrow> ids | None \<Rightarrow> replicate (nat n) 0)"
  "prompt_embeds_per_block_hashes (fresh_request now oid er so lims n) = (\<lambda>_. None)"
  by (cases lims; simp add: fresh_request_def)+

lemma length_prompt_eq:
  "length_from_prompt_token_ids_or_embeds ids embeds = Inr n \<Longrightarrow>
   int (length (case ids of Some xs \<Rightarrow> xs | None \<Rightarrow> replicate (nat n) 0)) = n"
  by (auto simp: length_from_prompt_token_ids_or_embeds_def split: option.splits if_splits)

lemma request_lt_irrefl [simp]: "\<not> request_lt a a"
  by (simp add: request_lt_def)

lemma request_lt_trans: "request_lt a b \<Longrightarrow> request_lt b c \<Longrightarrow> request_lt a c"
  unfolding request_lt_def by (auto split: if_splits)

lemma request_lt_total: "obj_id a \<noteq> obj_id b \<Longrightarrow> request_lt a b \<or> request_lt b a"
  unfolding request_lt_def by (auto split: if_splits)

lemma request_lt_asym: "request_lt a b \<Longrightarrow> \<not> request_lt b a"
  using request_lt_trans[of a b a] by auto

lemma get_num_embeds_mask:
  "is_embed p = Some m \<Longrightarrow> get_num_embeds p = int (length (filter id m))"
  by (auto simp: get_num_embeds_def embeds_cumsum_def last_conv_nth)

text \<open>A request with nothing but a name, an identity and tokens, for concrete inputs.\<close>

definition text_request :: "string \<Rightarrow> nat \<Rightarrow> int list \<Rightarrow> request" where
  "text_request rid oid toks =
     \<lparr>request_id = rid, obj_id = oid, client_index = 0, priority = 0, req_sampling_params = None,
      req_pooling_params = None, lora_request = None, req_structured_output = None, arrival_time = 0,
      status = WAITING, req_events = [], kv_transfer_params = None, ec_transfer_params = None,
      kv_cache_report_mode = None, max_tokens = 16, prompt_token_ids = Some toks, prompt_embeds = None,
      prompt_is_token_ids = None, prompt_embeds_per_block_hashes = (\<lambda>_. None),
      num_prompt_tokens = int (length toks), output_token_ids = [], all_token_ids = toks,
      num_output_placeholders = 0, num_stale_output_tokens = 0, drop_stale_output = False,
      num_in_flight_tokens = 0, next_decode_eligible_step = 0, last_sched_seq = 0, spec_token_ids = [],
      num_computed_tokens = 0, cache_salt = None, mm_features = [], is_prefill_chunk = False,
      shared_prefix_boundary = 0, num_nans_in_logits = 0, num_preemptions = 0,
      req_prefill_stats = None, block_hashes = [], skip_reading_prefix_cache = False,
      resumable = False, streaming_queue = None, abort_immediately = False\<rparr>"

lemma text_request_simps [simp]:
  "request_id (text_request rid oid toks) = rid" "obj_id (text_request rid oid toks) = oid"
  "all_token_ids (text_request rid oid toks) = toks" "mm_features (text_request rid oid toks) = []"
  "lora_request (text_request rid oid toks) = None" "cache_salt (text_request rid oid toks) = None"
  "prompt_embeds (text_request rid oid toks) = None" "block_hashes (text_request rid oid toks) = []"
  "prompt_embeds_per_block_hashes (text_request rid oid toks) = (\<lambda>_. None)"
  "priority (text_request rid oid toks) = 0" "arrival_time (text_request rid oid toks) = 0"
  "status (text_request rid oid toks) = WAITING" "num_computed_tokens (text_request rid oid toks) = 0"
  by (simp_all add: text_request_def)


end
