(* ===== verification/Block_Hash.thy ===== *)
theory Block_Hash
  imports Request
begin

text \<open>
  Prefix-cache keys of \<^verbatim>\<open>src/vllm/v1/core/kv_cache_utils.py\<close>: packing a block hash with its KV-cache
  group id, the extra keys of a block (LoRA name, multi-modal inputs, cache salt, prompt
  embeddings), the chained block hasher of a request, and the coarser view of a hash list.

  The hash function of the prefix cache, the digest of prompt embeddings and the seed of the
  first block (\<^verbatim>\<open>NONE_HASH\<close>) are arguments.  The tuple of extra keys is heterogeneous in the code: a
  LoRA name and a cache salt are both plain strings there, so both are \<open>Key_str\<close> here.
\<close>

unbundle bit_operations_syntax

section \<open>Keys with a group id\<close>

definition to_bytes_be4 :: "int \<Rightarrow> bytes result" where
  "to_bytes_be4 n =
     (if 0 \<le> n \<and> n < 2 ^ 32
      then Inr [word_of_int (n div 2 ^ 24), word_of_int (n div 2 ^ 16), word_of_int (n div 2 ^ 8), word_of_int n]
      else Inl OverflowError)"

definition from_bytes_be :: "bytes \<Rightarrow> int" where
  "from_bytes_be bs = foldl (\<lambda>a b. a * 256 + uint b) 0 bs"

definition make_block_hash_with_group_id :: "bytes \<Rightarrow> int \<Rightarrow> bytes result" where
  "make_block_hash_with_group_id block_hash group_id =
     rbind (to_bytes_be4 group_id) (\<lambda>g. Inr (block_hash @ g))"

definition get_block_hash :: "bytes \<Rightarrow> bytes" where
  "get_block_hash key = py_take key (-4)"

definition get_group_id :: "bytes \<Rightarrow> int" where
  "get_group_id key = from_bytes_be (py_drop key (-4))"

datatype external_block_hash = Hash_bytes bytes | Hash_int int

definition maybe_convert_block_hash :: "bool \<Rightarrow> bytes \<Rightarrow> external_block_hash" where
  "maybe_convert_block_hash use_int_block_hashes hash_bytes =
     (if \<not> use_int_block_hashes then Hash_bytes hash_bytes
      else Hash_int (from_bytes_be hash_bytes AND (push_bit 64 1 - 1)))"

definition init_none_hash :: "(string \<Rightarrow> bytes) \<Rightarrow> string option \<Rightarrow> bytes \<Rightarrow> bytes" where
  "init_none_hash hash_fn hash_seed urandom =
     (case hash_seed of None \<Rightarrow> urandom | Some seed \<Rightarrow> hash_fn seed)"

section \<open>Extra keys\<close>

datatype extra_key = Key_str string | Key_mm string int | Key_bytes bytes

type_synonym hash_input = "bytes \<times> int list \<times> extra_key list option"

definition need_extra_keys :: "request \<Rightarrow> bool" where
  "need_extra_keys r \<longleftrightarrow> mm_features r \<noteq> [] \<or> lora_request r \<noteq> None \<or> cache_salt r \<noteq> None"

definition mm_start :: "mm_feature \<Rightarrow> int" where
  "mm_start f = offset (mm_position f)"

definition mm_end :: "mm_feature \<Rightarrow> int" where
  "mm_end f = offset (mm_position f) + plen (mm_position f)"

text \<open>The loop over the features from position \<open>cur_mm_idx\<close> on, which are the first argument.\<close>

fun mm_keys_loop ::
  "mm_feature list \<Rightarrow> int \<Rightarrow> int \<Rightarrow> int \<Rightarrow> extra_key list \<Rightarrow> extra_key list \<times> int" where
  "mm_keys_loop [] start_token_idx end_token_idx cur_mm_idx extra_keys = (extra_keys, cur_mm_idx)"
| "mm_keys_loop (f # fs) start_token_idx end_token_idx cur_mm_idx extra_keys =
     (if end_token_idx > mm_start f then
        if start_token_idx \<ge> mm_end f then
          mm_keys_loop fs start_token_idx end_token_idx (cur_mm_idx + 1) extra_keys
        else
          (let keys = extra_keys @ [Key_mm (mm_identifier f) (mm_start f - start_token_idx)]
           in if end_token_idx \<ge> mm_end f
              then mm_keys_loop fs start_token_idx end_token_idx (cur_mm_idx + 1) keys
              else (keys, cur_mm_idx))
      else (extra_keys, cur_mm_idx))"

definition gen_mm_extra_hash_keys :: "request \<Rightarrow> int \<Rightarrow> int \<Rightarrow> int \<Rightarrow> (extra_key list \<times> int) result" where
  "gen_mm_extra_hash_keys r start_token_idx end_token_idx start_mm_idx =
     (let fs = mm_features r
      in if fs = [] then Inr ([], start_mm_idx)
         else if mm_end (last fs) \<le> start_token_idx then Inr ([], start_mm_idx)
         else if start_mm_idx < 0 then
           py_assert (- start_mm_idx \<le> int (length fs))
             (let i = int (length fs) + start_mm_idx
              in Inr (mm_keys_loop (drop (nat i) fs) start_token_idx end_token_idx i []))
         else Inr (mm_keys_loop (drop (nat start_mm_idx) fs) start_token_idx end_token_idx start_mm_idx []))"

definition gen_lora_extra_hash_keys :: "request \<Rightarrow> string list" where
  "gen_lora_extra_hash_keys r = (case lora_request r of None \<Rightarrow> [] | Some l \<Rightarrow> [lora_name l])"

definition gen_prompt_embeds_extra_hash_keys ::
  "(bytes \<Rightarrow> bytes) \<Rightarrow> request \<Rightarrow> int \<Rightarrow> int \<Rightarrow> bytes list \<times> request" where
  "gen_prompt_embeds_extra_hash_keys sha256 r start_token_idx end_token_idx =
     (case prompt_embeds r of
        None \<Rightarrow> ([], r)
      | Some rows \<Rightarrow>
          (case prompt_embeds_per_block_hashes r (start_token_idx, end_token_idx) of
             Some h \<Rightarrow> ([h], r)
           | None \<Rightarrow>
               (let h = sha256 (concat (py_slice rows start_token_idx end_token_idx))
                in ([h], r\<lparr>prompt_embeds_per_block_hashes :=
                            (prompt_embeds_per_block_hashes r)((start_token_idx, end_token_idx) := Some h)\<rparr>))))"

definition generate_block_hash_extra_keys ::
  "(bytes \<Rightarrow> bytes) \<Rightarrow> request \<Rightarrow> int \<Rightarrow> int \<Rightarrow> int \<Rightarrow> ((extra_key list option \<times> int) \<times> request) result" where
  "generate_block_hash_extra_keys sha256 r start_token_idx end_token_idx start_mm_idx =
     rbind (gen_mm_extra_hash_keys r start_token_idx end_token_idx start_mm_idx)
       (\<lambda>(mm_extra_keys, new_start_mm_idx).
          (let lora_extra_keys = map Key_str (gen_lora_extra_hash_keys r);
               cache_salt_keys =
                 (case cache_salt r of
                    Some salt \<Rightarrow> if start_token_idx = 0 \<and> salt \<noteq> [] then [Key_str salt] else []
                  | None \<Rightarrow> [])
           in case gen_prompt_embeds_extra_hash_keys sha256 r start_token_idx end_token_idx of
                (embeds, r') \<Rightarrow>
                  (let extra_keys = lora_extra_keys @ mm_extra_keys @ cache_salt_keys @ map Key_bytes embeds
                   in Inr ((if extra_keys = [] then None else Some extra_keys, new_start_mm_idx), r'))))"

section \<open>The chained hasher\<close>

definition hash_block_tokens ::
  "(hash_input \<Rightarrow> bytes) \<Rightarrow> bytes \<Rightarrow> bytes option \<Rightarrow> int list \<Rightarrow> extra_key list option \<Rightarrow> bytes" where
  "hash_block_tokens hash_function none_hash parent_block_hash cur_block_token_ids extra_keys =
     hash_function
       (case parent_block_hash of
          None \<Rightarrow> none_hash
        | Some h \<Rightarrow> if h = [] then none_hash else h,
        cur_block_token_ids, extra_keys)"

partial_function (option) hasher_loop ::
  "(hash_input \<Rightarrow> bytes) \<Rightarrow> bytes \<Rightarrow> (bytes \<Rightarrow> bytes) \<Rightarrow> int \<Rightarrow> int \<Rightarrow> request \<Rightarrow> int \<Rightarrow> int \<Rightarrow> bytes option \<Rightarrow>
   bytes list \<Rightarrow> (bytes list \<times> request) result option" where
  "hasher_loop H none_hash sha256 hash_block_size num_toks r start_token_idx cur_mm_idx prev new_hashes =
     (if start_token_idx + hash_block_size > num_toks then Some (Inr (new_hashes, r))
      else case generate_block_hash_extra_keys sha256 r start_token_idx (start_token_idx + hash_block_size) cur_mm_idx of
             Inl e \<Rightarrow> Some (Inl e)
           | Inr res \<Rightarrow>
               (let h = hash_block_tokens H none_hash prev
                          (py_slice (all_token_ids r) start_token_idx (start_token_idx + hash_block_size))
                          (fst (fst res))
                in hasher_loop H none_hash sha256 hash_block_size num_toks (snd res)
                     (start_token_idx + hash_block_size) (snd (fst res)) (Some h) (new_hashes @ [h])))"

definition request_block_hasher ::
  "(hash_input \<Rightarrow> bytes) \<Rightarrow> bytes \<Rightarrow> (bytes \<Rightarrow> bytes) \<Rightarrow> int \<Rightarrow> block_hasher" where
  "request_block_hasher H none_hash sha256 hash_block_size r =
     (let start_token_idx = int (length (block_hashes r)) * hash_block_size
      in if start_token_idx + hash_block_size > num_tokens r then Some (Inr ([], r))
         else hasher_loop H none_hash sha256 hash_block_size (num_tokens r) r start_token_idx
                (if start_token_idx > 0 then -1 else 0)
                (if block_hashes r \<noteq> [] then Some (last (block_hashes r)) else None) [])"

section \<open>Coarser views of a hash list\<close>

datatype block_hash_list =
    Raw_hashes "bytes list"
  | Hash_view "bytes list" int

definition new_hash_view :: "bytes list \<Rightarrow> int \<Rightarrow> int \<Rightarrow> block_hash_list result" where
  "new_hash_view hs hash_block_size target_block_size =
     py_assert (target_block_size mod hash_block_size = 0)
       (Inr (Hash_view hs (target_block_size div hash_block_size)))"

fun view_len :: "block_hash_list \<Rightarrow> int" where
  "view_len (Raw_hashes hs) = int (length hs)"
| "view_len (Hash_view hs scale_factor) = int (length hs) div scale_factor"

fun view_get :: "block_hash_list \<Rightarrow> int \<Rightarrow> bytes result" where
  "view_get (Raw_hashes hs) idx = py_nth hs idx"
| "view_get (Hash_view hs scale_factor) idx = py_nth hs ((idx + 1) * scale_factor - 1)"

definition rmap :: "('a \<Rightarrow> 'b result) \<Rightarrow> 'a list \<Rightarrow> 'b list result" where
  "rmap f xs = rfold (\<lambda>x acc. rbind (f x) (\<lambda>y. Inr (acc @ [y]))) xs []"

text \<open>\<^verbatim>\<open>__getitem__\<close> with a slice of step 1, and \<^verbatim>\<open>__iter__\<close>.\<close>

definition view_slice :: "block_hash_list \<Rightarrow> int \<Rightarrow> int \<Rightarrow> bytes list result" where
  "view_slice v start stop =
     (case v of
        Raw_hashes hs \<Rightarrow> Inr (py_slice hs start stop)
      | Hash_view hs k \<Rightarrow>
          (let n = nat (view_len v)
           in rmap (\<lambda>i. view_get v (int i)) [slice_bound n start..<slice_bound n stop]))"

definition view_iter :: "block_hash_list \<Rightarrow> bytes list result" where
  "view_iter v =
     (case v of
        Raw_hashes hs \<Rightarrow> Inr hs
      | Hash_view hs k \<Rightarrow> rmap (\<lambda>i. view_get v (int i)) [0..<nat (view_len v)])"

definition resolve_block_hashes ::
  "block_hash_list \<Rightarrow> int \<Rightarrow> int \<Rightarrow> bool \<Rightarrow> int option \<Rightarrow> block_hash_list result" where
  "resolve_block_hashes hashes hash_block_size block_size fine_grained alignment_tokens =
     (if block_size = hash_block_size then Inr hashes
      else case hashes of
             Hash_view hs scale_factor \<Rightarrow>
               py_assert (scale_factor = block_size div hash_block_size) (Inr hashes)
           | Raw_hashes hs \<Rightarrow>
               if fine_grained \<and>
                  (case alignment_tokens of
                     None \<Rightarrow> False
                   | Some a \<Rightarrow> a < block_size \<and> block_size mod a = 0)
               then Inr hashes
               else py_assert (block_size mod hash_block_size = 0)
                      (new_hash_view hs hash_block_size block_size))"

section \<open>Keys: lemmas\<close>

lemma length_to_bytes_be4: "to_bytes_be4 n = Inr g \<Longrightarrow> length g = 4"
  by (auto simp: to_bytes_be4_def split: if_splits)

lemma from_bytes_be4:
  assumes "to_bytes_be4 n = Inr g"
  shows "from_bytes_be g = n"
proof -
  have n: "0 \<le> n" "n < 4294967296"
    and g: "g = [word_of_int (n div 16777216), word_of_int (n div 65536), word_of_int (n div 256), word_of_int n]"
    using assms by (auto simp: to_bytes_be4_def split: if_splits)
  have d: "n div 65536 = n div 256 div 256" "n div 16777216 = n div 256 div 256 div 256"
    by (simp_all add: div_mult2_eq[symmetric])
  have top: "n div 256 div 256 div 256 mod 256 = n div 256 div 256 div 256"
    using n by (intro mod_pos_pos_trivial) (simp_all add: div_mult2_eq[symmetric])
  have "from_bytes_be g = (((n div 256 div 256 div 256 mod 256) * 256 + n div 256 div 256 mod 256) * 256
          + n div 256 mod 256) * 256 + n mod 256"
    unfolding g from_bytes_be_def d by (simp add: uint_word_of_int take_bit_eq_mod)
  also have "\<dots> = n"
    unfolding top by simp
  finally show ?thesis .
qed

text \<open>
  C11: Packing a block hash with its KV-cache group id loses nothing.  The key of a group id that
  fits in 32 bits gives both components back, so two keys are equal only for the same block hash
  and the same group, and a group id outside the range is refused with an overflow error.
\<close>

theorem group_key_round_trip:
  "(case make_block_hash_with_group_id h g of
      Inr key \<Rightarrow> 0 \<le> g \<and> g < 2 ^ 32 \<and> get_block_hash key = h \<and> get_group_id key = g
    | Inl e \<Rightarrow> e = OverflowError \<and> (g < 0 \<or> g \<ge> 2 ^ 32))"
proof (cases "to_bytes_be4 g")
  case (Inl e)
  then show ?thesis
    by (auto simp: make_block_hash_with_group_id_def to_bytes_be4_def split: if_splits)
next
  case (Inr b)
  note len = length_to_bytes_be4[OF Inr]
  have "get_block_hash (h @ b) = h" and "get_group_id (h @ b) = g"
    using len from_bytes_be4[OF Inr]
    by (simp_all add: get_block_hash_def get_group_id_def py_take_def py_drop_def slice_bound_def)
  moreover have "0 \<le> g" "g < 2 ^ 32"
    using Inr by (auto simp: to_bytes_be4_def split: if_splits)
  ultimately show ?thesis
    using Inr by (simp add: make_block_hash_with_group_id_def)
qed

lemma make_key_inj:
  assumes "make_block_hash_with_group_id h g = Inr k" and "make_block_hash_with_group_id h' g' = Inr k"
  shows "h = h' \<and> g = g'"
proof -
  obtain b b' where b: "to_bytes_be4 g = Inr b" "k = h @ b" and b': "to_bytes_be4 g' = Inr b'" "k = h' @ b'"
    using assms by (auto simp: make_block_hash_with_group_id_def elim!: rbindE)
  then have "h = h' \<and> b = b'"
    using length_to_bytes_be4 by (metis append_eq_append_conv)
  then show ?thesis
    using from_bytes_be4 b(1) b'(1) by blast
qed

lemma rmap_Nil [simp]: "rmap f [] = Inr []"
  by (simp add: rmap_def)

lemma rmap_acc:
  "rfold (\<lambda>x acc. rbind (f x) (\<lambda>y. Inr (acc @ [y]))) xs acc = rbind (rmap f xs) (\<lambda>ys. Inr (acc @ ys))"
proof (induction xs arbitrary: acc)
  case Nil
  show ?case by simp
next
  case (Cons x xs)
  show ?case
  proof (cases "f x")
    case (Inl e)
    then show ?thesis by (simp add: rmap_def)
  next
    case (Inr y)
    then show ?thesis
      using Cons.IH[of "acc @ [y]"] Cons.IH[of "[y]"] by (simp add: rmap_def rbind_assoc)
  qed
qed

lemma rmap_Cons [simp]: "rmap f (x # xs) = rbind (f x) (\<lambda>y. rbind (rmap f xs) (\<lambda>ys. Inr (y # ys)))"
proof (cases "f x")
  case (Inl e)
  then show ?thesis by (simp add: rmap_def)
next
  case (Inr y)
  have "rmap f (x # xs) = rfold (\<lambda>x acc. rbind (f x) (\<lambda>y. Inr (acc @ [y]))) xs [y]"
    unfolding rmap_def by (simp add: Inr)
  then show ?thesis
    unfolding rmap_acc by (simp add: Inr)
qed

lemma rmap_total: "(\<And>x. x \<in> set xs \<Longrightarrow> f x = Inr (g x)) \<Longrightarrow> rmap f xs = Inr (map g xs)"
  by (induction xs) simp_all

lemma rmap_Inr_nth:
  "rmap f xs = Inr ys \<Longrightarrow> length ys = length xs \<and> (\<forall>i < length xs. f (xs ! i) = Inr (ys ! i))"
proof (induction xs arbitrary: ys)
  case Nil
  then show ?case by simp
next
  case (Cons x xs)
  then obtain y zs where "f x = Inr y" "rmap f xs = Inr zs" "ys = y # zs"
    by (auto elim!: rbindE)
  then show ?case
    using Cons.IH by (auto simp: nth_Cons split: nat.splits)
qed

lemma view_slice_nth:
  assumes "view_slice v a (view_len v) = Inr hs" and "0 \<le> a" and "i < length hs"
  shows "view_get v (a + int i) = Inr (hs ! i)"
proof (cases v)
  case (Raw_hashes ks)
  then have hs: "hs = drop (nat a) ks"
    using assms(1,2) by (simp add: view_slice_def py_slice_nonneg)
  then have "nat a + i < length ks" "hs ! i = ks ! (nat a + i)"
    using assms(3) by auto
  moreover have "a + int i = int (nat a + i)" using assms(2) by simp
  ultimately show ?thesis
    unfolding Raw_hashes view_get.simps by (metis py_nth_nat)
next
  case (Hash_view ks k)
  let ?n = "nat (view_len v)"
  have "rmap (\<lambda>i. view_get v (int i)) [slice_bound ?n a..<slice_bound ?n (view_len v)] = Inr hs"
    using assms(1) by (simp add: view_slice_def Hash_view Let_def)
  from rmap_Inr_nth[OF this] assms(3)
  have "view_get v (int (slice_bound ?n a + i)) = Inr (hs ! i)" and "slice_bound ?n a + i < slice_bound ?n (view_len v)"
    by (auto simp: less_diff_conv)
  moreover have "slice_bound ?n a = nat a"
    using calculation(2) assms(2) by (auto simp: slice_bound_def split: if_splits)
  ultimately show ?thesis
    using assms(2) by simp
qed

lemma view_get_in_range:
  assumes "0 < k" and "i < length hs div k"
  shows "view_get (Hash_view hs (int k)) (int i) = Inr (hs ! (Suc i * k - 1))"
proof -
  have "Suc i * k \<le> length hs"
    using assms by (metis Suc_leI less_eq_div_iff_mult_less_eq)
  moreover have eq: "(int i + 1) * int k - 1 = int (Suc i * k - 1)"
    using assms by (simp add: of_nat_diff algebra_simps)
  moreover have "0 < Suc i * k"
    using assms(1) by simp
  ultimately show ?thesis
    unfolding view_get.simps eq by (intro py_nth_nat) linarith
qed

lemma view_iter_eq:
  assumes "0 < k"
  shows "view_iter (Hash_view hs (int k)) = Inr (map (\<lambda>i. hs ! (Suc i * k - 1)) [0..<length hs div k])"
proof -
  have n: "nat (view_len (Hash_view hs (int k))) = length hs div k"
    by (simp add: nat_div_distrib)
  show ?thesis
    unfolding view_iter_def block_hash_list.case n
    by (rule rmap_total) (use assms view_get_in_range in auto)
qed

text \<open>With enough hashes, the view at a block size has all the entries that are asked of it.\<close>

lemma resolved_view:
  assumes "0 < hbs" and "0 < bsz" and "bsz mod hbs = 0"
  obtains v where "resolve_block_hashes (Raw_hashes hs) hbs bsz False None = Inr v"
    and "view_len v = int (length hs) * hbs div bsz"
    and "\<And>i. 0 \<le> i \<Longrightarrow> i < view_len v \<Longrightarrow> view_get v i = Inr (hs ! (nat ((i + 1) * bsz div hbs) - 1))"
    and "\<And>a. 0 \<le> a \<Longrightarrow> a \<le> view_len v \<Longrightarrow>
      \<exists>ys. view_slice v a (view_len v) = Inr ys \<and> int (length ys) = view_len v - a"
proof (cases "bsz = hbs")
  case True
  have "nat ((i + 1) * bsz div hbs) - 1 = nat i" if "0 \<le> i" for i
    using True assms(1) that by simp
  then show ?thesis
    using True assms(1) by (intro that[of "Raw_hashes hs"])
      (simp_all add: resolve_block_hashes_def py_nth_ok view_slice_def py_slice_nonneg)
next
  case False
  obtain k where k: "bsz = hbs * int k" "1 < k"
  proof -
    have "hbs dvd bsz" using assms(3) by (simp add: dvd_eq_mod_eq_0)
    then obtain c where c: "bsz = hbs * c" by (rule dvdE)
    moreover have "1 < c"
    proof (rule ccontr)
      assume "\<not> 1 < c"
      then have "c \<le> 0 \<or> c = 1" by linarith
      then show False using False c assms(1,2) by (auto simp: zero_less_mult_iff)
    qed
    ultimately show ?thesis using that[of "nat c"] by simp
  qed
  let ?v = "Hash_view hs (int k)"
  have v: "resolve_block_hashes (Raw_hashes hs) hbs bsz False None = Inr ?v"
    using k assms(1) by (simp add: resolve_block_hashes_def new_hash_view_def)
  have len: "view_len ?v = int (length hs) * hbs div bsz"
    using k assms(1) by (simp add: mult.commute)
  have pos: "view_len ?v = int (length hs div k)"
    by (simp add: zdiv_int)
  have get: "view_get ?v i = Inr (hs ! (nat ((i + 1) * bsz div hbs) - 1))" if "0 \<le> i" "i < view_len ?v" for i
  proof -
    have "view_get ?v (int (nat i)) = Inr (hs ! (Suc (nat i) * k - 1))"
      using that k pos by (intro view_get_in_range) linarith+
    moreover have "(i + 1) * bsz div hbs = (i + 1) * int k"
      using k(1) assms(1) by simp
    moreover have "nat ((i + 1) * int k) = Suc (nat i) * k"
      using that by (simp add: nat_mult_distrib Suc_nat_eq_nat_zadd1 add.commute)
    ultimately show ?thesis using that by simp
  qed
  have slice: "\<exists>ys. view_slice ?v a (view_len ?v) = Inr ys \<and> int (length ys) = view_len ?v - a"
    if "0 \<le> a" "a \<le> view_len ?v" for a
  proof -
    have b: "slice_bound (nat (view_len ?v)) a = nat a" "slice_bound (nat (view_len ?v)) (view_len ?v) = nat (view_len ?v)"
      using that by (auto simp: slice_bound_def)
    have "rmap (\<lambda>i. view_get ?v (int i)) [nat a..<nat (view_len ?v)] =
        Inr (map (\<lambda>i. hs ! (nat ((int i + 1) * bsz div hbs) - 1)) [nat a..<nat (view_len ?v)])"
      by (rule rmap_total, rule get) auto
    then show ?thesis
      using that unfolding view_slice_def block_hash_list.case Let_def b by simp
  qed
  show ?thesis by (rule that[OF v len get slice])
qed

section \<open>Extra keys: reference and lemmas\<close>

definition overlaps :: "int \<Rightarrow> int \<Rightarrow> mm_feature \<Rightarrow> bool" where
  "overlaps s e f \<longleftrightarrow> mm_start f < e \<and> s < mm_end f"

definition mm_key :: "int \<Rightarrow> mm_feature \<Rightarrow> extra_key" where
  "mm_key s f = Key_mm (mm_identifier f) (mm_start f - s)"

text \<open>Placeholders in prompt order that do not run into each other.\<close>

definition mm_sorted :: "mm_feature list \<Rightarrow> bool" where
  "mm_sorted fs \<longleftrightarrow>
     sorted_wrt (\<lambda>f g. mm_end f \<le> mm_start g) fs \<and> (\<forall>f\<in>set fs. mm_start f \<le> mm_end f)"

text \<open>The reference for the extra keys of a block: every multi-modal input that reaches into it.\<close>

definition extra_keys_at :: "(bytes \<Rightarrow> bytes) \<Rightarrow> request \<Rightarrow> int \<Rightarrow> int \<Rightarrow> extra_key list option" where
  "extra_keys_at sha256 r s e =
     (let ks = map Key_str (gen_lora_extra_hash_keys r)
               @ map (mm_key s) (filter (overlaps s e) (mm_features r))
               @ (case cache_salt r of
                    Some salt \<Rightarrow> if s = 0 \<and> salt \<noteq> [] then [Key_str salt] else []
                  | None \<Rightarrow> [])
               @ (case prompt_embeds r of
                    None \<Rightarrow> []
                  | Some rows \<Rightarrow> [Key_bytes (sha256 (concat (py_slice rows s e)))])
      in if ks = [] then None else Some ks)"

definition memo_ok :: "(bytes \<Rightarrow> bytes) \<Rightarrow> request \<Rightarrow> bool" where
  "memo_ok sha256 r \<longleftrightarrow>
     (\<forall>s e h rows. prompt_embeds_per_block_hashes r (s, e) = Some h \<longrightarrow> prompt_embeds r = Some rows \<longrightarrow>
        h = sha256 (concat (py_slice rows s e)))"

text \<open>The feature position carried from block to block: everything before it ends by \<open>s\<close>.\<close>

definition mm_pos_ok :: "mm_feature list \<Rightarrow> int \<Rightarrow> int \<Rightarrow> bool" where
  "mm_pos_ok fs idx s \<longleftrightarrow>
     fs = [] \<or> (- int (length fs) \<le> idx \<and> idx \<le> int (length fs) \<and>
       (\<forall>f\<in>set (take (nat (if idx < 0 then int (length fs) + idx else idx)) fs). mm_end f \<le> s))"

lemma mm_sorted_Cons:
  "mm_sorted (f # fs) \<longleftrightarrow>
     mm_start f \<le> mm_end f \<and> (\<forall>g\<in>set fs. mm_end f \<le> mm_start g) \<and> mm_sorted fs"
  by (auto simp: mm_sorted_def)

lemma mm_sorted_drop: "mm_sorted fs \<Longrightarrow> mm_sorted (drop n fs)"
  by (auto simp: mm_sorted_def sorted_wrt_drop dest: in_set_dropD)

lemma mm_sorted_ends_le_last:
  "mm_sorted fs \<Longrightarrow> f \<in> set fs \<Longrightarrow> mm_end f \<le> mm_end (last fs)"
proof (induction fs)
  case (Cons g fs)
  show ?case
  proof (cases "fs = []")
    case True
    then show ?thesis using Cons.prems by simp
  next
    case False
    then have "last fs \<in> set fs" by simp
    then have "mm_end g \<le> mm_start (last fs)" "mm_start (last fs) \<le> mm_end (last fs)"
      using Cons.prems by (auto simp: mm_sorted_Cons mm_sorted_def)
    then have "mm_end g \<le> mm_end (last fs)" by linarith
    then show ?thesis
      using Cons False by (cases "f = g") (simp_all add: mm_sorted_Cons)
  qed
qed simp

lemma filter_overlaps_none:
  "(\<And>f. f \<in> set fs \<Longrightarrow> e \<le> mm_start f) \<Longrightarrow> filter (overlaps s e) fs = []"
  "(\<And>f. f \<in> set fs \<Longrightarrow> mm_end f \<le> s) \<Longrightarrow> filter (overlaps s e) fs = []"
  by (force simp: filter_empty_conv overlaps_def)+

lemma mm_keys_loop_spec:
  assumes "mm_sorted fs" and "s \<le> e"
  shows "\<exists>k \<le> length fs.
    mm_keys_loop fs s e i acc = (acc @ map (mm_key s) (filter (overlaps s e) fs), i + int k) \<and>
    (\<forall>f\<in>set (take k fs). mm_end f \<le> e)"
  using assms(1)
proof (induction fs arbitrary: i acc)
  case Nil
  show ?case by simp
next
  case (Cons f fs)
  have later: "\<And>g. g \<in> set fs \<Longrightarrow> mm_end f \<le> mm_start g" and pos: "mm_start f \<le> mm_end f"
    and sorted: "mm_sorted fs"
    using Cons.prems by (auto simp: mm_sorted_Cons)
  consider (before) "e \<le> mm_start f" | (passed) "mm_start f < e" "mm_end f \<le> s"
    | (inside) "mm_start f < e" "s < mm_end f" "mm_end f \<le> e" | (cut) "mm_start f < e" "s < mm_end f" "e < mm_end f"
    by linarith
  then show ?case
  proof cases
    case before
    then have "filter (overlaps s e) (f # fs) = []"
      using later pos by (intro filter_overlaps_none(1)) force
    with before show ?thesis by (intro exI[of _ 0]) simp
  next
    case passed
    obtain k where "k \<le> length fs"
      "mm_keys_loop fs s e (i + 1) acc = (acc @ map (mm_key s) (filter (overlaps s e) fs), i + 1 + int k)"
      "\<forall>f\<in>set (take k fs). mm_end f \<le> e"
      using Cons.IH[OF sorted] by blast
    moreover have "\<not> overlaps s e f"
      using passed by (simp add: overlaps_def)
    ultimately show ?thesis
      using passed assms(2) by (intro exI[of _ "Suc k"]) auto
  next
    case inside
    obtain k where "k \<le> length fs"
      "mm_keys_loop fs s e (i + 1) (acc @ [mm_key s f]) =
         ((acc @ [mm_key s f]) @ map (mm_key s) (filter (overlaps s e) fs), i + 1 + int k)"
      "\<forall>f\<in>set (take k fs). mm_end f \<le> e"
      using Cons.IH[OF sorted] by blast
    moreover have "overlaps s e f" "Key_mm (mm_identifier f) (mm_start f - s) = mm_key s f"
      using inside by (simp_all add: overlaps_def mm_key_def)
    ultimately show ?thesis
      using inside by (intro exI[of _ "Suc k"]) auto
  next
    case cut
    then have "filter (overlaps s e) fs = []"
      using later by (intro filter_overlaps_none(1)) force
    moreover have "overlaps s e f" "Key_mm (mm_identifier f) (mm_start f - s) = mm_key s f"
      using cut by (simp_all add: overlaps_def mm_key_def)
    ultimately show ?thesis
      using cut by (intro exI[of _ 0]) simp
  qed
qed

lemma mm_keys_from:
  assumes "mm_sorted fs" and "s \<le> e" and "0 \<le> i" and "\<forall>f\<in>set (take (nat i) fs). mm_end f \<le> s"
    and "i \<le> int (length fs)"
  shows "\<exists>i'. mm_keys_loop (drop (nat i) fs) s e i [] = (map (mm_key s) (filter (overlaps s e) fs), i') \<and>
    mm_pos_ok fs i' e"
proof -
  obtain k where k: "k \<le> length (drop (nat i) fs)"
    "mm_keys_loop (drop (nat i) fs) s e i [] =
       ([] @ map (mm_key s) (filter (overlaps s e) (drop (nat i) fs)), i + int k)"
    "\<forall>f\<in>set (take k (drop (nat i) fs)). mm_end f \<le> e"
    using mm_keys_loop_spec[OF mm_sorted_drop[OF assms(1)] assms(2)] by blast
  have "filter (overlaps s e) fs =
      filter (overlaps s e) (take (nat i) fs) @ filter (overlaps s e) (drop (nat i) fs)"
    by (metis append_take_drop_id filter_append)
  also have "filter (overlaps s e) (take (nat i) fs) = []"
    using assms(4) by (intro filter_overlaps_none(2)) blast
  finally have eq: "filter (overlaps s e) (drop (nat i) fs) = filter (overlaps s e) fs" by simp
  have "take (nat (i + int k)) fs = take (nat i) fs @ take k (drop (nat i) fs)"
    using assms(3) by (simp add: nat_add_distrib take_add)
  then have "mm_pos_ok fs (i + int k) e"
    using k(1,3) assms(2-5) by (auto simp: mm_pos_ok_def)
  with k(2) eq show ?thesis by auto
qed

lemma gen_mm_extra_hash_keys_spec:
  assumes "mm_sorted (mm_features r)" and "s \<le> e" and "mm_pos_ok (mm_features r) idx s"
  shows "\<exists>idx'. gen_mm_extra_hash_keys r s e idx =
      Inr (map (mm_key s) (filter (overlaps s e) (mm_features r)), idx') \<and>
    mm_pos_ok (mm_features r) idx' e"
proof -
  let ?fs = "mm_features r" and ?i = "if idx < 0 then int (length (mm_features r)) + idx else idx"
  consider (empty) "?fs = []" | (early) "?fs \<noteq> []" "mm_end (last ?fs) \<le> s"
    | (loop) "?fs \<noteq> []" "s < mm_end (last ?fs)"
    by linarith
  then show ?thesis
  proof cases
    case empty
    then show ?thesis by (simp add: gen_mm_extra_hash_keys_def mm_pos_ok_def)
  next
    case early
    then have "filter (overlaps s e) ?fs = []"
      using mm_sorted_ends_le_last[OF assms(1)] by (intro filter_overlaps_none(2)) force
    moreover have "mm_pos_ok ?fs idx e"
      using assms(2,3) by (force simp: mm_pos_ok_def)
    ultimately show ?thesis
      using early by (simp add: gen_mm_extra_hash_keys_def)
  next
    case loop
    have i: "0 \<le> ?i" "?i \<le> int (length ?fs)" "\<forall>f\<in>set (take (nat ?i) ?fs). mm_end f \<le> s"
      using assms(3) loop by (auto simp: mm_pos_ok_def)
    obtain i' where "mm_keys_loop (drop (nat ?i) ?fs) s e ?i [] =
        (map (mm_key s) (filter (overlaps s e) ?fs), i')" and "mm_pos_ok ?fs i' e"
      using mm_keys_from[OF assms(1,2) i(1,3,2)] by blast
    moreover have "- idx \<le> int (length ?fs)"
      using assms(3) loop by (auto simp: mm_pos_ok_def)
    ultimately show ?thesis
      using loop by (cases "idx < 0") (simp_all add: gen_mm_extra_hash_keys_def)
  qed
qed

lemma extra_keys_at_memo [simp]:
  "extra_keys_at sha256 (r\<lparr>prompt_embeds_per_block_hashes := m\<rparr>) s e = extra_keys_at sha256 r s e"
  by (simp add: extra_keys_at_def gen_lora_extra_hash_keys_def)

lemma gen_prompt_embeds_spec:
  assumes "memo_ok sha256 r"
  shows "\<exists>m. gen_prompt_embeds_extra_hash_keys sha256 r s e =
      ((case prompt_embeds r of None \<Rightarrow> [] | Some rows \<Rightarrow> [sha256 (concat (py_slice rows s e))]),
       r\<lparr>prompt_embeds_per_block_hashes := m\<rparr>) \<and>
    memo_ok sha256 (r\<lparr>prompt_embeds_per_block_hashes := m\<rparr>)"
proof (cases "prompt_embeds r")
  case None
  then show ?thesis
    using assms by (intro exI[of _ "prompt_embeds_per_block_hashes r"])
      (simp add: gen_prompt_embeds_extra_hash_keys_def memo_ok_def)
next
  case (Some rows)
  show ?thesis
  proof (cases "prompt_embeds_per_block_hashes r (s, e)")
    case None
    then show ?thesis
      using Some assms
      by (intro exI[of _ "(prompt_embeds_per_block_hashes r)((s, e) := Some (sha256 (concat (py_slice rows s e))))"])
        (simp add: gen_prompt_embeds_extra_hash_keys_def memo_ok_def Let_def)
  next
    case (Some h)
    then show ?thesis
      using \<open>prompt_embeds r = Some rows\<close> assms
      by (intro exI[of _ "prompt_embeds_per_block_hashes r"])
        (simp add: gen_prompt_embeds_extra_hash_keys_def memo_ok_def)
  qed
qed

lemma generate_block_hash_extra_keys_spec:
  assumes "mm_sorted (mm_features r)" and "s \<le> e" and "mm_pos_ok (mm_features r) idx s"
    and "memo_ok sha256 r"
  shows "\<exists>idx' m. generate_block_hash_extra_keys sha256 r s e idx =
      Inr ((extra_keys_at sha256 r s e, idx'), r\<lparr>prompt_embeds_per_block_hashes := m\<rparr>) \<and>
    mm_pos_ok (mm_features r) idx' e \<and> memo_ok sha256 (r\<lparr>prompt_embeds_per_block_hashes := m\<rparr>)"
proof -
  obtain idx' where mm: "gen_mm_extra_hash_keys r s e idx =
      Inr (map (mm_key s) (filter (overlaps s e) (mm_features r)), idx')"
    and pos: "mm_pos_ok (mm_features r) idx' e"
    using gen_mm_extra_hash_keys_spec[OF assms(1-3)] by blast
  obtain m where pe: "gen_prompt_embeds_extra_hash_keys sha256 r s e =
      ((case prompt_embeds r of None \<Rightarrow> [] | Some rows \<Rightarrow> [sha256 (concat (py_slice rows s e))]),
       r\<lparr>prompt_embeds_per_block_hashes := m\<rparr>)"
    and memo: "memo_ok sha256 (r\<lparr>prompt_embeds_per_block_hashes := m\<rparr>)"
    using gen_prompt_embeds_spec[OF assms(4)] by blast
  have "generate_block_hash_extra_keys sha256 r s e idx =
      Inr ((extra_keys_at sha256 r s e, idx'), r\<lparr>prompt_embeds_per_block_hashes := m\<rparr>)"
    by (cases "prompt_embeds r")
      (simp_all add: generate_block_hash_extra_keys_def extra_keys_at_def mm pe Let_def)
  with pos memo show ?thesis by blast
qed

lemma generate_extra_keys_memo:
  assumes "generate_block_hash_extra_keys sha256 r s e idx = Inr (x, r')"
  shows "\<exists>m. r' = r\<lparr>prompt_embeds_per_block_hashes := m\<rparr>"
proof -
  have "r' = snd (gen_prompt_embeds_extra_hash_keys sha256 r s e)"
    using assms by (auto simp: generate_block_hash_extra_keys_def Let_def split: prod.splits elim!: rbindE)
  moreover have "\<exists>m. snd (gen_prompt_embeds_extra_hash_keys sha256 r s e) = r\<lparr>prompt_embeds_per_block_hashes := m\<rparr>"
  proof (cases "prompt_embeds r = None \<or> prompt_embeds_per_block_hashes r (s, e) \<noteq> None")
    case True
    then show ?thesis
      by (intro exI[of _ "prompt_embeds_per_block_hashes r"])
        (auto simp: gen_prompt_embeds_extra_hash_keys_def split: option.splits)
  next
    case False
    then show ?thesis
      by (auto simp: gen_prompt_embeds_extra_hash_keys_def Let_def)
  qed
  ultimately show ?thesis by simp
qed

section \<open>The hasher computes the chained prefix hashes\<close>

text \<open>
  The reference: the hash of the first \<open>Suc i\<close> blocks chains block \<open>i\<close>, with its tokens and extra
  keys, to the hash of the first \<open>i\<close> blocks.
\<close>

primrec prefix_hash ::
  "(hash_input \<Rightarrow> bytes) \<Rightarrow> bytes \<Rightarrow> (bytes \<Rightarrow> bytes) \<Rightarrow> int \<Rightarrow> request \<Rightarrow> nat \<Rightarrow> bytes option" where
  "prefix_hash H none_hash sha256 hbs r 0 = None"
| "prefix_hash H none_hash sha256 hbs r (Suc i) =
     Some (hash_block_tokens H none_hash (prefix_hash H none_hash sha256 hbs r i)
             (py_slice (all_token_ids r) (int i * hbs) (int i * hbs + hbs))
             (extra_keys_at sha256 r (int i * hbs) (int i * hbs + hbs)))"

definition prefix_hashes ::
  "(hash_input \<Rightarrow> bytes) \<Rightarrow> bytes \<Rightarrow> (bytes \<Rightarrow> bytes) \<Rightarrow> int \<Rightarrow> request \<Rightarrow> nat \<Rightarrow> bytes list" where
  "prefix_hashes H none_hash sha256 hbs r n =
     map (\<lambda>i. the (prefix_hash H none_hash sha256 hbs r (Suc i))) [0..<n]"

definition full_blocks :: "int \<Rightarrow> request \<Rightarrow> nat" where
  "full_blocks hbs r = nat (num_tokens r div hbs)"

lemma prefix_hash_memo [simp]:
  "prefix_hash H none_hash sha256 hbs (r\<lparr>prompt_embeds_per_block_hashes := m\<rparr>) i =
   prefix_hash H none_hash sha256 hbs r i"
  by (induction i) simp_all

lemma num_tokens_memo [simp]: "num_tokens (r\<lparr>prompt_embeds_per_block_hashes := m\<rparr>) = num_tokens r"
  by (simp add: num_tokens_def)

lemma full_block_iff:
  assumes "0 < hbs"
  shows "int i * hbs + hbs \<le> num_tokens r \<longleftrightarrow> i < full_blocks hbs r"
proof -
  have "int i * hbs + hbs \<le> num_tokens r \<longleftrightarrow> (int i + 1) * hbs \<le> num_tokens r"
    by (simp add: algebra_simps)
  also have "\<dots> \<longleftrightarrow> int i + 1 \<le> num_tokens r div hbs"
    using le_div_iff_int[OF assms] by blast
  also have "\<dots> \<longleftrightarrow> i < full_blocks hbs r"
    by (auto simp: full_blocks_def)
  finally show ?thesis .
qed

lemma hasher_loop_spec:
  assumes "0 < hbs" and "mm_sorted (mm_features r)" and "memo_ok sha256 r"
    and "mm_pos_ok (mm_features r) idx (int i * hbs)" and "i \<le> full_blocks hbs r"
  shows "\<exists>m. hasher_loop H none_hash sha256 hbs (num_tokens r) r (int i * hbs) idx
      (prefix_hash H none_hash sha256 hbs r i) acc =
    Some (Inr (acc @ map (\<lambda>j. the (prefix_hash H none_hash sha256 hbs r (Suc j))) [i..<full_blocks hbs r],
               r\<lparr>prompt_embeds_per_block_hashes := m\<rparr>)) \<and>
    memo_ok sha256 (r\<lparr>prompt_embeds_per_block_hashes := m\<rparr>)"
  using assms(2-)
proof (induction "full_blocks hbs r - i" arbitrary: i r idx acc)
  case 0
  then have "\<not> int i * hbs + hbs \<le> num_tokens r"
    using full_block_iff[OF assms(1)] by simp
  then show ?case
    using 0 by (subst hasher_loop.simps) (intro exI[of _ "prompt_embeds_per_block_hashes r"], simp)
next
  case (Suc d)
  let ?s = "int i * hbs" and ?e = "int i * hbs + hbs"
  have i: "i < full_blocks hbs r" and le: "?s \<le> ?e"
    using Suc.hyps(2) assms(1) by auto
  obtain idx' m where gen: "generate_block_hash_extra_keys sha256 r ?s ?e idx =
      Inr ((extra_keys_at sha256 r ?s ?e, idx'), r\<lparr>prompt_embeds_per_block_hashes := m\<rparr>)"
    and pos: "mm_pos_ok (mm_features r) idx' ?e" and memo: "memo_ok sha256 (r\<lparr>prompt_embeds_per_block_hashes := m\<rparr>)"
    using generate_block_hash_extra_keys_spec[OF Suc.prems(1) le Suc.prems(3,2)] by blast
  let ?r = "r\<lparr>prompt_embeds_per_block_hashes := m\<rparr>"
  have fb: "full_blocks hbs ?r = full_blocks hbs r"
    by (simp add: full_blocks_def)
  have e: "int (Suc i) * hbs = ?e"
    by (simp add: algebra_simps)
  have hyp: "d = full_blocks hbs ?r - Suc i"
    using Suc.hyps(2) by (simp add: fb)
  have prem: "mm_sorted (mm_features ?r)" "mm_pos_ok (mm_features ?r) idx' (int (Suc i) * hbs)"
    "Suc i \<le> full_blocks hbs ?r"
    using Suc.prems pos i unfolding fb e by simp_all
  obtain m' where "hasher_loop H none_hash sha256 hbs (num_tokens ?r) ?r (int (Suc i) * hbs) idx'
        (prefix_hash H none_hash sha256 hbs ?r (Suc i)) (acc @ [the (prefix_hash H none_hash sha256 hbs r (Suc i))]) =
      Some (Inr ((acc @ [the (prefix_hash H none_hash sha256 hbs r (Suc i))]) @
        map (\<lambda>j. the (prefix_hash H none_hash sha256 hbs ?r (Suc j))) [Suc i..<full_blocks hbs ?r],
        ?r\<lparr>prompt_embeds_per_block_hashes := m'\<rparr>)) \<and> memo_ok sha256 (?r\<lparr>prompt_embeds_per_block_hashes := m'\<rparr>)"
    using Suc.hyps(1)[OF hyp prem(1) memo prem(2,3)] by blast
  note rest = this[unfolded e]
  have "\<not> ?e > num_tokens r"
    using i full_block_iff[OF assms(1)] by (simp add: not_less)
  with rest i show ?case
    by (subst hasher_loop.simps, intro exI[of _ m']) (simp add: gen fb Let_def upt_conv_Cons)
qed

text \<open>The features that a call of the hasher after the first one may ignore.\<close>

definition mm_settled :: "int \<Rightarrow> request \<Rightarrow> nat \<Rightarrow> bool" where
  "mm_settled hbs r k \<longleftrightarrow> k = 0 \<or> (\<forall>f\<in>set (butlast (mm_features r)). mm_end f \<le> int k * hbs)"

lemma request_block_hasher_spec:
  assumes "0 < hbs" and "mm_sorted (mm_features r)" and "memo_ok sha256 r"
    and hashed: "block_hashes r = prefix_hashes H none_hash sha256 hbs r k" and "k \<le> full_blocks hbs r"
    and settled: "mm_settled hbs r k"
  shows "\<exists>m. request_block_hasher H none_hash sha256 hbs r =
    Some (Inr (map (\<lambda>j. the (prefix_hash H none_hash sha256 hbs r (Suc j))) [k..<full_blocks hbs r],
               r\<lparr>prompt_embeds_per_block_hashes := m\<rparr>)) \<and>
    memo_ok sha256 (r\<lparr>prompt_embeds_per_block_hashes := m\<rparr>)"
proof (cases "k < full_blocks hbs r")
  case False
  then have "int k * hbs + hbs > num_tokens r"
    using full_block_iff[OF assms(1), of k r] by simp
  then show ?thesis
    using False assms(3) hashed
    by (intro exI[of _ "prompt_embeds_per_block_hashes r"])
      (simp add: request_block_hasher_def prefix_hashes_def)
next
  case True
  let ?idx = "if int k * hbs > 0 then - 1 else (0::int)"
  have len: "length (block_hashes r) = k"
    by (simp add: hashed prefix_hashes_def)
  have start: "\<not> int k * hbs + hbs > num_tokens r"
    using True full_block_iff[OF assms(1), of k r] by simp
  have pos: "mm_pos_ok (mm_features r) ?idx (int k * hbs)"
  proof (cases k)
    case 0
    then show ?thesis by (simp add: mm_pos_ok_def)
  next
    case (Suc n)
    then have "0 < int k * hbs"
      using assms(1) by simp
    moreover have "take (nat (int (length (mm_features r)) - 1)) (mm_features r) = butlast (mm_features r)"
      by (cases "mm_features r") (simp_all add: butlast_conv_take)
    ultimately show ?thesis
      using settled Suc by (auto simp: mm_pos_ok_def mm_settled_def Suc_le_eq)
  qed
  have prev: "(if block_hashes r \<noteq> [] then Some (last (block_hashes r)) else None) =
      prefix_hash H none_hash sha256 hbs r k"
    unfolding hashed prefix_hashes_def by (cases k) (simp_all add: last_map)
  show ?thesis
    using hasher_loop_spec[OF assms(1-3) pos, of H none_hash "[]"] True start
    by (simp only: request_block_hasher_def Let_def len prev) simp
qed

text \<open>A request all of whose full blocks are hashed.\<close>

definition hashed ::
  "(hash_input \<Rightarrow> bytes) \<Rightarrow> bytes \<Rightarrow> (bytes \<Rightarrow> bytes) \<Rightarrow> int \<Rightarrow> request \<Rightarrow> bool" where
  "hashed H none_hash sha256 hbs r \<longleftrightarrow>
     block_hashes r = prefix_hashes H none_hash sha256 hbs r (full_blocks hbs r)"

lemma prefix_hashes_extend:
  assumes "k \<le> n"
  shows "prefix_hashes H none_hash sha256 hbs r k @
      map (\<lambda>j. the (prefix_hash H none_hash sha256 hbs r (Suc j))) [k..<n] =
    prefix_hashes H none_hash sha256 hbs r n"
proof -
  have "[0..<n] = [0..<k] @ [k..<n]"
    using assms by (metis le_add_diff_inverse upt_add_eq_append zero_le)
  then show ?thesis by (simp add: prefix_hashes_def)
qed

lemma update_block_hashes_spec:
  assumes "0 < hbs" and "mm_sorted (mm_features r)" and "memo_ok sha256 r"
    and "block_hashes r = prefix_hashes H none_hash sha256 hbs r k" and "k \<le> full_blocks hbs r"
    and "mm_settled hbs r k"
  shows "\<exists>m. update_block_hashes (Some (request_block_hasher H none_hash sha256 hbs)) r =
    Some (Inr (r\<lparr>prompt_embeds_per_block_hashes := m,
                 block_hashes := prefix_hashes H none_hash sha256 hbs r (full_blocks hbs r)\<rparr>)) \<and>
    memo_ok sha256 (r\<lparr>prompt_embeds_per_block_hashes := m\<rparr>)"
  using request_block_hasher_spec[OF assms] prefix_hashes_extend[OF assms(5)] assms(4)
  by (auto simp: update_block_hashes_def)

lemma prefix_hash_cong:
  assumes "\<And>j. j < i \<Longrightarrow> py_slice (all_token_ids r') (int j * hbs) (int j * hbs + hbs) =
      py_slice (all_token_ids r) (int j * hbs) (int j * hbs + hbs)"
    and "\<And>s e. extra_keys_at sha256 r' s e = extra_keys_at sha256 r s e"
  shows "prefix_hash H none_hash sha256 hbs r' i = prefix_hash H none_hash sha256 hbs r i"
  using assms(1) by (induction i) (simp_all add: assms(2))






text \<open>A hash function for concrete inputs: it writes the tokens and the parent out.\<close>

definition toy_hash :: "hash_input \<Rightarrow> bytes" where
  "toy_hash x = (case x of (parent, toks, keys) \<Rightarrow> map word_of_int toks @ parent)"


text \<open>
  C9: Creating a request hashes its prompt.  Whatever the arguments, the constructor returns; when it
  raises, the request has neither sampling nor pooling parameters, no token limit, or prompt token ids
  and embeddings that are missing or of different lengths; otherwise the new request has as many
  tokens as its prompt is long, no output, and the chained hash of every full block of the prompt.
\<close>

theorem creation_hashes_prompt:
  assumes "0 < hbs" and "mm_sorted (case er_mm_features er of Some fs \<Rightarrow> fs | None \<Rightarrow> [])"
  shows "case init_request now oid (Some (request_block_hasher H none_hash sha256 hbs)) er of
      None \<Rightarrow> False
    | Some (Inl e) \<Rightarrow>
        e = ValueError \<and> er_pooling_params er = None \<and> er_sampling_params er = None \<or>
        e = AssertionError \<and> er_pooling_params er = None \<and>
          (\<exists>p. er_sampling_params er = Some p \<and> sp_max_tokens p = None) \<or>
        e = ValueError \<and> (\<exists>ids rows. er_prompt_token_ids er = Some ids \<and> er_prompt_embeds er = Some rows \<and>
          length ids \<noteq> length rows) \<or>
        e = ValueError \<and> er_prompt_token_ids er = None \<and> er_prompt_embeds er = None
    | Some (Inr r) \<Rightarrow>
        length_from_prompt_token_ids_or_embeds (er_prompt_token_ids er) (er_prompt_embeds er) =
          Inr (num_prompt_tokens r) \<and>
        num_tokens r = num_prompt_tokens r \<and> output_token_ids r = [] \<and>
        block_hashes r = prefix_hashes H none_hash sha256 hbs r (nat (num_prompt_tokens r div hbs))"
proof -
  let ?so = "map_option (\<lambda>s. s\<lparr>reasoning_ended := er_reasoning_ended er\<rparr>) (from_sampling_params (er_sampling_params er))"
  let ?lims = "init_limits (er_pooling_params er) (er_sampling_params er) ?so"
  let ?len = "length_from_prompt_token_ids_or_embeds (er_prompt_token_ids er) (er_prompt_embeds er)"
  consider (lims) e where "?lims = Inl e" | (len) lims e where "?lims = Inr lims" "?len = Inl e"
    | (ok) lims n where "?lims = Inr lims" "?len = Inr n"
    by (cases ?lims; cases ?len) auto
  then show ?thesis
  proof cases
    case lims
    then show ?thesis
      by (auto simp: init_request_def init_limits_def Let_def split: option.splits)
  next
    case len
    then show ?thesis
      by (auto simp: init_request_def length_from_prompt_token_ids_or_embeds_def Let_def
          split: option.splits if_splits)
  next
    case ok
    let ?r = "fresh_request now oid er ?so lims n"
    have n: "num_tokens ?r = n"
      using length_prompt_eq[OF ok(2)] by (simp add: num_tokens_def)
    obtain m where m: "update_block_hashes (Some (request_block_hasher H none_hash sha256 hbs)) ?r =
        Some (Inr (?r\<lparr>prompt_embeds_per_block_hashes := m,
                   block_hashes := prefix_hashes H none_hash sha256 hbs ?r (full_blocks hbs ?r)\<rparr>))"
      using update_block_hashes_spec[OF assms(1), of ?r sha256 H none_hash 0] assms(2)
      by (auto simp: memo_ok_def prefix_hashes_def mm_settled_def)
    let ?r' = "?r\<lparr>prompt_embeds_per_block_hashes := m,
        block_hashes := prefix_hashes H none_hash sha256 hbs ?r (full_blocks hbs ?r)\<rparr>"
    let ?r'' = "?r'\<lparr>skip_reading_prefix_cache := get_skip_reading_prefix_cache ?r'\<rparr>"
    have "prefix_hash H none_hash sha256 hbs ?r'' i = prefix_hash H none_hash sha256 hbs ?r i" for i
      by (rule prefix_hash_cong) (simp_all add: extra_keys_at_def gen_lora_extra_hash_keys_def)
    then have "prefix_hashes H none_hash sha256 hbs ?r'' k = prefix_hashes H none_hash sha256 hbs ?r k" for k
      by (simp add: prefix_hashes_def del: prefix_hash.simps)
    moreover have "num_tokens ?r'' = num_tokens ?r"
      by (simp add: num_tokens_def)
    moreover have "init_request now oid (Some (request_block_hasher H none_hash sha256 hbs)) er = Some (Inr ?r'')"
      using ok m by (simp add: init_request_def Let_def)
    moreover have "num_prompt_tokens ?r'' = n" "output_token_ids ?r'' = []"
      "block_hashes ?r'' = prefix_hashes H none_hash sha256 hbs ?r (nat (n div hbs))"
      by (simp_all add: full_blocks_def n)
    ultimately show ?thesis
      using n ok(2) by (simp only: option.case sum.case)
  qed
qed

theorem creation_hashes_prompt_witness:
  "\<exists>er r. er_prompt_token_ids er = Some [5, 6, 7] \<and>
     init_request 0 1 (Some (request_block_hasher toy_hash [0] id 2)) er = Some (Inr r) \<and>
     block_hashes r = prefix_hashes toy_hash [0] id 2 r (nat (num_prompt_tokens r div 2)) \<and>
     num_prompt_tokens r = 3"
proof -
  define er :: engine_core_request where
    "er = \<lparr>er_request_id = ''a'', er_prompt_token_ids = Some [5, 6, 7], er_mm_features = None,
      er_sampling_params = None, er_pooling_params = Some \<lparr>pp_skip_reading_prefix_cache = None\<rparr>,
      er_arrival_time = None, er_lora_request = None, er_cache_salt = None, er_prompt_embeds = None,
      er_prompt_is_token_ids = None, er_client_index = 0, er_priority = 0, er_resumable = False,
      er_reasoning_ended = None, er_abort_immediately = False\<rparr>"
  have "mm_sorted (case er_mm_features er of Some fs \<Rightarrow> fs | None \<Rightarrow> [])"
    by (simp add: er_def mm_sorted_def)
  note created = creation_hashes_prompt[OF _ this, where hbs = 2 and now = 0 and oid = 1 and H = toy_hash and none_hash = "[0]" and ?sha256.0 = id]
  obtain r where r: "init_request 0 1 (Some (request_block_hasher toy_hash [0] id 2)) er = Some (Inr r)"
    using created by (auto simp: er_def split: option.splits sum.splits)
  have ids: "er_prompt_token_ids er = Some [5, 6, 7]"
    by (simp add: er_def)
  have "num_prompt_tokens r = 3"
    using created r by (simp add: er_def length_from_prompt_token_ids_or_embeds_def)
  then show ?thesis
    using created r ids by (intro exI[of _ er] exI[of _ r]) simp
qed

section \<open>What a block hash identifies\<close>

definition block_input ::
  "(hash_input \<Rightarrow> bytes) \<Rightarrow> bytes \<Rightarrow> (bytes \<Rightarrow> bytes) \<Rightarrow> int \<Rightarrow> request \<Rightarrow> nat \<Rightarrow> hash_input" where
  "block_input H none_hash sha256 hbs r i =
     (case prefix_hash H none_hash sha256 hbs r i of None \<Rightarrow> none_hash | Some h \<Rightarrow> if h = [] then none_hash else h,
      py_slice (all_token_ids r) (int i * hbs) (int i * hbs + hbs),
      extra_keys_at sha256 r (int i * hbs) (int i * hbs + hbs))"

text \<open>The hash function has no collision on the given inputs and never gives the seed.\<close>

definition collision_free :: "(hash_input \<Rightarrow> bytes) \<Rightarrow> bytes \<Rightarrow> hash_input list \<Rightarrow> bool" where
  "collision_free H none_hash xs \<longleftrightarrow>
     (\<forall>x\<in>set xs. \<forall>y\<in>set xs. H x = H y \<longrightarrow> x = y) \<and> (\<forall>x\<in>set xs. H x \<noteq> none_hash \<and> H x \<noteq> [])"

lemma prefix_hash_Suc_input:
  "prefix_hash H none_hash sha256 hbs r (Suc i) = Some (H (block_input H none_hash sha256 hbs r i))"
  by (simp add: block_input_def hash_block_tokens_def)

lemma collision_free_inj:
  "collision_free H n xs \<Longrightarrow> x \<in> set xs \<Longrightarrow> y \<in> set xs \<Longrightarrow> H x = H y \<Longrightarrow> x = y"
  by (simp add: collision_free_def)

lemma collision_free_neq:
  assumes "collision_free H n xs" and "x \<in> set xs"
  shows "H x \<noteq> n" and "H x \<noteq> []"
  using assms by (simp_all add: collision_free_def)

lemma collision_free_subset: "collision_free H n ys \<Longrightarrow> set xs \<subseteq> set ys \<Longrightarrow> collision_free H n xs"
  unfolding collision_free_def by blast

lemma block_input_parent:
  "fst (block_input H none_hash sha256 hbs r 0) = none_hash"
  "H (block_input H none_hash sha256 hbs r i) \<noteq> [] \<Longrightarrow>
     fst (block_input H none_hash sha256 hbs r (Suc i)) = H (block_input H none_hash sha256 hbs r i)"
  unfolding block_input_def[of _ _ _ _ r "0"] block_input_def[of _ _ _ _ r "Suc i"] prefix_hash_Suc_input
  by simp_all

lemma block_inputs_agree:
  assumes "collision_free H none_hash
      (map (block_input H none_hash sha256 hbs r) [0..<Suc i] @ map (block_input H none_hash sha256 hbs r') [0..<Suc j])"
    and "prefix_hash H none_hash sha256 hbs r (Suc i) = prefix_hash H none_hash sha256 hbs r' (Suc j)"
  shows "i = j \<and> (\<forall>k \<le> i. block_input H none_hash sha256 hbs r k = block_input H none_hash sha256 hbs r' k)"
  using assms
proof (induction i arbitrary: j)
  case 0
  let ?I = "block_input H none_hash sha256 hbs"
  note cf = 0(1)
  have eq: "?I r 0 = ?I r' j"
    using 0(2) unfolding prefix_hash_Suc_input by (intro collision_free_inj[OF cf]) simp_all
  show ?case
  proof (cases j)
    case (Suc j')
    then have mem: "?I r' j' \<in> set (map (?I r) [0..<Suc 0] @ map (?I r') [0..<Suc j])" by simp
    have "fst (?I r' (Suc j')) = H (?I r' j')"
      by (rule block_input_parent(2)) (rule collision_free_neq(2)[OF cf mem])
    moreover have "fst (?I r 0) = none_hash"
      by (rule block_input_parent(1))
    ultimately have "H (?I r' j') = none_hash"
      using eq Suc by simp
    with collision_free_neq(1)[OF cf mem] show ?thesis by blast
  qed (use eq in simp)
next
  case (Suc i)
  let ?I = "block_input H none_hash sha256 hbs"
  note cf = Suc.prems(1)
  have eq: "?I r (Suc i) = ?I r' j"
    using Suc.prems(2) unfolding prefix_hash_Suc_input by (intro collision_free_inj[OF cf]) simp_all
  have mem: "?I r i \<in> set (map (?I r) [0..<Suc (Suc i)] @ map (?I r') [0..<Suc j])" by simp
  have pi: "fst (?I r (Suc i)) = H (?I r i)"
    by (rule block_input_parent(2)) (rule collision_free_neq(2)[OF cf mem])
  show ?case
  proof (cases j)
    case 0
    then show ?thesis
      using block_input_parent(1)[of H none_hash sha256 hbs r'] collision_free_neq(1)[OF cf mem] eq pi by simp
  next
    case j: (Suc j')
    have mem': "?I r' j' \<in> set (map (?I r) [0..<Suc (Suc i)] @ map (?I r') [0..<Suc j])"
      using j by simp
    have "fst (?I r' (Suc j')) = H (?I r' j')"
      by (rule block_input_parent(2)) (rule collision_free_neq(2)[OF cf mem'])
    then have "prefix_hash H none_hash sha256 hbs r (Suc i) = prefix_hash H none_hash sha256 hbs r' (Suc j')"
      using pi eq j unfolding prefix_hash_Suc_input by simp
    moreover have "collision_free H none_hash (map (?I r) [0..<Suc i] @ map (?I r') [0..<Suc j'])"
      by (rule collision_free_subset[OF cf]) (use j in auto)
    ultimately have "i = j' \<and> (\<forall>k \<le> i. ?I r k = ?I r' k)"
      using Suc.IH[of j'] by blast
    with j eq show ?thesis by (simp add: le_Suc_eq)
  qed
qed

lemma take_slices:
  assumes "0 < hbs" and "\<And>k. k < n \<Longrightarrow> py_slice xs (int k * hbs) (int k * hbs + hbs) = py_slice ys (int k * hbs) (int k * hbs + hbs)"
  shows "take (n * nat hbs) xs = take (n * nat hbs) ys"
  using assms(2)
proof (induction n)
  case 0
  show ?case by simp
next
  case (Suc n)
  have "py_slice zs (int n * hbs) (int n * hbs + hbs) = take (nat hbs) (drop (n * nat hbs) zs)" for zs :: "'a list"
    using assms(1) by (simp add: py_slice_nonneg nat_add_distrib nat_mult_distrib)
  then have "take (nat hbs) (drop (n * nat hbs) xs) = take (nat hbs) (drop (n * nat hbs) ys)"
    using Suc.prems[of n] by simp
  then show ?case
    using Suc by (simp add: take_add add.commute[of "nat hbs"])
qed

lemma nth_prefix_hashes: "i < n \<Longrightarrow> prefix_hashes H none_hash sha256 hbs r n ! i = the (prefix_hash H none_hash sha256 hbs r (Suc i))"
  by (simp add: prefix_hashes_def del: prefix_hash.simps)

lemma hashed_nth:
  assumes "hashed H none_hash sha256 hbs r" and "i < length (block_hashes r)"
  shows "block_hashes r ! i = H (block_input H none_hash sha256 hbs r i)"
proof -
  have "block_hashes r ! i = the (prefix_hash H none_hash sha256 hbs r (Suc i))"
    using assms nth_prefix_hashes[of i "full_blocks hbs r"]
    by (simp add: hashed_def prefix_hashes_def del: prefix_hash.simps)
  then show ?thesis
    unfolding prefix_hash_Suc_input by simp
qed

lemma equal_hash_same_prefix:
  assumes "0 < hbs" and "hashed H none_hash sha256 hbs r" and "hashed H none_hash sha256 hbs r'"
    and "i < length (block_hashes r)" and "j < length (block_hashes r')"
    and "collision_free H none_hash
      (map (block_input H none_hash sha256 hbs r) [0..<Suc i] @ map (block_input H none_hash sha256 hbs r') [0..<Suc j])"
    and "block_hashes r ! i = block_hashes r' ! j"
  shows "i = j \<and> take (Suc i * nat hbs) (all_token_ids r) = take (Suc i * nat hbs) (all_token_ids r') \<and>
    (\<forall>k \<le> i. extra_keys_at sha256 r (int k * hbs) (int k * hbs + hbs) =
             extra_keys_at sha256 r' (int k * hbs) (int k * hbs + hbs))"
proof -
  have "prefix_hash H none_hash sha256 hbs r (Suc i) = prefix_hash H none_hash sha256 hbs r' (Suc j)"
    using assms(7) hashed_nth[OF assms(2,4)] hashed_nth[OF assms(3,5)] unfolding prefix_hash_Suc_input by simp
  note agree = block_inputs_agree[OF assms(6) this]
  then have eq: "block_input H none_hash sha256 hbs r k = block_input H none_hash sha256 hbs r' k" if "k < Suc i" for k
    using that by simp
  have "take (Suc i * nat hbs) (all_token_ids r) = take (Suc i * nat hbs) (all_token_ids r')"
    using eq by (intro take_slices[OF assms(1)]) (simp add: block_input_def)
  with agree show ?thesis
    by (simp add: block_input_def)
qed

text \<open>
  C2: A block hash identifies the whole prefix it ends.  If two requests are hashed, the hash function
  has no collision on the inputs involved and never returns its own seed, and block \<open>i\<close> of one request
  has the hash of block \<open>j\<close> of the other, then \<open>i = j\<close>, all tokens up to the end of that block are the
  same, and so are the extra keys of every block up to it.  This is what makes it sound to share a KV
  block between requests on equal hashes.
\<close>

theorem block_hash_identifies_prefix:
  assumes "0 < hbs" and "hashed H none_hash sha256 hbs r" and "hashed H none_hash sha256 hbs r'"
    and "i < length (block_hashes r)" and "j < length (block_hashes r')"
    and "collision_free H none_hash
      (map (block_input H none_hash sha256 hbs r) [0..<Suc i] @ map (block_input H none_hash sha256 hbs r') [0..<Suc j])"
    and "block_hashes r ! i = block_hashes r' ! j"
  shows "i = j \<and> take (Suc i * nat hbs) (all_token_ids r) = take (Suc i * nat hbs) (all_token_ids r') \<and>
    (\<forall>k \<le> i. extra_keys_at sha256 r (int k * hbs) (int k * hbs + hbs) =
             extra_keys_at sha256 r' (int k * hbs) (int k * hbs + hbs))"
  using assms by (rule equal_hash_same_prefix)

definition sample_hashed :: "nat \<Rightarrow> int list \<Rightarrow> request" where
  "sample_hashed oid toks =
     (text_request ''s'' oid toks)\<lparr>block_hashes := prefix_hashes toy_hash [0] id 2 (text_request ''s'' oid toks) 2\<rparr>"

lemma sample_hashed_simps [simp]:
  "all_token_ids (sample_hashed oid toks) = toks"
  "extra_keys_at sha256 (sample_hashed oid toks) s e = None"
  "block_hashes (sample_hashed oid toks) = prefix_hashes toy_hash [0] id 2 (text_request ''s'' oid toks) 2"
  by (simp_all add: sample_hashed_def extra_keys_at_def gen_lora_extra_hash_keys_def)

lemma sample_is_hashed: "hashed toy_hash [0] id 2 (sample_hashed oid [v, w, x, y, z])"
proof -
  have ek: "extra_keys_at sha256 (text_request rid oid toks) s e = None" for sha256 rid toks s e
    by (simp add: extra_keys_at_def gen_lora_extra_hash_keys_def)
  have "prefix_hash toy_hash [0] id 2 (sample_hashed oid toks) n = prefix_hash toy_hash [0] id 2 (text_request ''s'' oid toks) n" for toks n
    by (rule prefix_hash_cong) (simp_all add: ek)
  then show ?thesis
    by (simp add: hashed_def full_blocks_def num_tokens_def prefix_hashes_def numeral_2_eq_2 ek)
qed

lemma sample_collision_free:
  "collision_free toy_hash [0]
     (map (block_input toy_hash [0] id 2 (sample_hashed 0 [1, 2, 3, 4, 5])) [0..<2] @
      map (block_input toy_hash [0] id 2 (sample_hashed 1 [1, 2, 3, 4, 6])) [0..<2])"
  by (simp add: collision_free_def block_input_def hash_block_tokens_def toy_hash_def py_slice_def slice_bound_def
      numeral_2_eq_2)

lemma sample_hashes_equal:
  "block_hashes (sample_hashed 0 [1, 2, 3, 4, 5]) ! 1 = block_hashes (sample_hashed 1 [1, 2, 3, 4, 6]) ! 1"
  by (simp add: nth_prefix_hashes extra_keys_at_def gen_lora_extra_hash_keys_def hash_block_tokens_def toy_hash_def
      py_slice_def slice_bound_def)

lemma sample_hashes_length [simp]: "length (block_hashes (sample_hashed oid toks)) = 2"
  by (simp add: prefix_hashes_def)

theorem block_hash_identifies_prefix_witness:
  "block_hashes (sample_hashed 0 [1, 2, 3, 4, 5]) ! 1 = block_hashes (sample_hashed 1 [1, 2, 3, 4, 6]) ! 1 \<and>
   take (Suc 1 * nat 2) (all_token_ids (sample_hashed 0 [1, 2, 3, 4, 5])) =
   take (Suc 1 * nat 2) (all_token_ids (sample_hashed 1 [1, 2, 3, 4, 6]))"
  using block_hash_identifies_prefix[OF _ sample_is_hashed sample_is_hashed, of 1 0 1 2 3 4 5 1 1 1 2 3 4 6]
    sample_collision_free sample_hashes_equal
  by (simp add: numeral_2_eq_2 del: sample_hashed_simps(3))

text \<open>
  C10: The coarser hash list of a KV-cache group is the list of prefix hashes at the group's block size.
  For a hashed request and a group block size that is a proper multiple \<open>k\<close> of the hash block size,
  \<open>resolve_block_hashes\<close> gives a view whose length is the number of full group blocks and whose
  \<open>i\<close>-th entry is the hash of the first \<open>(i + 1) * k\<close> hash blocks, that is of the prefix that ends with
  group block \<open>i\<close>.
\<close>

theorem coarse_view_is_prefix_hashing:
  assumes "0 < hbs" and "1 < k" and "hashed H none_hash sha256 hbs r"
  shows "\<exists>v. resolve_block_hashes (Raw_hashes (block_hashes r)) hbs (hbs * int k) False None = Inr v \<and>
    view_len v = num_tokens r div (hbs * int k) \<and>
    view_iter v = Inr (map (\<lambda>i. the (prefix_hash H none_hash sha256 hbs r (Suc i * k)))
                        [0..<nat (num_tokens r div (hbs * int k))])"
proof -
  let ?v = "Hash_view (block_hashes r) (int k)"
  have "resolve_block_hashes (Raw_hashes (block_hashes r)) hbs (hbs * int k) False None = Inr ?v"
    using assms(1,2) by (simp add: resolve_block_hashes_def new_hash_view_def)
  moreover have len: "length (block_hashes r) = full_blocks hbs r"
    using assms(3) by (simp add: hashed_def prefix_hashes_def)
  have nonneg: "0 \<le> num_tokens r div hbs"
    using assms(1) by (simp add: num_tokens_def pos_imp_zdiv_nonneg_iff)
  have div: "int (full_blocks hbs r) div int k = num_tokens r div (hbs * int k)"
    using nonneg assms(1) by (simp add: full_blocks_def zdiv_zmult2_eq)
  have "view_len ?v = num_tokens r div (hbs * int k)"
    by (simp add: len div)
  moreover have "view_iter ?v = Inr (map (\<lambda>i. the (prefix_hash H none_hash sha256 hbs r (Suc i * k)))
      [0..<nat (num_tokens r div (hbs * int k))])"
  proof -
    have n: "nat (num_tokens r div (hbs * int k)) = full_blocks hbs r div k"
      unfolding div[symmetric] by (simp add: nat_div_distrib)
    have "block_hashes r ! (Suc i * k - 1) = the (prefix_hash H none_hash sha256 hbs r (Suc i * k))"
      if "i < full_blocks hbs r div k" for i
    proof -
      have "Suc i * k \<le> full_blocks hbs r"
        using that assms(2) by (metis Suc_leI less_eq_div_iff_mult_less_eq order.strict_trans zero_less_one)
      moreover have "0 < Suc i * k" using assms(2) by simp
      ultimately have "Suc i * k - 1 < full_blocks hbs r" and "Suc (Suc i * k - 1) = Suc i * k" by linarith+
      then show ?thesis
        using assms(3) nth_prefix_hashes[of "Suc i * k - 1" "full_blocks hbs r" H none_hash sha256 hbs r]
        by (simp only: hashed_def)
    qed
    then show ?thesis
      using view_iter_eq[of k "block_hashes r"] assms(2) unfolding len n by simp
  qed
  ultimately show ?thesis by blast
qed

theorem coarse_view_is_prefix_hashing_witness:
  "\<exists>v. resolve_block_hashes (Raw_hashes (block_hashes (sample_hashed 0 [1, 2, 3, 4, 5]))) 2 4 False None = Inr v \<and>
     view_len v = 1 \<and>
     view_iter v = Inr [the (prefix_hash toy_hash [0] id 2 (sample_hashed 0 [1, 2, 3, 4, 5]) 2)]"
  using coarse_view_is_prefix_hashing[OF _ _ sample_is_hashed, of 2 0 1 2 3 4 5]
  by (simp add: num_tokens_def prefix_hash.simps(2)[of _ _ _ _ _ 1, unfolded One_nat_def, folded numeral_2_eq_2])

section \<open>Where the extra keys say less than they should\<close>

definition one_token_image :: "string \<Rightarrow> int \<Rightarrow> mm_feature" where
  "one_token_image ident off =
     \<lparr>mm_identifier = ident, mm_position = \<lparr>offset = off, plen = 1, is_embed = None\<rparr>\<rparr>"

text \<open>
  A prompt of seven tokens with two images of one token each at positions 4 and 5, its first block
  of four tokens hashed.
\<close>

definition two_image_request :: "(hash_input \<Rightarrow> bytes) \<Rightarrow> bytes \<Rightarrow> (bytes \<Rightarrow> bytes) \<Rightarrow> string \<Rightarrow> string \<Rightarrow> request" where
  "two_image_request H none_hash sha256 img1 img2 =
     (let r = (text_request ''m'' 0 [1, 2, 3, 4, 90, 90, 5])
                \<lparr>mm_features := [one_token_image img1 4, one_token_image img2 5]\<rparr>
      in r\<lparr>block_hashes := prefix_hashes H none_hash sha256 4 r 1\<rparr>)"

text \<open>
  C13: A block completed by generated tokens forgets all multi-modal inputs but the last.  Two requests
  that differ in their first image, both correctly hashed so far, get the same hash for the block that
  holds the images once a generated token completes it, for every hash function: the hasher restarts
  at the last multi-modal input, although the partial block of the prompt contains both.
\<close>

theorem completed_block_forgets_earlier_images:
  "\<exists>r1 r2.
     hashed H none_hash sha256 4 (two_image_request H none_hash sha256 ''cat'' ''sun'') \<and>
     hashed H none_hash sha256 4 (two_image_request H none_hash sha256 ''dog'' ''sun'') \<and>
     append_output_token_ids (Some (request_block_hasher H none_hash sha256 4)) [6]
       (two_image_request H none_hash sha256 ''cat'' ''sun'') = Some (Inr r1) \<and>
     append_output_token_ids (Some (request_block_hasher H none_hash sha256 4)) [6]
       (two_image_request H none_hash sha256 ''dog'' ''sun'') = Some (Inr r2) \<and>
     length (block_hashes r1) = 2 \<and> block_hashes r1 = block_hashes r2 \<and>
     extra_keys_at sha256 r1 4 8 \<noteq> extra_keys_at sha256 r2 4 8"
proof -
  let ?q = "\<lambda>img. two_image_request H none_hash sha256 img ''sun''"
  have h: "hashed H none_hash sha256 4 (?q img)" for img
    by (simp add: hashed_def full_blocks_def num_tokens_def two_image_request_def Let_def prefix_hashes_def
        extra_keys_at_def gen_lora_extra_hash_keys_def)
  have keys: "generate_block_hash_extra_keys sha256 r 4 8 (-1) = Inr ((Some [Key_mm ''sun'' 1], 2), r)"
    if "mm_features r = [one_token_image img 4, one_token_image ''sun'' 5]" "lora_request r = None"
      "cache_salt r = None" "prompt_embeds r = None" for r img
    using that by (simp add: generate_block_hash_extra_keys_def gen_mm_extra_hash_keys_def
        gen_prompt_embeds_extra_hash_keys_def gen_lora_extra_hash_keys_def one_token_image_def
        mm_end_def mm_start_def)
  have loop: "hasher_loop H none_hash sha256 4 8 r 4 (-1) prev [] =
      Some (Inr ([hash_block_tokens H none_hash prev (py_slice (all_token_ids r) 4 8) (Some [Key_mm ''sun'' 1])], r))"
    if "mm_features r = [one_token_image img 4, one_token_image ''sun'' 5]" "lora_request r = None"
      "cache_salt r = None" "prompt_embeds r = None" for r img prev
    by (subst hasher_loop.simps, simp add: keys[OF that] Let_def, subst hasher_loop.simps, simp)
  have step: "\<exists>r. append_output_token_ids (Some (request_block_hasher H none_hash sha256 4)) [6] (?q img) = Some (Inr r) \<and>
      block_hashes r =
        block_hashes (?q img) @ [hash_block_tokens H none_hash (Some (last (block_hashes (?q img)))) [90, 90, 5, 6]
           (Some [Key_mm ''sun'' 1])] \<and>
      extra_keys_at sha256 r 4 8 = Some [Key_mm img 0, Key_mm ''sun'' 1]" for img
    by (simp add: append_output_token_ids_def update_block_hashes_def request_block_hasher_def loop
        two_image_request_def Let_def num_tokens_def prefix_hashes_def gen_lora_extra_hash_keys_def
        one_token_image_def mm_end_def mm_start_def extra_keys_at_def mm_key_def overlaps_def py_slice_def
        slice_bound_def)
  have len: "length (block_hashes (?q img)) = 1" for img
    by (simp add: two_image_request_def Let_def prefix_hashes_def)
  have same: "block_hashes (?q ''cat'') = block_hashes (?q ''dog'')"
    by (simp add: two_image_request_def Let_def prefix_hashes_def extra_keys_at_def gen_lora_extra_hash_keys_def
        one_token_image_def mm_end_def mm_start_def overlaps_def)
  obtain r1 where r1: "append_output_token_ids (Some (request_block_hasher H none_hash sha256 4)) [6] (?q ''cat'') = Some (Inr r1)"
    "block_hashes r1 = block_hashes (?q ''cat'') @ [hash_block_tokens H none_hash (Some (last (block_hashes (?q ''cat''))))
        [90, 90, 5, 6] (Some [Key_mm ''sun'' 1])]" "extra_keys_at sha256 r1 4 8 = Some [Key_mm ''cat'' 0, Key_mm ''sun'' 1]"
    using step by blast
  obtain r2 where r2: "append_output_token_ids (Some (request_block_hasher H none_hash sha256 4)) [6] (?q ''dog'') = Some (Inr r2)"
    "block_hashes r2 = block_hashes (?q ''dog'') @ [hash_block_tokens H none_hash (Some (last (block_hashes (?q ''dog''))))
        [90, 90, 5, 6] (Some [Key_mm ''sun'' 1])]" "extra_keys_at sha256 r2 4 8 = Some [Key_mm ''dog'' 0, Key_mm ''sun'' 1]"
    using step by blast
  show ?thesis
    using r1 r2 h len same by (intro exI[of _ r1] exI[of _ r2]) simp
qed



end
