(* ===== verification/Block_Hash_Map.thy ===== *)
theory Block_Hash_Map
  imports Free_Block_Queue Block_Hash
begin

text \<open>
  \<^verbatim>\<open>BlockHashToBlockMap\<close> of \<^verbatim>\<open>src/vllm/v1/core/block_pool.py\<close>: from a key (block hash with group id) to the
  one cached block with that hash, or to a dictionary of several.  A dictionary is the list of its
  items in insertion order.

  The locale \<open>block_index\<close> is the contract of the map towards the block pool, a relation between
  keys and blocks with lookup, insertion and removal; the interpretation \<open>bhm\<close> discharges it.
\<close>

section \<open>Dictionaries from block ids to blocks\<close>

fun dict_set :: "int \<Rightarrow> 'v \<Rightarrow> (int \<times> 'v) list \<Rightarrow> (int \<times> 'v) list" where
  "dict_set k v [] = [(k, v)]"
| "dict_set k v ((k', v') # d) = (if k' = k then (k, v) # d else (k', v') # dict_set k v d)"

definition dict_pop :: "int \<Rightarrow> (int \<times> 'v) list \<Rightarrow> 'v option \<times> (int \<times> 'v) list" where
  "dict_pop k d = (map_of d k, filter (\<lambda>(k', v). k' \<noteq> k) d)"

section \<open>The map\<close>

datatype kv_cache_blocks = One block_ref | Many "(int \<times> block_ref) list"

type_synonym block_hash_map = "bytes \<Rightarrow> kv_cache_blocks option"

definition empty_map :: block_hash_map where
  "empty_map = (\<lambda>_. None)"

definition get_one_block :: "bytes \<Rightarrow> block_hash_map \<Rightarrow> block_ref option result" where
  "get_one_block key m =
     (case m key of
        None \<Rightarrow> Inr None
      | Some (One b) \<Rightarrow> Inr (Some b)
      | Some (Many d) \<Rightarrow> (case d of [] \<Rightarrow> Inl StopIteration | (_, b) # _ \<Rightarrow> Inr (Some b)))"

definition contain :: "bytes \<Rightarrow> int \<Rightarrow> block_hash_map \<Rightarrow> bool" where
  "contain key bid m =
     (case m key of
        None \<Rightarrow> False
      | Some (One b) \<Rightarrow> block_id b = bid
      | Some (Many d) \<Rightarrow> bid \<in> fst ` set d)"

definition insert_block :: "bytes \<Rightarrow> block_ref \<Rightarrow> block_hash_map \<Rightarrow> block_hash_map" where
  "insert_block key b m =
     (case m key of
        None \<Rightarrow> m(key := Some (One b))
      | Some (One b') \<Rightarrow> m(key := Some (Many (dict_set (block_id b) b [(block_id b', b')])))
      | Some (Many d) \<Rightarrow> m(key := Some (Many (dict_set (block_id b) b d))))"

definition pop_block :: "bytes \<Rightarrow> int \<Rightarrow> block_hash_map \<Rightarrow> block_ref option \<times> block_hash_map" where
  "pop_block key bid m =
     (case m key of
        None \<Rightarrow> (None, m)
      | Some (One b) \<Rightarrow> if block_id b = bid then (Some b, m(key := None)) else (None, m(key := Some (One b)))
      | Some (Many d) \<Rightarrow>
          (case dict_pop bid d of
             (b, d') \<Rightarrow> if length d' > 0 then (b, m(key := Some (Many d'))) else (b, m(key := None))))"

section \<open>The contract\<close>

locale block_index =
  fixes wf :: "'m \<Rightarrow> bool"
    and ok_block :: "'b \<Rightarrow> bool"
    and maps :: "'m \<Rightarrow> 'k \<Rightarrow> 'b \<Rightarrow> bool"
    and fresh :: 'm
    and find :: "'k \<Rightarrow> 'm \<Rightarrow> 'b option result"
    and put :: "'k \<Rightarrow> 'b \<Rightarrow> 'm \<Rightarrow> 'm"
    and drop_one :: "'k \<Rightarrow> 'b \<Rightarrow> 'm \<Rightarrow> 'b option \<times> 'm"
  assumes fresh_wf: "wf fresh"
    and fresh_maps: "\<not> maps fresh k b"
    and maps_ok: "wf m \<Longrightarrow> maps m k b \<Longrightarrow> ok_block b"
    and find_total: "wf m \<Longrightarrow> \<exists>r. find k m = Inr r"
    and find_some: "wf m \<Longrightarrow> find k m = Inr (Some b) \<Longrightarrow> maps m k b"
    and find_none: "wf m \<Longrightarrow> find k m = Inr None \<Longrightarrow> \<not> maps m k b"
    and put_wf: "wf m \<Longrightarrow> ok_block b \<Longrightarrow> wf (put k b m)"
    and put_maps: "wf m \<Longrightarrow> ok_block b \<Longrightarrow> maps (put k b m) k' b' \<longleftrightarrow> maps m k' b' \<or> (k' = k \<and> b' = b)"
    and drop_wf: "wf m \<Longrightarrow> ok_block b \<Longrightarrow> wf (snd (drop_one k b m))"
    and drop_result: "wf m \<Longrightarrow> ok_block b \<Longrightarrow> fst (drop_one k b m) = (if maps m k b then Some b else None)"
    and drop_maps: "wf m \<Longrightarrow> ok_block b \<Longrightarrow>
      maps (snd (drop_one k b m)) k' b' \<longleftrightarrow> maps m k' b' \<and> \<not> (k' = k \<and> b' = b)"
begin

lemma find_iff: "wf m \<Longrightarrow> (\<exists>b. find k m = Inr (Some b)) \<longleftrightarrow> (\<exists>b. maps m k b)"
  using find_total[of m k] find_some find_none by (metis option.exhaust)

lemma put_then_find: "wf m \<Longrightarrow> ok_block b \<Longrightarrow> \<exists>b'. find k (put k b m) = Inr (Some b')"
  using find_iff[OF put_wf] put_maps by blast

text \<open>Removing every key of a list for one block.\<close>

lemma fold_drop_wf: "wf m \<Longrightarrow> ok_block b \<Longrightarrow> wf (fold (\<lambda>k m. snd (drop_one k b m)) ks m)"
  by (induction ks arbitrary: m) (simp_all add: drop_wf)

lemma fold_drop_maps:
  "wf m \<Longrightarrow> ok_block b \<Longrightarrow>
   maps (fold (\<lambda>k m. snd (drop_one k b m)) ks m) k' b' \<longleftrightarrow> maps m k' b' \<and> \<not> (k' \<in> set ks \<and> b' = b)"
  by (induction ks arbitrary: m) (auto simp: drop_wf drop_maps)

end

section \<open>The map satisfies the contract\<close>

definition dict_ok :: "(int \<times> block_ref) list \<Rightarrow> bool" where
  "dict_ok d \<longleftrightarrow> d \<noteq> [] \<and> distinct (map fst d) \<and> (\<forall>(k, b) \<in> set d. is_block b \<and> k = block_id b)"

definition map_ok :: "block_hash_map \<Rightarrow> bool" where
  "map_ok m \<longleftrightarrow> (\<forall>k. case m k of None \<Rightarrow> True | Some (One b) \<Rightarrow> is_block b | Some (Many d) \<Rightarrow> dict_ok d)"

definition maps_to :: "block_hash_map \<Rightarrow> bytes \<Rightarrow> block_ref \<Rightarrow> bool" where
  "maps_to m k b \<longleftrightarrow> is_block b \<and> contain k (block_id b) m"

lemma block_id_inj: "is_block a \<Longrightarrow> is_block b \<Longrightarrow> block_id a = block_id b \<longleftrightarrow> a = b"
  by (cases a; cases b) auto

lemma map_fst_dict_set:
  "map fst (dict_set k v d) = (if k \<in> fst ` set d then map fst d else map fst d @ [k])"
  by (induction d) (force, force)

lemma keys_dict_set: "fst ` set (dict_set k v d) = insert k (fst ` set d)"
  using arg_cong[OF map_fst_dict_set[of k v d], of set] by (auto split: if_splits)

lemma in_dict_set: "(a, b) \<in> set (dict_set k v d) \<Longrightarrow> (a = k \<and> b = v) \<or> (a, b) \<in> set d"
  by (induction d) (auto split: if_splits)

lemma dict_ok_set:
  assumes "dict_ok d" and "is_block b"
  shows "dict_ok (dict_set (block_id b) b d)"
proof -
  have "dict_set (block_id b) b d \<noteq> []"
    using map_fst_dict_set[of "block_id b" b d] assms(1) by (auto simp: dict_ok_def split: if_splits)
  moreover have "distinct (map fst (dict_set (block_id b) b d))"
    using assms(1) by (simp add: map_fst_dict_set dict_ok_def)
  ultimately show ?thesis
    using assms in_dict_set by (fastforce simp: dict_ok_def)
qed

lemma dict_ok_value: "dict_ok d \<Longrightarrow> (k, b) \<in> set d \<Longrightarrow> k = block_id b \<and> is_block b"
  by (auto simp: dict_ok_def)

lemma dict_ok_map_of:
  assumes "dict_ok d" and "is_block b"
  shows "map_of d (block_id b) = (if block_id b \<in> fst ` set d then Some b else None)"
proof (cases "block_id b \<in> fst ` set d")
  case True
  then obtain b' where b': "(block_id b, b') \<in> set d" by auto
  then have "b' = b"
    using dict_ok_value[OF assms(1) b'] assms(2) block_id_inj by metis
  with b' True assms(1) show ?thesis
    by (simp add: dict_ok_def)
next
  case False
  then show ?thesis by (simp add: map_of_eq_None_iff)
qed

lemma dict_ok_pop: "dict_ok d \<Longrightarrow> snd (dict_pop k d) \<noteq> [] \<Longrightarrow> dict_ok (snd (dict_pop k d))"
  unfolding dict_ok_def dict_pop_def by (auto simp: distinct_map_filter)

lemma map_ok_upd: "map_ok m \<Longrightarrow> (case v of None \<Rightarrow> True | Some (One b) \<Rightarrow> is_block b | Some (Many d) \<Rightarrow> dict_ok d) \<Longrightarrow> map_ok (m(k := v))"
  by (simp add: map_ok_def)

lemma map_okD: "map_ok m \<Longrightarrow> m k = Some (One b) \<Longrightarrow> is_block b" "map_ok m \<Longrightarrow> m k = Some (Many d) \<Longrightarrow> dict_ok d"
  by (force simp: map_ok_def dest: spec[of _ k])+

lemma entry_cases [case_names None One Many]:
  fixes m :: block_hash_map
  obtains "m k = None" | b where "m k = Some (One b)" | d where "m k = Some (Many d)"
proof (cases "m k")
  case (Some e)
  then show ?thesis using that by (cases e) simp_all
qed (use that in simp)

lemma contain_insert_block:
  "contain k' bid (insert_block k b m) \<longleftrightarrow> contain k' bid m \<or> (k' = k \<and> bid = block_id b)"
  by (cases m k rule: entry_cases) (auto simp: insert_block_def contain_def keys_dict_set)

lemma map_ok_insert_block: "map_ok m \<Longrightarrow> is_block b \<Longrightarrow> map_ok (insert_block k b m)"
proof (cases m k rule: entry_cases)
  case (One b')
  moreover assume "map_ok m" "is_block b"
  moreover have "dict_ok [(block_id b', b')]"
    using map_okD(1)[OF \<open>map_ok m\<close> One] by (simp add: dict_ok_def)
  from dict_ok_set[OF this \<open>is_block b\<close>] show ?thesis
    using \<open>map_ok m\<close> One by (simp add: insert_block_def map_ok_upd)
qed (auto simp: insert_block_def map_ok_upd dict_ok_set map_okD)

lemma get_one_block_cases:
  assumes "map_ok m"
  shows "(\<exists>b. get_one_block k m = Inr (Some b) \<and> maps_to m k b) \<or>
    (get_one_block k m = Inr None \<and> (\<forall>b. \<not> maps_to m k b))"
proof (cases m k rule: entry_cases)
  case None
  then show ?thesis by (simp add: get_one_block_def maps_to_def contain_def)
next
  case (One b)
  then show ?thesis
    using map_okD(1)[OF assms One] by (auto simp: get_one_block_def maps_to_def contain_def)
next
  case (Many d)
  have "dict_ok d" using map_okD(2)[OF assms Many] .
  then obtain b d' where "d = (block_id b, b) # d'" "is_block b"
    by (cases d) (auto simp: dict_ok_def)
  with Many show ?thesis
    by (auto simp: get_one_block_def maps_to_def contain_def)
qed

lemma pop_block_spec:
  assumes "map_ok m" and "is_block b"
  shows "fst (pop_block k (block_id b) m) = (if maps_to m k b then Some b else None)"
    and "map_ok (snd (pop_block k (block_id b) m))"
    and "is_block b' \<Longrightarrow> contain k' (block_id b') (snd (pop_block k (block_id b) m)) \<longleftrightarrow>
      contain k' (block_id b') m \<and> \<not> (k' = k \<and> b' = b)"
proof -
  have "fst (pop_block k (block_id b) m) = (if maps_to m k b then Some b else None) \<and>
    map_ok (snd (pop_block k (block_id b) m)) \<and>
    (is_block b' \<longrightarrow> (contain k' (block_id b') (snd (pop_block k (block_id b) m)) \<longleftrightarrow>
      contain k' (block_id b') m \<and> \<not> (k' = k \<and> b' = b)))"
  proof (cases m k rule: entry_cases)
    case None
    then show ?thesis
      using assms by (auto simp: pop_block_def maps_to_def contain_def)
  next
    case (One c)
    then show ?thesis
      using assms map_okD(1)[OF assms(1) One]
      by (auto simp: pop_block_def maps_to_def contain_def block_id_inj map_ok_upd)
  next
    case (Many d)
    have d: "dict_ok d" using map_okD(2)[OF assms(1) Many] .
    have keys: "fst ` set (snd (dict_pop (block_id b) d)) = fst ` set d - {block_id b}"
      by (auto simp: dict_pop_def image_iff)
    show ?thesis
    proof (cases "snd (dict_pop (block_id b) d) = []")
      case True
      then show ?thesis
        using Many assms d keys
        by (auto simp: pop_block_def maps_to_def contain_def map_ok_upd dict_pop_def dict_ok_map_of block_id_inj
            split: if_splits)
    next
      case False
      note d' = dict_ok_pop[OF d False]
      show ?thesis
        using Many assms d keys d' False
        by (cases "dict_pop (block_id b) d")
          (auto simp: pop_block_def maps_to_def contain_def map_ok_upd dict_pop_def dict_ok_map_of block_id_inj)
    qed
  qed
  then show "fst (pop_block k (block_id b) m) = (if maps_to m k b then Some b else None)"
    and "map_ok (snd (pop_block k (block_id b) m))"
    and "is_block b' \<Longrightarrow> contain k' (block_id b') (snd (pop_block k (block_id b) m)) \<longleftrightarrow>
      contain k' (block_id b') m \<and> \<not> (k' = k \<and> b' = b)"
    by blast+
qed

interpretation bhm: block_index map_ok is_block maps_to empty_map get_one_block insert_block
  "\<lambda>k b. pop_block k (block_id b)"
proof
  show "map_ok empty_map" and "\<not> maps_to empty_map k b" for k b
    by (simp_all add: map_ok_def maps_to_def contain_def empty_map_def)
  show "\<exists>r. get_one_block k m = Inr r" if "map_ok m" for m k
    using get_one_block_cases[OF that] by blast
  show "maps_to m k b" if "map_ok m" and "get_one_block k m = Inr (Some b)" for m k b
    using get_one_block_cases[OF that(1), of k] that(2) by auto
  show "\<not> maps_to m k b" if "map_ok m" and "get_one_block k m = Inr None" for m k b
    using get_one_block_cases[OF that(1), of k] that(2) by auto
  show "maps_to (insert_block k b m) k' b' \<longleftrightarrow> maps_to m k' b' \<or> (k' = k \<and> b' = b)"
    if "map_ok m" and "is_block b" for m b k k' b'
    using that by (auto simp: maps_to_def contain_insert_block block_id_inj)
  show "maps_to (snd (pop_block k (block_id b) m)) k' b' \<longleftrightarrow> maps_to m k' b' \<and> \<not> (k' = k \<and> b' = b)"
    if "map_ok m" and "is_block b" for m b k k' b'
    using that pop_block_spec(3)[of m b b' k' k] by (auto simp: maps_to_def)
qed (simp_all add: maps_to_def map_ok_insert_block pop_block_spec)

end
