(* ===== verification/Block_Pool.thy ===== *)
theory Block_Pool
  imports Block_Hash_Map
begin

text \<open>
  \<^verbatim>\<open>BlockPool\<close> of \<^verbatim>\<open>src/vllm/v1/core/block_pool.py\<close>, with the block metadata \<^verbatim>\<open>KVCacheBlock\<close> of
  \<^verbatim>\<open>kv_cache_utils.py\<close> and the KV events of \<^verbatim>\<open>distributed/kv_events.py\<close>.

  The attributes of the block objects are one store from references to records (their link fields
  are in the free queue).  The set of further keys of a block is the list of its elements in
  insertion order, and Python's order of iterating over that set is taken to be this order; the
  lemmas about these keys speak only of the set of elements.  The metrics collector is left out, and
  the environment variable that turns event hashes into integers is a field.
\<close>

section \<open>State\<close>

record kv_block =
  ref_cnt :: int
  bhash :: "bytes option"
  bhash_num_tokens :: "int option"
  is_null :: bool

record block_stored =
  ev_block_hashes :: "external_block_hash list"
  ev_parent_block_hash :: "external_block_hash option"
  ev_token_ids :: "int list"
  ev_block_size :: int
  ev_lora_id :: "int option"
  ev_medium :: string
  ev_lora_name :: "string option"
  ev_extra_keys :: "extra_key list option list option"
  ev_group_idx :: int

datatype kv_cache_event =
    BlockStored block_stored
  | BlockRemoved "external_block_hash list" string int
  | AllBlocksCleared

record block_pool =
  num_gpu_blocks :: int
  enable_caching :: bool
  hash_block_size :: int
  blocks :: "block_ref \<Rightarrow> kv_block"
  free_block_queue :: fqueue
  cached_block_hash_to_block :: block_hash_map
  cached_block_hashes_by_block :: "int \<Rightarrow> bytes list option"
  null_block :: block_ref
  enable_kv_cache_events :: bool
  use_int_block_hashes :: bool
  kv_event_queue :: "kv_cache_event list"

definition all_blocks :: "block_pool \<Rightarrow> block_ref list" where
  "all_blocks p = map Block [0..<nat (num_gpu_blocks p)]"

definition upd_block :: "block_ref \<Rightarrow> (kv_block \<Rightarrow> kv_block) \<Rightarrow> block_pool \<Rightarrow> block_pool" where
  "upd_block b f p = p\<lparr>blocks := (blocks p)(b := f (blocks p b))\<rparr>"

definition new_kv_block :: kv_block where
  "new_kv_block = \<lparr>ref_cnt = 0, bhash = None, bhash_num_tokens = None, is_null = False\<rparr>"

definition set_block_hash :: "bytes \<Rightarrow> int option \<Rightarrow> kv_block \<Rightarrow> kv_block result" where
  "set_block_hash key num_toks blk =
     py_assert (bhash blk = None \<and> bhash_num_tokens blk = None)
       (Inr (blk\<lparr>bhash := Some key, bhash_num_tokens := num_toks\<rparr>))"

definition reset_hash :: "kv_block \<Rightarrow> kv_block" where
  "reset_hash blk = blk\<lparr>bhash := None, bhash_num_tokens := None\<rparr>"

definition init_pool :: "int \<Rightarrow> bool \<Rightarrow> int \<Rightarrow> bool \<Rightarrow> bool \<Rightarrow> block_pool result" where
  "init_pool n caching hbs events use_int =
     py_assert (n > 0)
       (rbind (popleft (init_queue (map Block [0..<nat n]))) (\<lambda>(nb, q).
          Inr \<lparr>num_gpu_blocks = n, enable_caching = caching, hash_block_size = hbs,
               blocks = (\<lambda>_. new_kv_block)(nb := new_kv_block\<lparr>is_null := True\<rparr>),
               free_block_queue = q, cached_block_hash_to_block = empty_map,
               cached_block_hashes_by_block = (\<lambda>_. None), null_block = nb,
               enable_kv_cache_events = events, use_int_block_hashes = use_int,
               kv_event_queue = []\<rparr>))"

section \<open>Lookup and hash bookkeeping\<close>

fun get_cached_loop :: "bytes \<Rightarrow> int list \<Rightarrow> block_ref list \<Rightarrow> block_pool \<Rightarrow> block_ref list option result" where
  "get_cached_loop block_hash [] cached p = Inr (Some cached)"
| "get_cached_loop block_hash (g # gs) cached p =
     rbind (make_block_hash_with_group_id block_hash g) (\<lambda>key.
     rbind (get_one_block key (cached_block_hash_to_block p)) (\<lambda>r.
       case r of
         None \<Rightarrow> Inr None
       | Some b \<Rightarrow> get_cached_loop block_hash gs (cached @ [b]) p))"

definition get_cached_block :: "bytes \<Rightarrow> int list \<Rightarrow> block_pool \<Rightarrow> block_ref list option result" where
  "get_cached_block block_hash kv_cache_group_ids p = get_cached_loop block_hash kv_cache_group_ids [] p"

definition add_events :: "kv_cache_event list \<Rightarrow> block_pool \<Rightarrow> block_pool" where
  "add_events evs p = p\<lparr>kv_event_queue := kv_event_queue p @ evs\<rparr>"

text \<open>The loop that pops each key for the block, collecting the keys that were there.\<close>

fun pop_keys :: "bytes list \<Rightarrow> block_ref \<Rightarrow> bytes list \<Rightarrow> block_hash_map \<Rightarrow> bytes list \<times> block_hash_map" where
  "pop_keys [] b removed m = (removed, m)"
| "pop_keys (k # ks) b removed m =
     (case pop_block k (block_id b) m of
        (r, m') \<Rightarrow> pop_keys ks b (if r \<noteq> None then removed @ [k] else removed) m')"

definition block_keys :: "block_ref \<Rightarrow> block_pool \<Rightarrow> bytes list" where
  "block_keys b p =
     (case bhash (blocks p b) of None \<Rightarrow> [] | Some k \<Rightarrow> [k]) @
     (case cached_block_hashes_by_block p (block_id b) of None \<Rightarrow> [] | Some ks \<Rightarrow> ks)"

definition remove_cached_block_hashes :: "block_ref \<Rightarrow> block_pool \<Rightarrow> bytes list \<times> block_pool" where
  "remove_cached_block_hashes b p =
     (let ks = block_keys b p;
          p1 = p\<lparr>cached_block_hashes_by_block := (cached_block_hashes_by_block p)(block_id b := None)\<rparr>
      in if ks = [] then ([], p1)
         else case pop_keys ks b [] (cached_block_hash_to_block p1) of
                (removed, m) \<Rightarrow> (removed, upd_block b reset_hash (p1\<lparr>cached_block_hash_to_block := m\<rparr>)))"

definition emit_block_removed_events :: "bytes list \<Rightarrow> block_pool \<Rightarrow> block_pool" where
  "emit_block_removed_events ks p =
     (if \<not> enable_kv_cache_events p then p
      else add_events
             (map (\<lambda>k. BlockRemoved [maybe_convert_block_hash (use_int_block_hashes p) (get_block_hash k)]
                         ''GPU'' (get_group_id k)) ks) p)"

definition insert_block_hash :: "bytes \<Rightarrow> block_ref \<Rightarrow> int option \<Rightarrow> block_pool \<Rightarrow> block_pool result" where
  "insert_block_hash key b num_toks p =
     (if bhash (blocks p b) = Some key then Inr p
      else if contain key (block_id b) (cached_block_hash_to_block p) then Inr p
      else rbind (if bhash (blocks p b) = None
                  then rbind (set_block_hash key num_toks (blocks p b)) (\<lambda>blk. Inr (upd_block b (\<lambda>_. blk) p))
                  else Inr (p\<lparr>cached_block_hashes_by_block := (cached_block_hashes_by_block p)
                     (block_id b := Some (set_add key
                        (case cached_block_hashes_by_block p (block_id b) of None \<Rightarrow> [] | Some ks \<Rightarrow> ks)))\<rparr>))
             (\<lambda>p1. Inr (p1\<lparr>cached_block_hash_to_block := insert_block key b (cached_block_hash_to_block p1)\<rparr>)))"

definition move_block_hashes :: "block_ref \<Rightarrow> block_ref \<Rightarrow> block_pool \<Rightarrow> block_pool result" where
  "move_block_hashes src dst p =
     py_assert (bhash (blocks p dst) = None)
       (py_assert (cached_block_hashes_by_block p (block_id dst) = None)
         (let num_toks = bhash_num_tokens (blocks p src)
          in case remove_cached_block_hashes src p of
               (removed, p1) \<Rightarrow> rfold (\<lambda>k. insert_block_hash k dst num_toks) removed p1))"

definition maybe_evict_cached_block :: "block_ref \<Rightarrow> block_pool \<Rightarrow> bool \<times> block_pool" where
  "maybe_evict_cached_block b p =
     (case remove_cached_block_hashes b p of
        (evicted, p1) \<Rightarrow>
          if evicted = [] then (False, p1) else (True, emit_block_removed_events evicted p1))"

section \<open>Allocation and release\<close>

definition get_num_free_blocks :: "block_pool \<Rightarrow> int" where
  "get_num_free_blocks p = num_free_blocks (free_block_queue p)"

definition allocate_block :: "block_ref \<Rightarrow> block_pool \<Rightarrow> block_pool result" where
  "allocate_block b p =
     (let p1 = (if enable_caching p then snd (maybe_evict_cached_block b p) else p)
      in py_assert (ref_cnt (blocks p1 b) = 0)
           (Inr (upd_block b (\<lambda>blk. blk\<lparr>ref_cnt := ref_cnt blk + 1\<rparr>) p1)))"

definition get_new_blocks :: "int \<Rightarrow> block_pool \<Rightarrow> (block_ref list \<times> block_pool) result" where
  "get_new_blocks num_blocks p =
     (if num_blocks > get_num_free_blocks p then Inl ValueError
      else rbind (popleft_n num_blocks (free_block_queue p)) (\<lambda>(ret, q).
             rbind (rfold allocate_block ret (p\<lparr>free_block_queue := q\<rparr>)) (\<lambda>p1. Inr (ret, p1))))"

definition touch_block :: "block_ref \<Rightarrow> block_pool \<Rightarrow> block_pool result" where
  "touch_block b p =
     rbind (if ref_cnt (blocks p b) = 0 \<and> \<not> is_null (blocks p b)
            then rbind (remove_q b (free_block_queue p)) (\<lambda>q. Inr (p\<lparr>free_block_queue := q\<rparr>))
            else Inr p)
       (\<lambda>p1. Inr (upd_block b (\<lambda>blk. blk\<lparr>ref_cnt := ref_cnt blk + 1\<rparr>) p1))"

definition touch :: "block_ref list \<Rightarrow> block_pool \<Rightarrow> block_pool result" where
  "touch bs p = rfold touch_block bs p"

text \<open>The loop of \<open>free_blocks\<close>: the state, the blocks with a hash and the blocks without one.\<close>

fun free_loop :: "block_ref list \<Rightarrow> block_ref list \<Rightarrow> block_ref list \<Rightarrow> block_pool \<Rightarrow>
    block_ref list \<times> block_ref list \<times> block_pool" where
  "free_loop [] with_hash without_hash p = (with_hash, without_hash, p)"
| "free_loop (b # bs) with_hash without_hash p =
     (let p1 = upd_block b (\<lambda>blk. blk\<lparr>ref_cnt := ref_cnt blk - 1\<rparr>) p
      in if ref_cnt (blocks p1 b) = 0 \<and> \<not> is_null (blocks p1 b)
         then if bhash (blocks p1 b) = None \<and> enable_caching p1
              then free_loop bs with_hash (without_hash @ [b]) p1
              else free_loop bs (with_hash @ [b]) without_hash p1
         else free_loop bs with_hash without_hash p1)"

definition free_blocks :: "block_ref list \<Rightarrow> block_pool \<Rightarrow> block_pool result" where
  "free_blocks ordered_blocks p =
     (case free_loop ordered_blocks [] [] p of
        (with_hash, without_hash, p1) \<Rightarrow>
          rbind (prepend_n without_hash (free_block_queue p1)) (\<lambda>q1.
          rbind (append_n with_hash q1) (\<lambda>q2. Inr (p1\<lparr>free_block_queue := q2\<rparr>))))"

definition evict_blocks :: "int list \<Rightarrow> block_pool \<Rightarrow> block_pool result" where
  "evict_blocks block_ids p =
     rfold (\<lambda>bid p. py_assert (bid < int (length (all_blocks p)))
              (rbind (py_nth (all_blocks p) bid) (\<lambda>b. Inr (snd (maybe_evict_cached_block b p)))))
       block_ids p"

definition reset_prefix_cache :: "block_pool \<Rightarrow> bool \<times> block_pool" where
  "reset_prefix_cache p =
     (if num_gpu_blocks p - get_num_free_blocks p \<noteq> 1 then (False, p)
      else (let p1 = p\<lparr>cached_block_hash_to_block := empty_map, cached_block_hashes_by_block := (\<lambda>_. None)\<rparr>;
                p2 = fold (\<lambda>b. upd_block b reset_hash) (all_blocks p1) p1
            in (True, if enable_kv_cache_events p2 then add_events [AllBlocksCleared] p2 else p2)))"

definition get_usage :: "block_pool \<Rightarrow> rat" where
  "get_usage p =
     (let total_gpu_blocks = num_gpu_blocks p - 1
      in if total_gpu_blocks = 0 then 0
         else 1 - rat_of_int (get_num_free_blocks p) / rat_of_int total_gpu_blocks)"

definition take_events :: "block_pool \<Rightarrow> kv_cache_event list \<times> block_pool" where
  "take_events p =
     (if \<not> enable_kv_cache_events p then ([], p)
      else (kv_event_queue p, p\<lparr>kv_event_queue := []\<rparr>))"

section \<open>Caching full and partial blocks\<close>

definition build_block_stored_event ::
  "request \<Rightarrow> external_block_hash list \<Rightarrow> external_block_hash option \<Rightarrow> int \<Rightarrow> int \<Rightarrow> int \<Rightarrow> int \<Rightarrow>
   extra_key list option list \<Rightarrow> kv_cache_event" where
  "build_block_stored_event r hashes parent start_token_idx end_token_idx block_size group_id extra_keys_list =
     BlockStored
       \<lparr>ev_block_hashes = hashes, ev_parent_block_hash = parent,
        ev_token_ids = py_slice (all_token_ids r) start_token_idx end_token_idx,
        ev_block_size = block_size, ev_lora_id = map_option lora_int_id (lora_request r),
        ev_medium = ''GPU'', ev_lora_name = map_option lora_name (lora_request r),
        ev_extra_keys = (if extra_keys_list \<noteq> [] then Some extra_keys_list else None),
        ev_group_idx = group_id\<rparr>"

definition masked_out :: "bool list option \<Rightarrow> nat \<Rightarrow> bool" where
  "masked_out bmask i = (case bmask of None \<Rightarrow> False | Some bm \<Rightarrow> \<not> bm ! i)"

text \<open>One iteration of the loop of \<open>cache_full_blocks\<close>.\<close>

definition cache_one_full_block ::
  "bytes list \<Rightarrow> int \<Rightarrow> int \<Rightarrow> int \<Rightarrow> bool list option \<Rightarrow> nat \<times> block_ref \<Rightarrow>
   block_pool \<times> external_block_hash list \<Rightarrow> (block_pool \<times> external_block_hash list) result" where
  "cache_one_full_block new_block_hashes num_cached block_size group_id bmask ib st =
     (case ib of (i, blk) \<Rightarrow> case st of (p, new_hashes) \<Rightarrow>
        if is_null (blocks p blk) \<or> masked_out bmask i then Inr (p, new_hashes)
        else rbind (py_nth new_block_hashes (int i)) (\<lambda>block_hash.
          let num_hash_tokens = (num_cached + int i + 1) * block_size
          in rbind (make_block_hash_with_group_id block_hash group_id) (\<lambda>key.
             rbind (if bhash (blocks p blk) \<noteq> None
                    then py_assert (case bhash_num_tokens (blocks p blk) of
                                      None \<Rightarrow> False | Some n \<Rightarrow> n < num_hash_tokens)
                           (case remove_cached_block_hashes blk p of
                              (removed, p1) \<Rightarrow> Inr (emit_block_removed_events removed p1))
                    else Inr p) (\<lambda>p1.
             rbind (insert_block_hash key blk (Some num_hash_tokens) p1) (\<lambda>p2.
             Inr (p2, if enable_kv_cache_events p2
                      then new_hashes @ [maybe_convert_block_hash (use_int_block_hashes p2) block_hash]
                      else new_hashes))))))"

text \<open>The extra keys of the blocks from \<open>i\<close> on, with the feature position and the request threaded.\<close>

definition stored_extra_keys ::
  "(bytes \<Rightarrow> bytes) \<Rightarrow> block_ref list \<Rightarrow> int \<Rightarrow> int \<Rightarrow> bool list option \<Rightarrow> block_pool \<Rightarrow> int \<Rightarrow>
   extra_key list option list \<times> int \<times> request \<Rightarrow> (extra_key list option list \<times> int \<times> request) result" where
  "stored_extra_keys sha256 bs num_cached block_size bmask p i st =
     (case st of (keys, mm_idx, r) \<Rightarrow>
        rbind (py_nth bs i) (\<lambda>b.
          if is_null (blocks p b) \<or> masked_out bmask (nat (i - num_cached)) then Inr (keys, mm_idx, r)
          else rbind (generate_block_hash_extra_keys sha256 r (i * block_size) (i * block_size + block_size) mm_idx)
                 (\<lambda>((k, mm_idx'), r'). Inr (keys @ [k], mm_idx', r'))))"

definition cache_full_blocks ::
  "(bytes \<Rightarrow> bytes) \<Rightarrow> request \<Rightarrow> block_ref list \<Rightarrow> int \<Rightarrow> int \<Rightarrow> int \<Rightarrow> int \<Rightarrow> bool list option \<Rightarrow>
   block_pool \<Rightarrow> (request \<times> block_pool) result" where
  "cache_full_blocks sha256 r bs num_cached num_full block_size group_id bmask p =
     (if num_cached \<ge> num_full then Inr (r, p)
      else (let new_full_blocks = py_slice bs num_cached num_full
            in py_assert (case bmask of None \<Rightarrow> True | Some bm \<Rightarrow> length bm = length new_full_blocks)
              (rbind (resolve_block_hashes (Raw_hashes (block_hashes r)) (hash_block_size p) block_size False None) (\<lambda>v.
               rbind (view_slice v num_cached (view_len v)) (\<lambda>new_block_hashes.
               rbind (rfold (cache_one_full_block new_block_hashes num_cached block_size group_id bmask)
                        (enumerate 0 new_full_blocks) (p, [])) (\<lambda>(p1, new_hashes).
               if \<not> enable_kv_cache_events p1 then Inr (r, p1)
               else rbind (if num_cached = 0 then Inr None
                           else rbind (view_get v (num_cached - 1))
                                  (\<lambda>h. Inr (Some (maybe_convert_block_hash (use_int_block_hashes p1) h)))) (\<lambda>parent.
                    rbind (rfold (stored_extra_keys sha256 bs num_cached block_size bmask p1)
                             [num_cached..num_full - 1] ([], 0, r)) (\<lambda>(keys, mm_idx, r1).
                    Inr (r1, add_events [build_block_stored_event r1 new_hashes parent
                               (num_cached * block_size) (num_full * block_size) block_size group_id keys] p1)))))))))"

definition emit_cached_block_events ::
  "(bytes \<Rightarrow> bytes) \<Rightarrow> request \<Rightarrow> int \<Rightarrow> int \<Rightarrow> int \<Rightarrow> block_pool \<Rightarrow> (request \<times> block_pool) result" where
  "emit_cached_block_events sha256 r num_cached block_size group_id p =
     (if \<not> enable_kv_cache_events p \<or> num_cached = 0 then Inr (r, p)
      else rbind (resolve_block_hashes (Raw_hashes (block_hashes r)) (hash_block_size p) block_size False None) (\<lambda>v.
           rbind (rfold (\<lambda>i (hashes, keys, mm_idx, r).
                    rbind (view_get v i) (\<lambda>h.
                    rbind (generate_block_hash_extra_keys sha256 r (i * block_size) (i * block_size + block_size) mm_idx)
                      (\<lambda>((k, mm_idx'), r'). Inr (hashes @ [maybe_convert_block_hash (use_int_block_hashes p) h],
                                                 keys @ [k], mm_idx', r'))))
                  [0..num_cached - 1] ([], [], 0, r)) (\<lambda>(hashes, keys, mm_idx, r1).
           if hashes = [] then Inr (r1, p)
           else Inr (r1, add_events [build_block_stored_event r1 hashes None 0 (num_cached * block_size)
                                       block_size group_id keys] p))))"

definition get_partial_block_hash :: "request \<Rightarrow> int \<Rightarrow> block_pool \<Rightarrow> bytes result" where
  "get_partial_block_hash r num_toks p =
     py_assert (num_toks mod hash_block_size p = 0)
       (let num_hash_blocks = num_toks div hash_block_size p
        in py_assert (0 < num_hash_blocks \<and> num_hash_blocks \<le> int (length (block_hashes r)))
             (py_nth (block_hashes r) (num_hash_blocks - 1)))"

definition get_partial_block_parent_hash_and_start ::
  "request \<Rightarrow> int \<Rightarrow> block_pool \<Rightarrow> (bytes option \<times> int) result" where
  "get_partial_block_parent_hash_and_start r num_toks p =
     (let num_hash_blocks = num_toks div hash_block_size p
      in rbind (if num_hash_blocks > 1 then rbind (py_nth (block_hashes r) (num_hash_blocks - 2)) (\<lambda>h. Inr (Some h))
                else Inr None)
           (\<lambda>parent. Inr (parent, (num_hash_blocks - 1) * hash_block_size p)))"

definition partial_stored_event ::
  "bool \<Rightarrow> request \<Rightarrow> bytes \<Rightarrow> bytes option \<Rightarrow> int \<Rightarrow> int \<Rightarrow> int \<Rightarrow> extra_key list option \<Rightarrow> kv_cache_event" where
  "partial_stored_event use_int r block_hash parent block_start block_end group_id keys =
     BlockStored
       \<lparr>ev_block_hashes = [maybe_convert_block_hash use_int block_hash],
        ev_parent_block_hash = map_option (maybe_convert_block_hash use_int) parent,
        ev_token_ids = py_slice (all_token_ids r) block_start block_end,
        ev_block_size = block_end - block_start,
        ev_lora_id = map_option lora_int_id (lora_request r), ev_medium = ''GPU'',
        ev_lora_name = map_option lora_name (lora_request r),
        ev_extra_keys = Some [keys], ev_group_idx = group_id\<rparr>"

definition cache_partial_block ::
  "(bytes \<Rightarrow> bytes) \<Rightarrow> request \<Rightarrow> block_ref \<Rightarrow> int \<Rightarrow> int \<Rightarrow> int \<Rightarrow> block_pool \<Rightarrow>
   (bytes option \<times> request \<times> block_pool) result" where
  "cache_partial_block sha256 r b num_toks group_id block_size p =
     (if is_null (blocks p b) then Inr (None, r, p)
      else py_assert (block_size > hash_block_size p)
        (py_assert (block_size mod hash_block_size p = 0)
        (py_assert (num_toks mod block_size \<noteq> 0)
        (rbind (get_partial_block_hash r num_toks p) (\<lambda>block_hash.
         let num_hash_blocks = num_toks div hash_block_size p
         in rbind (make_block_hash_with_group_id block_hash group_id) (\<lambda>key.
            let already_cached = bhash (blocks p b) = Some key \<or>
                                 contain key (block_id b) (cached_block_hash_to_block p);
                p1 = (if \<not> already_cached \<and> bhash (blocks p b) \<noteq> None \<and>
                         (case bhash_num_tokens (blocks p b) of
                            None \<Rightarrow> False | Some n \<Rightarrow> n < num_hash_blocks * hash_block_size p)
                      then (case remove_cached_block_hashes b p of
                              (removed, p0) \<Rightarrow> emit_block_removed_events removed p0)
                      else p)
            in rbind (insert_block_hash key b (Some (num_hash_blocks * hash_block_size p)) p1) (\<lambda>p2.
               if enable_kv_cache_events p2 \<and> \<not> already_cached
               then rbind (get_partial_block_parent_hash_and_start r num_toks p2) (\<lambda>(parent, block_start).
                    rbind (generate_block_hash_extra_keys sha256 r block_start num_toks
                             (if block_start > 0 then -1 else 0)) (\<lambda>((keys, mm_idx), r1).
                    Inr (Some key, r1, add_events [partial_stored_event (use_int_block_hashes p2) r1 block_hash
                                               parent block_start num_toks group_id keys] p2)))
               else Inr (Some key, r, p2))))))))"

section \<open>The invariant\<close>

text \<open>
  \<open>index_ok\<close>: the lookup table holds exactly the keys the blocks themselves carry, a block without a
  primary key carries no other, and the null block carries none.
\<close>

definition index_ok :: "block_pool \<Rightarrow> bool" where
  "index_ok p \<longleftrightarrow>
     map_ok (cached_block_hash_to_block p) \<and>
     (\<forall>k b. maps_to (cached_block_hash_to_block p) k b \<longleftrightarrow> b \<in> set (all_blocks p) \<and> k \<in> set (block_keys b p)) \<and>
     (\<forall>b\<in>set (all_blocks p). distinct (block_keys b p)) \<and>
     (\<forall>b\<in>set (all_blocks p). bhash (blocks p b) = None \<longrightarrow>
        bhash_num_tokens (blocks p b) = None \<and> cached_block_hashes_by_block p (block_id b) = None) \<and>
     bhash (blocks p (Block 0)) = None"

text \<open>
  \<open>queue_ok pend xs\<close>: the free queue holds the blocks \<open>xs\<close>; these and the blocks \<open>pend\<close>, which an
  operation in progress has taken out or will put in, are the blocks other than the null block that
  nobody references.
\<close>

definition queue_ok :: "block_ref set \<Rightarrow> block_ref list \<Rightarrow> block_pool \<Rightarrow> bool" where
  "queue_ok pend xs p \<longleftrightarrow>
     num_gpu_blocks p > 0 \<and> null_block p = Block 0 \<and>
     (\<forall>b. is_null (blocks p b) \<longleftrightarrow> b = Block 0) \<and>
     free_list (free_block_queue p) xs \<and> set xs \<inter> pend = {} \<and>
     (\<forall>b. b \<in> set xs \<union> pend \<longleftrightarrow> b \<in> set (all_blocks p) \<and> b \<noteq> Block 0 \<and> ref_cnt (blocks p b) = 0) \<and>
     (\<forall>b\<in>set (all_blocks p). b \<noteq> Block 0 \<longrightarrow> 0 \<le> ref_cnt (blocks p b))"

definition pool_inv :: "block_ref list \<Rightarrow> block_pool \<Rightarrow> bool" where
  "pool_inv xs p \<longleftrightarrow> queue_ok {} xs p \<and> index_ok p"

text \<open>Two states with the same allocation of blocks.\<close>

definition same_alloc :: "block_pool \<Rightarrow> block_pool \<Rightarrow> bool" where
  "same_alloc p p' \<longleftrightarrow>
     num_gpu_blocks p' = num_gpu_blocks p \<and> enable_caching p' = enable_caching p \<and>
     hash_block_size p' = hash_block_size p \<and> free_block_queue p' = free_block_queue p \<and>
     null_block p' = null_block p \<and> enable_kv_cache_events p' = enable_kv_cache_events p \<and>
     use_int_block_hashes p' = use_int_block_hashes p \<and>
     (\<forall>b. ref_cnt (blocks p' b) = ref_cnt (blocks p b) \<and> is_null (blocks p' b) = is_null (blocks p b))"

text \<open>Two states with the same cached keys.\<close>

definition same_index :: "block_pool \<Rightarrow> block_pool \<Rightarrow> bool" where
  "same_index p p' \<longleftrightarrow>
     num_gpu_blocks p' = num_gpu_blocks p \<and> cached_block_hash_to_block p' = cached_block_hash_to_block p \<and>
     cached_block_hashes_by_block p' = cached_block_hashes_by_block p \<and>
     (\<forall>b. bhash (blocks p' b) = bhash (blocks p b) \<and> bhash_num_tokens (blocks p' b) = bhash_num_tokens (blocks p b))"

lemma upd_block_simps [simp]:
  "blocks (upd_block b f p) = (blocks p)(b := f (blocks p b))"
  "num_gpu_blocks (upd_block b f p) = num_gpu_blocks p"
  "enable_caching (upd_block b f p) = enable_caching p"
  "hash_block_size (upd_block b f p) = hash_block_size p"
  "free_block_queue (upd_block b f p) = free_block_queue p"
  "cached_block_hash_to_block (upd_block b f p) = cached_block_hash_to_block p"
  "cached_block_hashes_by_block (upd_block b f p) = cached_block_hashes_by_block p"
  "null_block (upd_block b f p) = null_block p"
  "enable_kv_cache_events (upd_block b f p) = enable_kv_cache_events p"
  "use_int_block_hashes (upd_block b f p) = use_int_block_hashes p"
  "kv_event_queue (upd_block b f p) = kv_event_queue p"
  by (simp_all add: upd_block_def)

lemma same_alloc_refl [simp]: "same_alloc p p"
  by (simp add: same_alloc_def)

lemma same_alloc_trans: "same_alloc p q \<Longrightarrow> same_alloc q r \<Longrightarrow> same_alloc p r"
  by (simp add: same_alloc_def)

lemma same_index_refl [simp]: "same_index p p"
  by (simp add: same_index_def)

lemma same_index_trans: "same_index p q \<Longrightarrow> same_index q r \<Longrightarrow> same_index p r"
  by (simp add: same_index_def)

lemma same_alloc_all_blocks: "same_alloc p p' \<Longrightarrow> all_blocks p' = all_blocks p"
  by (simp add: all_blocks_def same_alloc_def)

lemma all_blocks_is_block: "b \<in> set (all_blocks p) \<Longrightarrow> is_block b"
  by (auto simp: all_blocks_def)

lemma distinct_all_blocks [simp]: "distinct (all_blocks p)"
  by (simp add: all_blocks_def distinct_map inj_on_def)

lemma queue_ok_same_alloc: "same_alloc p p' \<Longrightarrow> queue_ok pend xs p \<Longrightarrow> queue_ok pend xs p'"
  by (simp add: same_alloc_def queue_ok_def all_blocks_def)

lemma block_keys_same_index: "same_index p p' \<Longrightarrow> block_keys b p' = block_keys b p"
  by (simp add: same_index_def block_keys_def)

lemma index_ok_same_index: "same_index p p' \<Longrightarrow> index_ok p \<Longrightarrow> index_ok p'"
  unfolding index_ok_def by (simp add: block_keys_same_index) (simp add: same_index_def all_blocks_def)

lemma index_okD:
  assumes "index_ok p"
  shows "map_ok (cached_block_hash_to_block p)"
    and "maps_to (cached_block_hash_to_block p) k b \<longleftrightarrow> b \<in> set (all_blocks p) \<and> k \<in> set (block_keys b p)"
    and "b \<in> set (all_blocks p) \<Longrightarrow> distinct (block_keys b p)"
    and "b \<in> set (all_blocks p) \<Longrightarrow> bhash (blocks p b) = None \<Longrightarrow>
      bhash_num_tokens (blocks p b) = None \<and> cached_block_hashes_by_block p (block_id b) = None"
    and "bhash (blocks p (Block 0)) = None"
  using assms by (auto simp: index_ok_def)

lemma block_keys_empty_iff:
  "index_ok p \<Longrightarrow> b \<in> set (all_blocks p) \<Longrightarrow> block_keys b p = [] \<longleftrightarrow> bhash (blocks p b) = None"
  using index_okD(4)[of p b] by (auto simp: block_keys_def split: option.splits)

section \<open>Hash bookkeeping keeps the invariant\<close>

lemma emit_block_removed_same:
  "same_alloc p (emit_block_removed_events ks p)" "same_index p (emit_block_removed_events ks p)"
  by (simp_all add: emit_block_removed_events_def add_events_def same_alloc_def same_index_def)

lemma pop_keys_spec:
  "map_ok m \<Longrightarrow> is_block b \<Longrightarrow> distinct ks \<Longrightarrow> (\<And>k. k \<in> set ks \<Longrightarrow> maps_to m k b) \<Longrightarrow>
   pop_keys ks b removed m = (removed @ ks, fold (\<lambda>k m. snd (pop_block k (block_id b) m)) ks m)"
proof (induction ks arbitrary: removed m)
  case Nil
  show ?case by simp
next
  case (Cons k ks)
  let ?m = "snd (pop_block k (block_id b) m)"
  have "fst (pop_block k (block_id b) m) = Some b"
    using Cons.prems bhm.drop_result[of m b k] by simp
  moreover have "pop_keys ks b (removed @ [k]) ?m =
      ((removed @ [k]) @ ks, fold (\<lambda>k m. snd (pop_block k (block_id b) m)) ks ?m)"
    by (rule Cons.IH) (use Cons.prems in \<open>auto simp: bhm.drop_wf bhm.drop_maps\<close>)
  ultimately show ?case
    by (cases "pop_block k (block_id b) m") simp
qed

lemma remove_cached_spec:
  assumes ix: "index_ok p" and b: "b \<in> set (all_blocks p)"
  shows "\<exists>p'. remove_cached_block_hashes b p = (block_keys b p, p') \<and> index_ok p' \<and> same_alloc p p' \<and>
    block_keys b p' = [] \<and> (\<forall>c. c \<in> set (all_blocks p) \<longrightarrow> c \<noteq> b \<longrightarrow>
      block_keys c p' = block_keys c p \<and> bhash (blocks p' c) = bhash (blocks p c)) \<and>
    kv_event_queue p' = kv_event_queue p"
proof -
  let ?m = "cached_block_hash_to_block p" and ?ks = "block_keys b p"
  let ?m' = "fold (\<lambda>k m. snd (pop_block k (block_id b) m)) ?ks ?m"
  let ?p1 = "p\<lparr>cached_block_hashes_by_block := (cached_block_hashes_by_block p)(block_id b := None)\<rparr>"
  let ?p' = "if ?ks = [] then ?p1 else upd_block b reset_hash (?p1\<lparr>cached_block_hash_to_block := ?m'\<rparr>)"
  have blk: "is_block b" using b by (rule all_blocks_is_block)
  have "pop_keys ?ks b [] ?m = (?ks, ?m')"
    using pop_keys_spec[OF index_okD(1)[OF ix] blk index_okD(3)[OF ix b], of "[]"] index_okD(2)[OF ix] b by simp
  then have eq: "remove_cached_block_hashes b p = (?ks, ?p')"
    by (simp add: remove_cached_block_hashes_def Let_def)
  have m': "map_ok ?m'" "maps_to ?m' k c \<longleftrightarrow> maps_to ?m k c \<and> \<not> (k \<in> set ?ks \<and> c = b)" for k c
    using bhm.fold_drop_wf[OF index_okD(1)[OF ix] blk] bhm.fold_drop_maps[OF index_okD(1)[OF ix] blk] by auto
  have all: "all_blocks ?p' = all_blocks p"
    by (simp add: all_blocks_def)
  have hash_to: "cached_block_hash_to_block ?p' = ?m'"
    by simp
  have keys_b: "block_keys b ?p' = []"
    by (auto simp: block_keys_def reset_hash_def split: option.splits)
  have keys_c: "block_keys c ?p' = block_keys c p \<and> bhash (blocks ?p' c) = bhash (blocks p c) \<and>
      bhash_num_tokens (blocks ?p' c) = bhash_num_tokens (blocks p c) \<and>
      cached_block_hashes_by_block ?p' (block_id c) = cached_block_hashes_by_block p (block_id c)"
    if "c \<in> set (all_blocks p)" "c \<noteq> b" for c
    using that blk all_blocks_is_block[OF that(1)] by (simp add: block_keys_def block_id_inj)
  have b_none: "bhash (blocks ?p' b) = None" "bhash_num_tokens (blocks ?p' b) = None"
    "cached_block_hashes_by_block ?p' (block_id b) = None"
    using index_okD(4)[OF ix b] block_keys_empty_iff[OF ix b] by (auto simp: reset_hash_def)
  have zero: "bhash (blocks ?p' (Block 0)) = None"
    using index_okD(5)[OF ix] by (simp add: reset_hash_def)
  have "index_ok ?p'"
    unfolding index_ok_def all hash_to
  proof (intro conjI ballI allI impI)
    show "map_ok ?m'" by (rule m')
    show "maps_to ?m' k c \<longleftrightarrow> c \<in> set (all_blocks p) \<and> k \<in> set (block_keys c ?p')" for k c
      unfolding m'(2) index_okD(2)[OF ix] using keys_b keys_c by (cases "c = b") auto
    show "distinct (block_keys c ?p')" if "c \<in> set (all_blocks p)" for c
      using keys_b keys_c[OF that] index_okD(3)[OF ix that] by (cases "c = b") auto
    show "bhash_num_tokens (blocks ?p' c) = None"
      if "c \<in> set (all_blocks p)" "bhash (blocks ?p' c) = None" for c
      using that keys_c[OF that(1)] index_okD(4)[OF ix that(1)] b_none by (cases "c = b") auto
    show "cached_block_hashes_by_block ?p' (block_id c) = None"
      if "c \<in> set (all_blocks p)" "bhash (blocks ?p' c) = None" for c
      using that keys_c[OF that(1)] index_okD(4)[OF ix that(1)] b_none by (cases "c = b") auto
  qed (rule zero)
  moreover have "same_alloc p ?p'"
    by (simp add: same_alloc_def reset_hash_def)
  moreover have "kv_event_queue ?p' = kv_event_queue p"
    by simp
  ultimately show ?thesis
    using eq keys_b keys_c by blast
qed

lemma insert_block_hash_spec:
  assumes ix: "index_ok p" and b: "b \<in> set (all_blocks p)" and nz: "b \<noteq> Block 0"
  shows "\<exists>p'. insert_block_hash key b n p = Inr p' \<and> index_ok p' \<and> same_alloc p p' \<and>
    set (block_keys b p') = insert key (set (block_keys b p)) \<and>
    (\<forall>c. c \<in> set (all_blocks p) \<longrightarrow> c \<noteq> b \<longrightarrow> block_keys c p' = block_keys c p) \<and>
    kv_event_queue p' = kv_event_queue p"
proof (cases "key \<in> set (block_keys b p)")
  case True
  then have "maps_to (cached_block_hash_to_block p) key b"
    using index_okD(2)[OF ix] b by simp
  then have "insert_block_hash key b n p = Inr p"
    by (simp add: insert_block_hash_def maps_to_def)
  with ix True show ?thesis by auto
next
  case False
  let ?m = "insert_block key b (cached_block_hash_to_block p)"
  have blk: "is_block b" using b by (rule all_blocks_is_block)
  have nk: "\<not> contain key (block_id b) (cached_block_hash_to_block p)" "bhash (blocks p b) \<noteq> Some key"
    using False index_okD(2)[OF ix, of key b] b blk by (auto simp: maps_to_def block_keys_def)
  define p' where "p' = (if bhash (blocks p b) = None
      then (upd_block b (\<lambda>blk. blk\<lparr>bhash := Some key, bhash_num_tokens := n\<rparr>) p)
      else p\<lparr>cached_block_hashes_by_block := (cached_block_hashes_by_block p)
             (block_id b := Some (set_add key
                (case cached_block_hashes_by_block p (block_id b) of None \<Rightarrow> [] | Some ks \<Rightarrow> ks)))\<rparr>)
      \<lparr>cached_block_hash_to_block := ?m\<rparr>"
  have eq: "insert_block_hash key b n p = Inr p'"
    using nk index_okD(4)[OF ix b]
    by (auto simp: insert_block_hash_def set_block_hash_def p'_def upd_block_def)
  have m: "map_ok ?m" "maps_to ?m k c \<longleftrightarrow> maps_to (cached_block_hash_to_block p) k c \<or> (k = key \<and> c = b)" for k c
    using index_okD(1)[OF ix] blk by (simp_all add: bhm.put_wf bhm.put_maps)
  have all: "all_blocks p' = all_blocks p" and map': "cached_block_hash_to_block p' = ?m"
    by (simp_all add: p'_def all_blocks_def)
  have keys_b: "set (block_keys b p') = insert key (set (block_keys b p))" "distinct (block_keys b p')"
    "bhash (blocks p' b) \<noteq> None"
    using False index_okD(3,4)[OF ix b]
    by (auto simp: p'_def block_keys_def set_add_def split: option.splits)
  have keys_c: "block_keys c p' = block_keys c p \<and> bhash (blocks p' c) = bhash (blocks p c) \<and>
      bhash_num_tokens (blocks p' c) = bhash_num_tokens (blocks p c) \<and>
      cached_block_hashes_by_block p' (block_id c) = cached_block_hashes_by_block p (block_id c)"
    if "c \<in> set (all_blocks p)" "c \<noteq> b" for c
    using that blk all_blocks_is_block[OF that(1)] by (auto simp: p'_def block_keys_def block_id_inj)
  have "index_ok p'"
    unfolding index_ok_def all map'
  proof (intro conjI ballI allI impI)
    show "map_ok ?m" by (rule m)
    show "maps_to ?m k c \<longleftrightarrow> c \<in> set (all_blocks p) \<and> k \<in> set (block_keys c p')" for k c
      unfolding m(2) index_okD(2)[OF ix] using keys_b keys_c b by (cases "c = b") auto
    show "distinct (block_keys c p')" if "c \<in> set (all_blocks p)" for c
      using keys_b keys_c[OF that] index_okD(3)[OF ix that] by (cases "c = b") auto
    show "bhash_num_tokens (blocks p' c) = None" "cached_block_hashes_by_block p' (block_id c) = None"
      if "c \<in> set (all_blocks p)" "bhash (blocks p' c) = None" for c
      using that keys_c[OF that(1)] index_okD(4)[OF ix that(1)] keys_b by (cases "c = b"; auto)+
    show "bhash (blocks p' (Block 0)) = None"
      using index_okD(5)[OF ix] nz by (simp add: p'_def)
  qed
  moreover have "same_alloc p p'" "kv_event_queue p' = kv_event_queue p"
    by (auto simp: same_alloc_def p'_def)
  ultimately show ?thesis
    using eq keys_b keys_c by blast
qed

lemma maybe_evict_spec:
  assumes "index_ok p" and "b \<in> set (all_blocks p)"
  shows "\<exists>p'. maybe_evict_cached_block b p = (block_keys b p \<noteq> [], p') \<and> index_ok p' \<and> same_alloc p p' \<and>
    block_keys b p' = [] \<and> (\<forall>c. c \<in> set (all_blocks p) \<longrightarrow> c \<noteq> b \<longrightarrow> block_keys c p' = block_keys c p)"
proof -
  obtain p1 where p1: "remove_cached_block_hashes b p = (block_keys b p, p1)" "index_ok p1" "same_alloc p p1"
    "block_keys b p1 = []" "\<forall>c. c \<in> set (all_blocks p) \<longrightarrow> c \<noteq> b \<longrightarrow> block_keys c p1 = block_keys c p"
    using remove_cached_spec[OF assms] by blast
  let ?p2 = "if block_keys b p = [] then p1 else emit_block_removed_events (block_keys b p) p1"
  have same: "same_alloc p1 ?p2" "same_index p1 ?p2"
    using emit_block_removed_same by simp_all
  have "maybe_evict_cached_block b p = (block_keys b p \<noteq> [], ?p2)"
    by (simp add: maybe_evict_cached_block_def p1)
  moreover have "index_ok ?p2"
    by (rule index_ok_same_index[OF same(2) p1(2)])
  moreover have "same_alloc p ?p2"
    by (rule same_alloc_trans[OF p1(3) same(1)])
  ultimately show ?thesis
    using p1(4,5) block_keys_same_index[OF same(2)] by auto
qed

lemma insert_many_spec:
  assumes "index_ok p" and "b \<in> set (all_blocks p)" and "b \<noteq> Block 0"
  shows "\<exists>p'. rfold (\<lambda>k. insert_block_hash k b n) ks p = Inr p' \<and> index_ok p' \<and> same_alloc p p' \<and>
    set (block_keys b p') = set ks \<union> set (block_keys b p) \<and>
    (\<forall>c. c \<in> set (all_blocks p) \<longrightarrow> c \<noteq> b \<longrightarrow> block_keys c p' = block_keys c p) \<and>
    kv_event_queue p' = kv_event_queue p"
  using assms(1,2)
proof (induction ks arbitrary: p)
  case Nil
  then show ?case by auto
next
  case (Cons k ks)
  obtain p1 where p1: "insert_block_hash k b n p = Inr p1" "index_ok p1" "same_alloc p p1"
    "set (block_keys b p1) = insert k (set (block_keys b p))"
    "\<forall>c. c \<in> set (all_blocks p) \<longrightarrow> c \<noteq> b \<longrightarrow> block_keys c p1 = block_keys c p"
    "kv_event_queue p1 = kv_event_queue p"
    using insert_block_hash_spec[OF Cons.prems(1,2) assms(3)] by blast
  have all: "all_blocks p1 = all_blocks p"
    by (rule same_alloc_all_blocks[OF p1(3)])
  obtain p2 where "rfold (\<lambda>k. insert_block_hash k b n) ks p1 = Inr p2" "index_ok p2" "same_alloc p1 p2"
    "set (block_keys b p2) = set ks \<union> set (block_keys b p1)"
    "\<forall>c. c \<in> set (all_blocks p1) \<longrightarrow> c \<noteq> b \<longrightarrow> block_keys c p2 = block_keys c p1"
    "kv_event_queue p2 = kv_event_queue p1"
    using Cons.IH[OF p1(2)] Cons.prems(2) all by auto
  then show ?case
    using p1 all same_alloc_trans[OF p1(3)] by (intro exI[of _ p2]) auto
qed

lemma move_block_hashes_spec:
  assumes "index_ok p" and "src \<in> set (all_blocks p)" and "dst \<in> set (all_blocks p)"
    and "dst \<noteq> Block 0" and "bhash (blocks p dst) = None" and "src \<noteq> dst"
  shows "\<exists>p'. move_block_hashes src dst p = Inr p' \<and> index_ok p' \<and> same_alloc p p' \<and>
    block_keys src p' = [] \<and> set (block_keys dst p') = set (block_keys src p) \<and>
    (\<forall>c. c \<in> set (all_blocks p) \<longrightarrow> c \<noteq> src \<longrightarrow> c \<noteq> dst \<longrightarrow> block_keys c p' = block_keys c p) \<and>
    kv_event_queue p' = kv_event_queue p"
proof -
  obtain p1 where p1: "remove_cached_block_hashes src p = (block_keys src p, p1)" "index_ok p1" "same_alloc p p1"
    "block_keys src p1 = []"
    "\<And>c. c \<in> set (all_blocks p) \<Longrightarrow> c \<noteq> src \<Longrightarrow> block_keys c p1 = block_keys c p"
    "kv_event_queue p1 = kv_event_queue p"
    using remove_cached_spec[OF assms(1,2)] by blast
  have all: "all_blocks p1 = all_blocks p"
    by (rule same_alloc_all_blocks[OF p1(3)])
  have dst: "block_keys dst p = []" "cached_block_hashes_by_block p (block_id dst) = None"
    using block_keys_empty_iff[OF assms(1,3)] index_okD(4)[OF assms(1,3)] assms(5) by simp_all
  have dst1: "block_keys dst p1 = []"
    using p1(5)[OF assms(3)] assms(6) dst(1) by simp
  obtain p2 where p2: "rfold (\<lambda>k. insert_block_hash k dst (bhash_num_tokens (blocks p src))) (block_keys src p) p1 = Inr p2"
    "index_ok p2" "same_alloc p1 p2" "set (block_keys dst p2) = set (block_keys src p)"
    "\<And>c. c \<in> set (all_blocks p) \<Longrightarrow> c \<noteq> dst \<Longrightarrow> block_keys c p2 = block_keys c p1"
    "kv_event_queue p2 = kv_event_queue p1"
    using insert_many_spec[OF p1(2) _ assms(4), of "bhash_num_tokens (blocks p src)" "block_keys src p"]
      assms(3) all dst1 by auto
  have "move_block_hashes src dst p = Inr p2"
    using assms(5) dst(2) p1(1) p2(1) by (simp add: move_block_hashes_def)
  then show ?thesis
    using p1 p2 same_alloc_trans[OF p1(3) p2(3)] assms(2,6) by (intro exI[of _ p2]) auto
qed

section \<open>Allocation and release keep the invariant\<close>

text \<open>A change confined to the blocks of \<open>B\<close>.\<close>

definition frame :: "block_ref set \<Rightarrow> block_pool \<Rightarrow> block_pool \<Rightarrow> bool" where
  "frame B p p' \<longleftrightarrow>
     num_gpu_blocks p' = num_gpu_blocks p \<and> enable_caching p' = enable_caching p \<and>
     hash_block_size p' = hash_block_size p \<and> enable_kv_cache_events p' = enable_kv_cache_events p \<and>
     (\<forall>c\<in>set (all_blocks p). c \<notin> B \<longrightarrow>
        ref_cnt (blocks p' c) = ref_cnt (blocks p c) \<and> block_keys c p' = block_keys c p)"

lemma frame_refl [simp]: "frame B p p"
  by (simp add: frame_def)

lemma frame_trans: "frame B p q \<Longrightarrow> frame B q r \<Longrightarrow> frame B p r"
  by (simp add: frame_def all_blocks_def)

lemma frame_mono: "frame B p q \<Longrightarrow> B \<subseteq> C \<Longrightarrow> frame C p q"
  by (auto simp: frame_def)

lemma frame_all_blocks: "frame B p p' \<Longrightarrow> all_blocks p' = all_blocks p"
  by (simp add: frame_def all_blocks_def)

lemma same_index_set_ref: "same_index p (upd_block b (\<lambda>blk. blk\<lparr>ref_cnt := g blk\<rparr>) p)"
  by (simp add: same_index_def)

lemma same_index_set_queue: "same_index p (p\<lparr>free_block_queue := q\<rparr>)"
  by (simp add: same_index_def)

lemma queue_okD:
  assumes "queue_ok pend xs p"
  shows "free_list (free_block_queue p) xs" and "is_null (blocks p b) \<longleftrightarrow> b = Block 0"
    and "b \<in> set xs \<Longrightarrow> b \<in> set (all_blocks p) \<and> b \<noteq> Block 0 \<and> ref_cnt (blocks p b) = 0 \<and> b \<notin> pend"
    and "b \<in> pend \<Longrightarrow> b \<in> set (all_blocks p) \<and> b \<noteq> Block 0 \<and> ref_cnt (blocks p b) = 0 \<and> b \<notin> set xs"
    and "b \<in> set (all_blocks p) \<Longrightarrow> b \<noteq> Block 0 \<Longrightarrow> ref_cnt (blocks p b) = 0 \<Longrightarrow> b \<in> set xs \<union> pend"
    and "b \<in> set (all_blocks p) \<Longrightarrow> b \<noteq> Block 0 \<Longrightarrow> 0 \<le> ref_cnt (blocks p b)"
    and "distinct xs"
proof -
  show "free_list (free_block_queue p) xs" and "distinct xs"
    using assms free_list_distinct by (auto simp: queue_ok_def)
  show "is_null (blocks p b) \<longleftrightarrow> b = Block 0"
    using assms by (simp add: queue_ok_def)
qed (use assms in \<open>unfold queue_ok_def, blast+\<close>)

lemma queue_ok_alloc:
  assumes "queue_ok pend xs p" and "b \<in> pend"
  shows "queue_ok (pend - {b}) xs (upd_block b (\<lambda>blk. blk\<lparr>ref_cnt := ref_cnt blk + 1\<rparr>) p)"
proof -
  note q = queue_okD[OF assms(1)]
  have "b \<notin> set xs" "ref_cnt (blocks p b) = 0" using q(4)[OF assms(2)] by simp_all
  then show ?thesis
    using assms unfolding queue_ok_def by (simp add: all_blocks_def) blast
qed

lemma allocate_block_spec:
  assumes q: "queue_ok pend xs p" and ix: "index_ok p" and b: "b \<in> pend"
  shows "\<exists>p'. allocate_block b p = Inr p' \<and> queue_ok (pend - {b}) xs p' \<and> index_ok p' \<and> frame {b} p p' \<and>
    ref_cnt (blocks p' b) = 1 \<and> block_keys b p' = (if enable_caching p then [] else block_keys b p)"
proof -
  have ball: "b \<in> set (all_blocks p)" and zero: "ref_cnt (blocks p b) = 0"
    using queue_okD(4)[OF q b] by simp_all
  obtain p1 where p1: "maybe_evict_cached_block b p = (block_keys b p \<noteq> [], p1)" "index_ok p1" "same_alloc p p1"
    "block_keys b p1 = []" "\<forall>c. c \<in> set (all_blocks p) \<longrightarrow> c \<noteq> b \<longrightarrow> block_keys c p1 = block_keys c p"
    using maybe_evict_spec[OF ix ball] by blast
  define pe where "pe = (if enable_caching p then p1 else p)"
  have pe: "index_ok pe" "same_alloc p pe" "block_keys b pe = (if enable_caching p then [] else block_keys b p)"
    "\<forall>c. c \<in> set (all_blocks p) \<longrightarrow> c \<noteq> b \<longrightarrow> block_keys c pe = block_keys c p"
    using p1 ix by (auto simp: pe_def)
  let ?p' = "upd_block b (\<lambda>blk. blk\<lparr>ref_cnt := ref_cnt blk + 1\<rparr>) pe"
  have refs: "ref_cnt (blocks pe c) = ref_cnt (blocks p c)" for c
    using pe(2) by (simp add: same_alloc_def)
  have "allocate_block b p = Inr ?p'"
    using refs[of b] zero p1(1) by (cases "enable_caching p") (simp_all add: allocate_block_def pe_def)
  moreover have "queue_ok (pend - {b}) xs ?p'"
    by (rule queue_ok_alloc[OF queue_ok_same_alloc[OF pe(2) q] b])
  moreover have "index_ok ?p'"
    by (rule index_ok_same_index[OF same_index_set_ref pe(1)])
  moreover have keys: "block_keys c ?p' = block_keys c pe" for c
    by (rule block_keys_same_index[OF same_index_set_ref])
  have "frame {b} p ?p'"
    using pe(2,4) refs keys by (simp add: frame_def same_alloc_def)
  ultimately show ?thesis
    using refs zero pe(3) keys by simp
qed

lemma allocate_many_spec:
  assumes "queue_ok pend xs p" and "index_ok p" and "distinct bs" and "set bs \<subseteq> pend"
  shows "\<exists>p'. rfold allocate_block bs p = Inr p' \<and> queue_ok (pend - set bs) xs p' \<and> index_ok p' \<and>
    frame (set bs) p p' \<and> (\<forall>b\<in>set bs. ref_cnt (blocks p' b) = 1 \<and> block_keys b p' = (if enable_caching p then [] else block_keys b p))"
  using assms
proof (induction bs arbitrary: p pend)
  case Nil
  then show ?case by simp
next
  case (Cons b bs)
  obtain p1 where p1: "allocate_block b p = Inr p1" "queue_ok (pend - {b}) xs p1" "index_ok p1" "frame {b} p p1"
    "ref_cnt (blocks p1 b) = 1" "block_keys b p1 = (if enable_caching p then [] else block_keys b p)"
    using allocate_block_spec[OF Cons.prems(1,2)] Cons.prems(4) by auto
  obtain p2 where p2: "rfold allocate_block bs p1 = Inr p2" "queue_ok (pend - {b} - set bs) xs p2" "index_ok p2"
    "frame (set bs) p1 p2" "\<forall>b\<in>set bs. ref_cnt (blocks p2 b) = 1 \<and> block_keys b p2 = (if enable_caching p1 then [] else block_keys b p1)"
    using Cons.IH[OF p1(2,3)] Cons.prems(3,4) by auto
  have b: "b \<in> set (all_blocks p1)" "b \<notin> set bs"
    using queue_okD(4)[OF Cons.prems(1)] Cons.prems(3,4) frame_all_blocks[OF p1(4)] by auto
  have "frame (set (b # bs)) p p2"
    by (rule frame_trans[OF frame_mono[OF p1(4)] frame_mono[OF p2(4)]]) auto
  moreover have "ref_cnt (blocks p2 b) = 1" "block_keys b p2 = (if enable_caching p then [] else block_keys b p)"
    using p2(4) b p1(5,6) by (simp_all add: frame_def)
  moreover have "enable_caching p1 = enable_caching p"
    using p1(4) by (simp add: frame_def)
  moreover have "pend - {b} - set bs = pend - set (b # bs)" by auto
  moreover have "block_keys c p1 = block_keys c p" if "c \<in> set bs" for c
  proof -
    have "c \<in> set (all_blocks p)" using queue_okD(4)[OF Cons.prems(1)] Cons.prems(4) that by auto
    then show ?thesis using p1(4) b(2) that by (auto simp: frame_def)
  qed
  ultimately show ?case
    using p1(1) p2 by (intro exI[of _ p2]) auto
qed

lemma get_new_blocks_spec:
  assumes inv: "pool_inv xs p" and "0 \<le> n" and n: "n \<le> int (length xs)"
  shows "\<exists>p'. get_new_blocks n p = Inr (take (nat n) xs, p') \<and> pool_inv (drop (nat n) xs) p' \<and>
    frame (set (take (nat n) xs)) p p' \<and>
    (\<forall>b\<in>set (take (nat n) xs). ref_cnt (blocks p' b) = 1 \<and> block_keys b p' = (if enable_caching p then [] else block_keys b p))"
proof -
  let ?bs = "take (nat n) xs" and ?ys = "drop (nat n) xs"
  have q: "queue_ok {} xs p" and ix: "index_ok p"
    using inv by (simp_all add: pool_inv_def)
  obtain fq where fq: "popleft_n n (free_block_queue p) = Inr (?bs, fq)" "free_list fq ?ys"
    using fq.rep_pop_n[OF queue_okD(1)[OF q] assms(2) n] by blast
  let ?p0 = "p\<lparr>free_block_queue := fq\<rparr>"
  have dist: "distinct ?bs" "set ?bs \<inter> set ?ys = {}"
    using queue_okD(7)[OF q] by (simp_all add: set_take_disj_set_drop_if_distinct)
  have split: "set xs = set ?bs \<union> set ?ys"
    by (metis append_take_drop_id set_append)
  have q0: "queue_ok (set ?bs) ?ys ?p0"
    using q fq(2) dist(2) unfolding queue_ok_def split by (auto simp: all_blocks_def)
  have ix0: "index_ok ?p0"
    by (rule index_ok_same_index[OF same_index_set_queue ix])
  obtain p' where p': "rfold allocate_block ?bs ?p0 = Inr p'" "queue_ok (set ?bs - set ?bs) ?ys p'" "index_ok p'"
    "frame (set ?bs) ?p0 p'" "\<forall>b\<in>set ?bs. ref_cnt (blocks p' b) = 1 \<and> block_keys b p' = (if enable_caching ?p0 then [] else block_keys b ?p0)"
    using allocate_many_spec[OF q0 ix0 dist(1)] by auto
  have "get_new_blocks n p = Inr (?bs, p')"
    using fq(1) p'(1) free_list_size[OF queue_okD(1)[OF q]] n
    by (simp add: get_new_blocks_def get_num_free_blocks_def)
  moreover have "frame (set ?bs) p p'"
    using p'(4) by (simp add: frame_def all_blocks_def block_keys_def)
  ultimately show ?thesis
    using p' by (simp add: pool_inv_def block_keys_def)
qed

lemma get_new_blocks_short:
  "pool_inv xs p \<Longrightarrow> int (length xs) < n \<Longrightarrow> get_new_blocks n p = Inl ValueError"
  using free_list_size[OF queue_okD(1)[of "{}" xs p]]
  by (simp add: get_new_blocks_def get_num_free_blocks_def pool_inv_def)

lemma touch_block_spec:
  assumes inv: "pool_inv xs p" and b: "b \<in> set (all_blocks p)"
  shows "\<exists>p'. touch_block b p = Inr p' \<and> pool_inv (remove1 b xs) p' \<and> frame {b} p p' \<and>
    ref_cnt (blocks p' b) = ref_cnt (blocks p b) + 1 \<and> same_index p p'"
proof -
  have q: "queue_ok {} xs p" and ix: "index_ok p"
    using inv by (simp_all add: pool_inv_def)
  note qd = queue_okD[OF q]
  obtain fq where fq: "(if ref_cnt (blocks p b) = 0 \<and> \<not> is_null (blocks p b)
        then rbind (remove_q b (free_block_queue p)) (\<lambda>q. Inr (p\<lparr>free_block_queue := q\<rparr>)) else Inr p)
      = Inr (p\<lparr>free_block_queue := fq\<rparr>)" "free_list fq (remove1 b xs)"
  proof (cases "b \<in> set xs")
    case True
    from fq.rep_del[OF qd(1) True] show ?thesis
      using that qd(2)[of b] qd(3)[OF True] by auto
  next
    case False
    then have "\<not> (ref_cnt (blocks p b) = 0 \<and> \<not> is_null (blocks p b))"
      using qd(2,5)[of b] b by auto
    moreover have "remove1 b xs = xs"
      using False by (simp add: remove1_idem)
    ultimately show ?thesis
      using qd(1) by (intro that[of "free_block_queue p"]) auto
  qed
  let ?p' = "upd_block b (\<lambda>blk. blk\<lparr>ref_cnt := ref_cnt blk + 1\<rparr>) (p\<lparr>free_block_queue := fq\<rparr>)"
  have "touch_block b p = Inr ?p'"
    unfolding touch_block_def fq(1) by simp
  moreover have same: "same_index p ?p'"
    by (rule same_index_trans[OF same_index_set_queue same_index_set_ref])
  moreover have "queue_ok {} (remove1 b xs) ?p'"
  proof -
    have "set (remove1 b xs) = set xs - {b}"
      using qd(7) by simp
    moreover have "\<And>c. c \<in> set xs \<longleftrightarrow> c \<in> set (all_blocks p) \<and> c \<noteq> Block 0 \<and> ref_cnt (blocks p c) = 0"
      using q unfolding queue_ok_def by auto
    moreover have "b \<noteq> Block 0 \<Longrightarrow> 0 \<le> ref_cnt (blocks p b)"
      using qd(6)[OF b] by simp
    ultimately show ?thesis
      using q fq(2) unfolding queue_ok_def by (auto simp: all_blocks_def)
  qed
  moreover have "frame {b} p ?p'"
    using block_keys_same_index[OF same] by (simp add: frame_def)
  ultimately show ?thesis
    using index_ok_same_index[OF same ix] by (simp add: pool_inv_def)
qed

lemma touch_spec:
  assumes "pool_inv xs p" and "set bs \<subseteq> set (all_blocks p)"
  shows "\<exists>p'. touch bs p = Inr p' \<and> pool_inv (filter (\<lambda>b. b \<notin> set bs) xs) p' \<and> frame (set bs) p p' \<and>
    same_index p p' \<and> (\<forall>b. ref_cnt (blocks p' b) = ref_cnt (blocks p b) + int (count_list bs b))"
  using assms
proof (induction bs arbitrary: p xs)
  case Nil
  then show ?case by (simp add: touch_def)
next
  case (Cons b bs)
  obtain p1 where p1: "touch_block b p = Inr p1" "pool_inv (remove1 b xs) p1" "frame {b} p p1"
    "ref_cnt (blocks p1 b) = ref_cnt (blocks p b) + 1" "same_index p p1"
    using touch_block_spec[OF Cons.prems(1)] Cons.prems(2) by auto
  obtain p2 where p2: "touch bs p1 = Inr p2" "pool_inv (filter (\<lambda>c. c \<notin> set bs) (remove1 b xs)) p2"
    "frame (set bs) p1 p2" "same_index p1 p2"
    "\<forall>c. ref_cnt (blocks p2 c) = ref_cnt (blocks p1 c) + int (count_list bs c)"
    using Cons.IH[OF p1(2)] Cons.prems(2) frame_all_blocks[OF p1(3)] by auto
  have "distinct xs"
    using Cons.prems(1) queue_okD(7) by (auto simp: pool_inv_def)
  then have "filter (\<lambda>c. c \<notin> set bs) (remove1 b xs) = filter (\<lambda>c. c \<notin> set (b # bs)) xs"
    by (simp add: distinct_remove1_removeAll removeAll_filter_not_eq) (rule arg_cong[of _ _ "\<lambda>P. filter P xs"], auto)
  moreover have "frame (set (b # bs)) p p2"
    by (rule frame_trans[OF frame_mono[OF p1(3)] frame_mono[OF p2(3)]]) auto
  moreover have "ref_cnt (blocks p1 c) = ref_cnt (blocks p c) + (if c = b then 1 else 0)" for c
  proof (cases "c = b")
    case False
    then show ?thesis
      using p1(1) by (auto simp: touch_block_def split: if_splits elim!: rbindE)
  qed (use p1(4) in simp)
  ultimately show ?case
    using p1(1) p2 same_index_trans[OF p1(5) p2(4)] by (intro exI[of _ p2]) (auto simp: touch_def)
qed

text \<open>A client may free a block as often as it holds a reference to it; the null block any time.\<close>

definition may_free :: "block_ref list \<Rightarrow> block_pool \<Rightarrow> bool" where
  "may_free bs p \<longleftrightarrow>
     set bs \<subseteq> set (all_blocks p) \<and> (\<forall>b\<in>set bs. b \<noteq> Block 0 \<longrightarrow> int (count_list bs b) \<le> ref_cnt (blocks p b))"

lemma queue_ok_release:
  assumes q: "queue_ok pend xs p" and b: "b \<in> set (all_blocks p)" and pos: "b \<noteq> Block 0 \<longrightarrow> 1 \<le> ref_cnt (blocks p b)"
  shows "queue_ok (if b \<noteq> Block 0 \<and> ref_cnt (blocks p b) = 1 then insert b pend else pend) xs
    (upd_block b (\<lambda>blk. blk\<lparr>ref_cnt := ref_cnt blk - 1\<rparr>) p)"
proof -
  note qd = queue_okD[OF q]
  have out: "b \<notin> set xs" "b \<notin> pend"
    using qd(3,4)[of b] pos by auto
  have mem: "c \<in> set xs \<union> pend \<longleftrightarrow> c \<in> set (all_blocks p) \<and> c \<noteq> Block 0 \<and> ref_cnt (blocks p c) = 0" for c
    using q unfolding queue_ok_def by blast
  have rest: "num_gpu_blocks p > 0" "null_block p = Block 0" "\<forall>c. is_null (blocks p c) \<longleftrightarrow> c = Block 0"
    "free_list (free_block_queue p) xs" "set xs \<inter> pend = {}"
    "\<forall>c\<in>set (all_blocks p). c \<noteq> Block 0 \<longrightarrow> 0 \<le> ref_cnt (blocks p c)"
    using q unfolding queue_ok_def by blast+
  show ?thesis
    unfolding queue_ok_def using rest out pos b mem
    by (auto simp: all_blocks_def split: if_splits)
qed

lemma free_loop_spec:
  assumes "queue_ok (set wh \<union> set wo) xs p" and "distinct (wh @ wo)" and "may_free bs p"
  shows "\<exists>wh' wo' p'. free_loop bs wh wo p = (wh', wo', p') \<and> queue_ok (set wh' \<union> set wo') xs p' \<and>
    distinct (wh' @ wo') \<and> same_index p p' \<and> enable_caching p' = enable_caching p \<and>
    hash_block_size p' = hash_block_size p \<and> free_block_queue p' = free_block_queue p \<and>
    (\<forall>b. ref_cnt (blocks p' b) = ref_cnt (blocks p b) - int (count_list bs b))"
  using assms
proof (induction bs arbitrary: p wh wo)
  case Nil
  then show ?case by simp
next
  case (Cons b bs)
  let ?p1 = "upd_block b (\<lambda>blk. blk\<lparr>ref_cnt := ref_cnt blk - 1\<rparr>) p"
  have b: "b \<in> set (all_blocks p)" and pos: "b \<noteq> Block 0 \<longrightarrow> 1 \<le> ref_cnt (blocks p b)"
    using Cons.prems(3) by (auto simp: may_free_def)
  note qd = queue_okD[OF Cons.prems(1)]
  have out: "b \<notin> set wh" "b \<notin> set wo"
    using qd(4)[of b] pos by auto
  have q1: "queue_ok (if b \<noteq> Block 0 \<and> ref_cnt (blocks p b) = 1 then insert b (set wh \<union> set wo) else set wh \<union> set wo) xs ?p1"
    by (rule queue_ok_release[OF Cons.prems(1) b pos])
  have may: "may_free bs ?p1"
    using Cons.prems(3) unfolding may_free_def by (auto simp: all_blocks_def)
  have same: "same_index p ?p1"
    by (rule same_index_set_ref)
  define wh1 wo1 where
    "wh1 = (if b \<noteq> Block 0 \<and> ref_cnt (blocks p b) = 1 \<and> \<not> (bhash (blocks p b) = None \<and> enable_caching p) then wh @ [b] else wh)"
    and "wo1 = (if b \<noteq> Block 0 \<and> ref_cnt (blocks p b) = 1 \<and> bhash (blocks p b) = None \<and> enable_caching p then wo @ [b] else wo)"
  have step: "free_loop (b # bs) wh wo p = free_loop bs wh1 wo1 ?p1"
    using qd(2)[of b] by (auto simp: wh1_def wo1_def Let_def)
  have q1': "queue_ok (set wh1 \<union> set wo1) xs ?p1"
  proof -
    have "set wh1 \<union> set wo1 =
        (if b \<noteq> Block 0 \<and> ref_cnt (blocks p b) = 1 then insert b (set wh \<union> set wo) else set wh \<union> set wo)"
      by (auto simp: wh1_def wo1_def)
    with q1 show ?thesis by simp
  qed
  have d1: "distinct (wh1 @ wo1)"
    using Cons.prems(2) out by (auto simp: wh1_def wo1_def)
  obtain wh' wo' p' where res: "free_loop bs wh1 wo1 ?p1 = (wh', wo', p')" "queue_ok (set wh' \<union> set wo') xs p'"
    "distinct (wh' @ wo')" "same_index ?p1 p'" "enable_caching p' = enable_caching ?p1"
    "hash_block_size p' = hash_block_size ?p1" "free_block_queue p' = free_block_queue ?p1"
    "\<forall>c. ref_cnt (blocks p' c) = ref_cnt (blocks ?p1 c) - int (count_list bs c)"
    using Cons.IH[OF q1' d1 may] by blast
  show ?case
    using step res same_index_trans[OF same res(4)] by (intro exI[of _ wh'] exI[of _ wo'] exI[of _ p']) auto
qed

lemma free_blocks_spec:
  assumes inv: "pool_inv xs p" and may: "may_free bs p"
  shows "\<exists>wh wo p'. free_blocks bs p = Inr p' \<and> fst (free_loop bs [] [] p) = wh \<and> fst (snd (free_loop bs [] [] p)) = wo \<and>
    pool_inv (wo @ xs @ wh) p' \<and> same_index p p' \<and> enable_caching p' = enable_caching p \<and>
    hash_block_size p' = hash_block_size p \<and>
    (\<forall>b. ref_cnt (blocks p' b) = ref_cnt (blocks p b) - int (count_list bs b))"
proof -
  have q: "queue_ok (set [] \<union> set []) xs p" and ix: "index_ok p"
    using inv by (simp_all add: pool_inv_def)
  obtain wh wo p1 where res: "free_loop bs [] [] p = (wh, wo, p1)" "queue_ok (set wh \<union> set wo) xs p1"
    "distinct (wh @ wo)" "same_index p p1" "enable_caching p1 = enable_caching p"
    "hash_block_size p1 = hash_block_size p" "free_block_queue p1 = free_block_queue p"
    "\<forall>c. ref_cnt (blocks p1 c) = ref_cnt (blocks p c) - int (count_list bs c)"
    using free_loop_spec[OF q _ may] by auto
  note qd = queue_okD[OF res(2)]
  have blk: "list_all is_block wo" "list_all is_block wh"
    using qd(4) all_blocks_is_block by (auto simp: list_all_iff)
  have disj: "set wo \<inter> set xs = {}" "set wh \<inter> set (wo @ xs) = {}" "distinct wo" "distinct wh"
    using qd(4) res(3) by auto
  obtain q1 where q1: "prepend_n wo (free_block_queue p1) = Inr q1" "free_list q1 (wo @ xs)"
    using fq.rep_add_first[OF qd(1) disj(3) blk(1) disj(1)] by blast
  obtain q2 where q2: "append_n wh q1 = Inr q2" "free_list q2 ((wo @ xs) @ wh)"
    using fq.rep_add_last[OF q1(2) disj(4) blk(2) disj(2)] by blast
  let ?p' = "p1\<lparr>free_block_queue := q2\<rparr>"
  have "free_blocks bs p = Inr ?p'"
    by (simp add: free_blocks_def res(1) q1(1) q2(1))
  moreover have same: "same_index p ?p'"
    by (rule same_index_trans[OF res(4) same_index_set_queue])
  moreover have "queue_ok {} (wo @ xs @ wh) ?p'"
  proof -
    have "set (wo @ xs @ wh) = set xs \<union> (set wh \<union> set wo)" by auto
    then show ?thesis
      using res(2) q2(2) unfolding queue_ok_def by (simp add: all_blocks_def)
  qed
  ultimately show ?thesis
    using res index_ok_same_index[OF same ix] by (simp add: pool_inv_def)
qed

text \<open>What a distinct list of blocks to free contributes to the queue.\<close>

definition released :: "block_pool \<Rightarrow> block_ref \<Rightarrow> bool" where
  "released p b \<longleftrightarrow> b \<noteq> Block 0 \<and> ref_cnt (blocks p b) = 1"

definition evict_first :: "block_pool \<Rightarrow> block_ref \<Rightarrow> bool" where
  "evict_first p b \<longleftrightarrow> bhash (blocks p b) = None \<and> enable_caching p"

lemma free_loop_distinct:
  assumes "\<And>b. is_null (blocks p b) \<longleftrightarrow> b = Block 0" and "distinct bs"
  shows "fst (free_loop bs wh wo p) = wh @ filter (\<lambda>b. released p b \<and> \<not> evict_first p b) bs \<and>
    fst (snd (free_loop bs wh wo p)) = wo @ filter (\<lambda>b. released p b \<and> evict_first p b) bs"
  using assms
proof (induction bs arbitrary: p wh wo)
  case Nil
  show ?case by simp
next
  case (Cons b bs)
  let ?p1 = "upd_block b (\<lambda>blk. blk\<lparr>ref_cnt := ref_cnt blk - 1\<rparr>) p"
  have null: "is_null (blocks ?p1 c) \<longleftrightarrow> c = Block 0" for c
    using Cons.prems(1) by simp
  have same: "filter (\<lambda>c. released ?p1 c \<and> \<not> evict_first ?p1 c) bs = filter (\<lambda>c. released p c \<and> \<not> evict_first p c) bs"
    "filter (\<lambda>c. released ?p1 c \<and> evict_first ?p1 c) bs = filter (\<lambda>c. released p c \<and> evict_first p c) bs"
    using Cons.prems(2) by (auto simp: released_def evict_first_def intro!: filter_cong)
  note IH = Cons.IH[OF null, unfolded same]
  have "is_null (blocks p b) \<longleftrightarrow> b = Block 0" by (rule Cons.prems(1))
  then show ?case
    using Cons.prems(2) IH by (auto simp: Let_def released_def evict_first_def)
qed

section \<open>Construction, eviction and reset\<close>

lemma init_pool_spec:
  assumes "0 < n"
  shows "\<exists>p. init_pool n caching hbs events use_int = Inr p \<and> pool_inv (map Block [1..<nat n]) p \<and>
    num_gpu_blocks p = n \<and> hash_block_size p = hbs \<and> enable_caching p = caching \<and>
    (\<forall>b. block_keys b p = [] \<and> ref_cnt (blocks p b) = 0)"
proof -
  have up: "map Block [0..<nat n] = Block 0 # map Block [1..<nat n]"
    using assms by (simp add: upt_conv_Cons)
  have "free_list (init_queue (map Block [0..<nat n])) (Block 0 # map Block [1..<nat n])"
    unfolding up[symmetric] by (rule init_queue_free_list) (auto simp: distinct_map inj_on_def list_all_iff)
  from fq.rep_pop[OF this] obtain q where
    q: "popleft (init_queue (map Block [0..<nat n])) = Inr (Block 0, q)" "free_list q (map Block [1..<nat n])"
    by blast
  define p where "p = \<lparr>num_gpu_blocks = n, enable_caching = caching, hash_block_size = hbs,
               blocks = (\<lambda>_. new_kv_block)(Block 0 := new_kv_block\<lparr>is_null := True\<rparr>),
               free_block_queue = q, cached_block_hash_to_block = empty_map,
               cached_block_hashes_by_block = (\<lambda>_. None), null_block = Block 0,
               enable_kv_cache_events = events, use_int_block_hashes = use_int,
               kv_event_queue = []\<rparr>"
  have fields: "ref_cnt (blocks p b) = 0" "bhash (blocks p b) = None" "bhash_num_tokens (blocks p b) = None"
    "is_null (blocks p b) \<longleftrightarrow> b = Block 0" "cached_block_hashes_by_block p (block_id b) = None" for b
    by (simp_all add: p_def new_kv_block_def)
  have keys: "block_keys b p = []" for b
    by (simp add: block_keys_def fields)
  have "queue_ok {} (map Block [1..<nat n]) p"
    unfolding queue_ok_def using assms q(2)
    by (auto simp: new_kv_block_def all_blocks_def p_def image_iff Suc_le_eq intro: gr0I)
  moreover have "index_ok p"
    unfolding index_ok_def keys fields using bhm.fresh_wf bhm.fresh_maps by (simp add: p_def)
  moreover have "init_pool n caching hbs events use_int = Inr p"
    using assms q(1) by (simp add: init_pool_def p_def)
  ultimately show ?thesis
    using keys fields by (simp add: pool_inv_def p_def)
qed

lemma evict_blocks_spec:
  assumes "index_ok p" and "\<forall>i\<in>set ids. 0 \<le> i \<and> i < num_gpu_blocks p"
  shows "\<exists>p'. evict_blocks ids p = Inr p' \<and> index_ok p' \<and> same_alloc p p' \<and>
    (\<forall>i\<in>set ids. block_keys (Block (nat i)) p' = []) \<and>
    (\<forall>c\<in>set (all_blocks p). block_id c \<notin> set ids \<longrightarrow> block_keys c p' = block_keys c p) \<and>
    (\<forall>c\<in>set (all_blocks p). block_keys c p = [] \<longrightarrow> block_keys c p' = [])"
  using assms
proof (induction ids arbitrary: p)
  case Nil
  then show ?case by (simp add: evict_blocks_def)
next
  case (Cons i ids)
  have i: "0 \<le> i" "i < num_gpu_blocks p" using Cons.prems(2) by simp_all
  then have nth: "py_nth (all_blocks p) i = Inr (Block (nat i))" and lt: "i < int (length (all_blocks p))"
    and mem: "Block (nat i) \<in> set (all_blocks p)"
    by (simp_all add: py_nth_ok all_blocks_def)
  obtain p1 where p1: "maybe_evict_cached_block (Block (nat i)) p = (block_keys (Block (nat i)) p \<noteq> [], p1)"
    "index_ok p1" "same_alloc p p1" "block_keys (Block (nat i)) p1 = []"
    "\<forall>c. c \<in> set (all_blocks p) \<longrightarrow> c \<noteq> Block (nat i) \<longrightarrow> block_keys c p1 = block_keys c p"
    using maybe_evict_spec[OF Cons.prems(1) mem] by blast
  have n: "num_gpu_blocks p1 = num_gpu_blocks p" and all: "all_blocks p1 = all_blocks p"
    using p1(3) same_alloc_all_blocks[OF p1(3)] by (simp_all add: same_alloc_def)
  obtain p2 where p2: "evict_blocks ids p1 = Inr p2" "index_ok p2" "same_alloc p1 p2"
    "\<forall>i\<in>set ids. block_keys (Block (nat i)) p2 = []"
    "\<forall>c\<in>set (all_blocks p). block_id c \<notin> set ids \<longrightarrow> block_keys c p2 = block_keys c p1"
    "\<forall>c\<in>set (all_blocks p). block_keys c p1 = [] \<longrightarrow> block_keys c p2 = []"
    using Cons.IH[OF p1(2)] Cons.prems(2) n all by auto
  have "evict_blocks (i # ids) p = Inr p2"
    using p2(1) p1(1) nth lt by (simp add: evict_blocks_def)
  moreover have "block_keys c p2 = block_keys c p" if "c \<in> set (all_blocks p)" "block_id c \<notin> set (i # ids)" for c
  proof -
    have "c \<noteq> Block (nat i)" using that(2) i by auto
    then show ?thesis using p1(5) p2(5) that by simp
  qed
  moreover have "block_keys c p2 = []" if "c \<in> set (all_blocks p)" "block_keys c p = []" for c
    using that p1(4,5) p2(6) by (cases "c = Block (nat i)") auto
  moreover have "block_keys (Block (nat i)) p2 = []"
    using p2(6) p1(4) mem by blast
  ultimately show ?case
    using p2 same_alloc_trans[OF p1(3) p2(3)] by auto
qed

lemma fold_reset_hash:
  "blocks (fold (\<lambda>b. upd_block b reset_hash) bs p) = (\<lambda>b. if b \<in> set bs then reset_hash (blocks p b) else blocks p b)"
  "fold (\<lambda>b. upd_block b reset_hash) bs p = p\<lparr>blocks := blocks (fold (\<lambda>b. upd_block b reset_hash) bs p)\<rparr>"
proof (induction bs arbitrary: p)
  case (Cons b bs)
  { case 1 show ?case using Cons.IH(1) by (auto simp: fun_eq_iff reset_hash_def) }
  { case 2 show ?case using Cons.IH(2)[of "upd_block b reset_hash p"] by (simp add: upd_block_def) }
qed simp_all

lemma reset_prefix_cache_spec:
  assumes inv: "pool_inv xs p"
  shows "\<exists>p'. reset_prefix_cache p = ((\<forall>b\<in>set (all_blocks p). b \<noteq> Block 0 \<longrightarrow> ref_cnt (blocks p b) = 0), p') \<and>
    pool_inv xs p' \<and> same_alloc p p' \<and>
    (if \<forall>b\<in>set (all_blocks p). b \<noteq> Block 0 \<longrightarrow> ref_cnt (blocks p b) = 0
     then \<forall>b\<in>set (all_blocks p). block_keys b p' = [] else p' = p)"
proof -
  have q: "queue_ok {} xs p" and ix: "index_ok p"
    using inv by (simp_all add: pool_inv_def)
  note qd = queue_okD[OF q]
  have pos: "0 < num_gpu_blocks p" using q by (simp add: queue_ok_def)
  have "card (set (all_blocks p) - {Block 0}) = nat (num_gpu_blocks p) - 1"
    using pos distinct_card[OF distinct_all_blocks[of p]]
    by (subst card_Diff_singleton) (auto simp: all_blocks_def)
  moreover have sub: "set xs \<subseteq> set (all_blocks p) - {Block 0}"
    using qd(3) by blast
  moreover have "card (set xs) = length xs"
    using qd(7) by (rule distinct_card)
  ultimately have full: "length xs = nat (num_gpu_blocks p) - 1 \<longleftrightarrow> set xs = set (all_blocks p) - {Block 0}"
    using card_subset_eq[OF _ sub] by auto
  have "set xs = set (all_blocks p) - {Block 0} \<longleftrightarrow> (\<forall>b\<in>set (all_blocks p). b \<noteq> Block 0 \<longrightarrow> ref_cnt (blocks p b) = 0)"
    using qd(3,5) sub by blast
  with full have guard: "num_gpu_blocks p - get_num_free_blocks p = 1 \<longleftrightarrow>
      (\<forall>b\<in>set (all_blocks p). b \<noteq> Block 0 \<longrightarrow> ref_cnt (blocks p b) = 0)"
    using pos free_list_size[OF qd(1)] by (auto simp: get_num_free_blocks_def)
  show ?thesis
  proof (cases "num_gpu_blocks p - get_num_free_blocks p = 1")
    case False
    then show ?thesis
      using guard inv by (auto simp: reset_prefix_cache_def)
  next
    case True
    let ?p1 = "p\<lparr>cached_block_hash_to_block := empty_map, cached_block_hashes_by_block := (\<lambda>_. None)\<rparr>"
    define p2 where "p2 = fold (\<lambda>b. upd_block b reset_hash) (all_blocks ?p1) ?p1"
    define p' where "p' = (if enable_kv_cache_events p2 then add_events [AllBlocksCleared] p2 else p2)"
    have blk: "blocks p2 = (\<lambda>b. if b \<in> set (all_blocks p) then reset_hash (blocks p b) else blocks p b)"
      unfolding p2_def fold_reset_hash(1) by (auto simp: all_blocks_def fun_eq_iff)
    have p2: "p2 = ?p1\<lparr>blocks := blocks p2\<rparr>"
      unfolding p2_def by (rule fold_reset_hash(2))
    have fields: "cached_block_hash_to_block p2 = empty_map" "cached_block_hashes_by_block p2 = (\<lambda>_. None)"
      "num_gpu_blocks p2 = num_gpu_blocks p"
      by (subst p2, simp)+
    have "same_alloc p p2"
      unfolding same_alloc_def by (subst (1 2 3 4 5 6 7) p2) (auto simp: blk reset_hash_def)
    moreover have ev: "same_alloc p2 p'" "same_index p2 p'"
      by (simp_all add: p'_def add_events_def same_alloc_def same_index_def)
    ultimately have sa: "same_alloc p p'"
      by (blast intro: same_alloc_trans)
    have keys: "block_keys b p2 = []" "bhash (blocks p2 b) = None" "bhash_num_tokens (blocks p2 b) = None"
      if "b \<in> set (all_blocks p)" for b
      using that by (simp_all add: block_keys_def blk fields reset_hash_def)
    have all: "all_blocks p2 = all_blocks p" by (simp add: all_blocks_def fields)
    have "bhash (blocks p2 (Block 0)) = None"
      using pos by (intro keys) (simp add: all_blocks_def)
    then have "index_ok p2"
      unfolding index_ok_def all fields using keys bhm.fresh_wf bhm.fresh_maps by auto
    then have "index_ok p'" by (rule index_ok_same_index[OF ev(2)])
    moreover have "reset_prefix_cache p = (True, p')"
      using True by (simp add: reset_prefix_cache_def p'_def p2_def Let_def)
    ultimately show ?thesis
      using True guard keys block_keys_same_index[OF ev(2)] queue_ok_same_alloc[OF sa q] sa
      by (auto simp: pool_inv_def)
  qed
qed

section \<open>Caching blocks keeps the invariant\<close>

definition nulls_ok :: "block_pool \<Rightarrow> bool" where
  "nulls_ok p \<longleftrightarrow> (\<forall>b. is_null (blocks p b) \<longleftrightarrow> b = Block 0)"

lemma nulls_ok_same_alloc: "same_alloc p p' \<Longrightarrow> nulls_ok p \<Longrightarrow> nulls_ok p'"
  by (simp add: same_alloc_def nulls_ok_def)

lemma pool_inv_nulls_ok: "pool_inv xs p \<Longrightarrow> nulls_ok p"
  by (simp add: pool_inv_def queue_ok_def nulls_ok_def)

text \<open>Dropping the old keys of a block, as promotion does, announcing it or not.\<close>

lemma drop_keys_spec:
  assumes "index_ok p" and "b \<in> set (all_blocks p)"
  shows "\<exists>p'. (case remove_cached_block_hashes b p of (removed, p1) \<Rightarrow> emit_block_removed_events removed p1) = p' \<and>
    index_ok p' \<and> same_alloc p p' \<and> block_keys b p' = [] \<and>
    (\<forall>c. c \<in> set (all_blocks p) \<longrightarrow> c \<noteq> b \<longrightarrow> block_keys c p' = block_keys c p)"
proof -
  obtain p1 where p1: "remove_cached_block_hashes b p = (block_keys b p, p1)" "index_ok p1" "same_alloc p p1"
    "block_keys b p1 = []" "\<forall>c. c \<in> set (all_blocks p) \<longrightarrow> c \<noteq> b \<longrightarrow> block_keys c p1 = block_keys c p"
    using remove_cached_spec[OF assms] by blast
  note em = emit_block_removed_same[of p1 "block_keys b p"]
  show ?thesis
    using p1 index_ok_same_index[OF em(2) p1(2)] same_alloc_trans[OF p1(3) em(1)] block_keys_same_index[OF em(2)]
    by simp
qed

lemma cache_one_full_block_spec:
  assumes run: "cache_one_full_block hs nc bsz gid bmask (i, b) (p, new) = Inr (p', new')"
    and ix: "index_ok p" and nulls: "nulls_ok p" and b: "b \<in> set (all_blocks p)"
  shows "index_ok p' \<and> same_alloc p p' \<and>
    (\<forall>c. c \<in> set (all_blocks p) \<longrightarrow> c \<noteq> b \<longrightarrow> block_keys c p' = block_keys c p) \<and>
    (b \<noteq> Block 0 \<longrightarrow> \<not> masked_out bmask i \<longrightarrow>
       i < length hs \<and> (\<exists>key. make_block_hash_with_group_id (hs ! i) gid = Inr key \<and> key \<in> set (block_keys b p'))) \<and>
    (\<forall>k\<in>set (block_keys b p'). k \<in> set (block_keys b p) \<or>
       (i < length hs \<and> b \<noteq> Block 0 \<and> \<not> masked_out bmask i \<and> make_block_hash_with_group_id (hs ! i) gid = Inr k))"
proof (cases "b = Block 0 \<or> masked_out bmask i")
  case True
  then have "p' = p"
    using run nulls by (auto simp: cache_one_full_block_def nulls_ok_def)
  then show ?thesis using True ix by auto
next
  case False
  then have nz: "b \<noteq> Block 0" and cond: "\<not> (is_null (blocks p b) \<or> masked_out bmask i)"
    using nulls by (auto simp: nulls_ok_def)
  obtain h key p1 n where h: "py_nth hs (int i) = Inr h" and key: "make_block_hash_with_group_id h gid = Inr key"
    and p1: "(if bhash (blocks p b) \<noteq> None
        then py_assert (case bhash_num_tokens (blocks p b) of None \<Rightarrow> False | Some n \<Rightarrow> n < (nc + int i + 1) * bsz)
               (case remove_cached_block_hashes b p of (removed, p1) \<Rightarrow> Inr (emit_block_removed_events removed p1))
        else Inr p) = Inr p1"
    and ins: "insert_block_hash key b n p1 = Inr p'"
    using run cond by (auto simp: cache_one_full_block_def Let_def elim!: rbindE)
  have p1': "index_ok p1" "same_alloc p p1" "\<forall>c. c \<in> set (all_blocks p) \<longrightarrow> c \<noteq> b \<longrightarrow> block_keys c p1 = block_keys c p"
    "set (block_keys b p1) \<subseteq> set (block_keys b p)"
    using p1 ix drop_keys_spec[OF ix b] by (auto split: if_splits prod.splits)
  have b1: "b \<in> set (all_blocks p1)"
    using b same_alloc_all_blocks[OF p1'(2)] by simp
  obtain p2 where "insert_block_hash key b n p1 = Inr p2" "index_ok p2" "same_alloc p1 p2"
    "set (block_keys b p2) = insert key (set (block_keys b p1))"
    "\<forall>c. c \<in> set (all_blocks p1) \<longrightarrow> c \<noteq> b \<longrightarrow> block_keys c p2 = block_keys c p1"
    using insert_block_hash_spec[OF p1'(1) b1 nz] by blast
  moreover have "i < length hs" "h = hs ! i"
    using py_nth_Inr_nonneg[OF h] by simp_all
  ultimately show ?thesis
    using ins key p1' same_alloc_all_blocks[OF p1'(2)] same_alloc_trans[OF p1'(2)] nz False by auto
qed

lemma cache_loop_spec:
  assumes "rfold (cache_one_full_block hs nc bsz gid bmask) ibs (p, new) = Inr (p', new')"
    and "index_ok p" and "nulls_ok p" and "snd ` set ibs \<subseteq> set (all_blocks p)"
    and "distinct (filter (\<lambda>b. b \<noteq> Block 0) (map snd ibs))"
  shows "index_ok p' \<and> same_alloc p p' \<and>
    (\<forall>c. c \<in> set (all_blocks p) \<longrightarrow> c \<notin> snd ` set ibs \<longrightarrow> block_keys c p' = block_keys c p) \<and>
    (\<forall>(i, b)\<in>set ibs. b \<noteq> Block 0 \<longrightarrow> \<not> masked_out bmask i \<longrightarrow>
       i < length hs \<and> (\<exists>key. make_block_hash_with_group_id (hs ! i) gid = Inr key \<and> key \<in> set (block_keys b p'))) \<and>
    (\<forall>c\<in>set (all_blocks p). \<forall>k\<in>set (block_keys c p'). k \<in> set (block_keys c p) \<or>
       (\<exists>i. (i, c) \<in> set ibs \<and> i < length hs \<and> c \<noteq> Block 0 \<and> \<not> masked_out bmask i \<and>
            make_block_hash_with_group_id (hs ! i) gid = Inr k))"
  using assms
proof (induction ibs arbitrary: p new)
  case Nil
  then show ?case by simp
next
  case (Cons ib ibs)
  obtain i b where ib: "ib = (i, b)" by (cases ib)
  obtain p1 new1 where step: "cache_one_full_block hs nc bsz gid bmask (i, b) (p, new) = Inr (p1, new1)"
    and rest: "rfold (cache_one_full_block hs nc bsz gid bmask) ibs (p1, new1) = Inr (p', new')"
    using Cons.prems(1) by (auto simp: ib elim!: rbindE)
  have b: "b \<in> set (all_blocks p)" using Cons.prems(4) by (simp add: ib)
  note one = cache_one_full_block_spec[OF step Cons.prems(2,3) b]
  then have sa: "same_alloc p p1" and ix1: "index_ok p1" by blast+
  have all: "all_blocks p1 = all_blocks p" by (rule same_alloc_all_blocks[OF sa])
  note IH = Cons.IH[OF rest ix1 nulls_ok_same_alloc[OF sa Cons.prems(3)]]
  have IH': "index_ok p' \<and> same_alloc p1 p' \<and>
    (\<forall>c. c \<in> set (all_blocks p) \<longrightarrow> c \<notin> snd ` set ibs \<longrightarrow> block_keys c p' = block_keys c p1) \<and>
    (\<forall>(i, b)\<in>set ibs. b \<noteq> Block 0 \<longrightarrow> \<not> masked_out bmask i \<longrightarrow>
       i < length hs \<and> (\<exists>key. make_block_hash_with_group_id (hs ! i) gid = Inr key \<and> key \<in> set (block_keys b p'))) \<and>
    (\<forall>c\<in>set (all_blocks p). \<forall>k\<in>set (block_keys c p'). k \<in> set (block_keys c p1) \<or>
       (\<exists>i. (i, c) \<in> set ibs \<and> i < length hs \<and> c \<noteq> Block 0 \<and> \<not> masked_out bmask i \<and>
            make_block_hash_with_group_id (hs ! i) gid = Inr k))"
    using IH Cons.prems(4,5) unfolding all by (simp add: ib split: if_splits)
  have stay: "b \<noteq> Block 0 \<Longrightarrow> block_keys b p' = block_keys b p1"
    using IH' b Cons.prems(5) by (force simp: ib)
  have bound: "k \<in> set (block_keys c p) \<or> (\<exists>i. (i, c) \<in> set (ib # ibs) \<and> i < length hs \<and> c \<noteq> Block 0 \<and>
      \<not> masked_out bmask i \<and> make_block_hash_with_group_id (hs ! i) gid = Inr k)"
    if "c \<in> set (all_blocks p)" "k \<in> set (block_keys c p')" for c k
  proof -
    have "k \<in> set (block_keys c p1) \<or> (\<exists>i. (i, c) \<in> set ibs \<and> i < length hs \<and> c \<noteq> Block 0 \<and>
        \<not> masked_out bmask i \<and> make_block_hash_with_group_id (hs ! i) gid = Inr k)"
      using IH' that by blast
    moreover have "k \<in> set (block_keys c p) \<or> (c = b \<and> i < length hs \<and> b \<noteq> Block 0 \<and> \<not> masked_out bmask i \<and>
        make_block_hash_with_group_id (hs ! i) gid = Inr k)" if "k \<in> set (block_keys c p1)"
      using one that \<open>c \<in> set (all_blocks p)\<close> by (cases "c = b") auto
    ultimately show ?thesis
      by (auto simp: ib)
  qed
  show ?case
  proof (intro conjI)
    show "index_ok p'" and "same_alloc p p'"
      using IH' same_alloc_trans[OF sa] by blast+
    show "\<forall>c. c \<in> set (all_blocks p) \<longrightarrow> c \<notin> snd ` set (ib # ibs) \<longrightarrow> block_keys c p' = block_keys c p"
      using one IH' by (simp add: ib)
    show "\<forall>(i, b)\<in>set (ib # ibs). b \<noteq> Block 0 \<longrightarrow> \<not> masked_out bmask i \<longrightarrow>
       i < length hs \<and> (\<exists>key. make_block_hash_with_group_id (hs ! i) gid = Inr key \<and> key \<in> set (block_keys b p'))"
      using one IH' stay by (simp add: ib)
  qed (use bound in blast)
qed

lemma rfold_stored_extra_keys_memo:
  assumes "rfold (stored_extra_keys sha256 bs nc bsz bmask p) is (ks, idx, r) = Inr (ks', idx', r')"
  shows "\<exists>m. r' = r\<lparr>prompt_embeds_per_block_hashes := m\<rparr>"
  using assms
proof (induction "is" arbitrary: ks idx r)
  case Nil
  then show ?case by (auto intro: exI[of _ "prompt_embeds_per_block_hashes r"])
next
  case (Cons i "is")
  obtain ks1 idx1 r1 where step: "stored_extra_keys sha256 bs nc bsz bmask p i (ks, idx, r) = Inr (ks1, idx1, r1)"
    and rest: "rfold (stored_extra_keys sha256 bs nc bsz bmask p) is (ks1, idx1, r1) = Inr (ks', idx', r')"
    using Cons.prems by (auto elim!: rbindE)
  have "\<exists>m. r1 = r\<lparr>prompt_embeds_per_block_hashes := m\<rparr>"
  proof -
    obtain b where b: "py_nth bs i = Inr b"
      using step by (auto simp: stored_extra_keys_def elim!: rbindE)
    show ?thesis
    proof (cases "is_null (blocks p b) \<or> masked_out bmask (nat (i - nc))")
      case True
      then have "r1 = r" using step b by (simp add: stored_extra_keys_def)
      then show ?thesis by (intro exI[of _ "prompt_embeds_per_block_hashes r"]) simp
    next
      case False
      then obtain x where "generate_block_hash_extra_keys sha256 r (i * bsz) (i * bsz + bsz) idx = Inr (x, r1)"
        using step b by (auto simp: stored_extra_keys_def elim!: rbindE)
      then show ?thesis by (rule generate_extra_keys_memo)
    qed
  qed
  then show ?case
    using Cons.IH[OF rest] by auto
qed

lemma cache_full_blocks_spec:
  assumes run: "cache_full_blocks sha256 r bs nc nf bsz gid bmask p = Inr (r', p')"
    and inv: "pool_inv xs p" and sub: "set bs \<subseteq> set (all_blocks p)" and "0 \<le> nc"
    and dist: "distinct (filter (\<lambda>b. b \<noteq> Block 0) (py_slice bs nc nf))"
  shows "pool_inv xs p' \<and> same_alloc p p' \<and> (\<exists>m. r' = r\<lparr>prompt_embeds_per_block_hashes := m\<rparr>) \<and>
    (\<forall>c\<in>set (all_blocks p). c \<notin> set (py_slice bs nc nf) \<longrightarrow> block_keys c p' = block_keys c p) \<and>
    (nc < nf \<longrightarrow> (\<exists>v. resolve_block_hashes (Raw_hashes (block_hashes r)) (hash_block_size p) bsz False None = Inr v \<and>
      (\<forall>i < length (py_slice bs nc nf). py_slice bs nc nf ! i \<noteq> Block 0 \<longrightarrow> \<not> masked_out bmask i \<longrightarrow>
        (\<exists>h key. view_get v (nc + int i) = Inr h \<and> make_block_hash_with_group_id h gid = Inr key \<and>
          key \<in> set (block_keys (py_slice bs nc nf ! i) p'))) \<and>
      (\<forall>c\<in>set (all_blocks p). \<forall>k\<in>set (block_keys c p'). k \<in> set (block_keys c p) \<or>
        (\<exists>i h. i < length (py_slice bs nc nf) \<and> c = py_slice bs nc nf ! i \<and> c \<noteq> Block 0 \<and> \<not> masked_out bmask i \<and>
          view_get v (nc + int i) = Inr h \<and> make_block_hash_with_group_id h gid = Inr k)))) \<and>
    (\<not> nc < nf \<longrightarrow> p' = p)"
proof (cases "nc < nf")
  case False
  then have "p' = p" "r' = r" using run by (simp_all add: cache_full_blocks_def)
  then show ?thesis
    using inv False by (auto intro: exI[of _ "prompt_embeds_per_block_hashes r"])
next
  case True
  let ?new = "py_slice bs nc nf"
  obtain v hs p1 new where v: "resolve_block_hashes (Raw_hashes (block_hashes r)) (hash_block_size p) bsz False None = Inr v"
    and hs: "view_slice v nc (view_len v) = Inr hs"
    and loop: "rfold (cache_one_full_block hs nc bsz gid bmask) (enumerate 0 ?new) (p, []) = Inr (p1, new)"
    and tail: "(if \<not> enable_kv_cache_events p1 then Inr (r, p1)
         else rbind (if nc = 0 then Inr None
                     else rbind (view_get v (nc - 1))
                            (\<lambda>h. Inr (Some (maybe_convert_block_hash (use_int_block_hashes p1) h)))) (\<lambda>parent.
              rbind (rfold (stored_extra_keys sha256 bs nc bsz bmask p1) [nc..nf - 1] ([], 0, r)) (\<lambda>(keys, mm_idx, r1).
              Inr (r1, add_events [build_block_stored_event r1 new parent (nc * bsz) (nf * bsz) bsz gid keys] p1))))
       = Inr (r', p')"
    using run True unfolding cache_full_blocks_def Let_def
    by (simp del: rbind_Inr) (elim conjE rbindE, simp split: prod.splits)
  have rest: "(r' = r \<and> p' = p1) \<or> (\<exists>ks idx ev. p' = add_events [ev] p1 \<and>
       rfold (stored_extra_keys sha256 bs nc bsz bmask p1) [nc..nf - 1] ([], 0, r) = Inr (ks, idx, r'))"
  proof (cases "enable_kv_cache_events p1")
    case True
    then obtain ks idx parent where
      "rfold (stored_extra_keys sha256 bs nc bsz bmask p1) [nc..nf - 1] ([], 0, r) = Inr (ks, idx, r')"
      "p' = add_events [build_block_stored_event r' new parent (nc * bsz) (nf * bsz) bsz gid ks] p1"
      using tail by (force elim!: rbindE)
    then show ?thesis by blast
  qed (use tail in simp)
  have slice_sub: "set ?new \<subseteq> set bs"
    by (auto simp: py_slice_def Let_def dest: in_set_takeD in_set_dropD)
  have "snd ` set (enumerate 0 ?new) \<subseteq> set (all_blocks p)"
    using slice_sub sub set_map[of snd "enumerate 0 ?new"] by (simp add: map_snd_enumerate del: set_map)
  moreover have "distinct (filter (\<lambda>b. b \<noteq> Block 0) (map snd (enumerate 0 ?new)))"
    using dist by simp
  moreover have "index_ok p" "nulls_ok p"
    using inv pool_inv_nulls_ok by (auto simp: pool_inv_def)
  ultimately have spec: "index_ok p1" "same_alloc p p1"
    "\<forall>c. c \<in> set (all_blocks p) \<longrightarrow> c \<notin> snd ` set (enumerate 0 ?new) \<longrightarrow> block_keys c p1 = block_keys c p"
    "\<forall>(i, b)\<in>set (enumerate 0 ?new). b \<noteq> Block 0 \<longrightarrow> \<not> masked_out bmask i \<longrightarrow>
       i < length hs \<and> (\<exists>key. make_block_hash_with_group_id (hs ! i) gid = Inr key \<and> key \<in> set (block_keys b p1))"
    "\<forall>c\<in>set (all_blocks p). \<forall>k\<in>set (block_keys c p1). k \<in> set (block_keys c p) \<or>
       (\<exists>i. (i, c) \<in> set (enumerate 0 ?new) \<and> i < length hs \<and> c \<noteq> Block 0 \<and> \<not> masked_out bmask i \<and>
            make_block_hash_with_group_id (hs ! i) gid = Inr k)"
    using cache_loop_spec[OF loop] by blast+
  have snds: "snd ` set (enumerate 0 ?new) = set ?new"
    using set_map[of snd "enumerate 0 ?new"] by simp
  have ev: "same_alloc p1 p'" "same_index p1 p'"
    using rest by (auto simp: add_events_def same_alloc_def same_index_def)
  have keys: "block_keys c p' = block_keys c p1" for c
    by (rule block_keys_same_index[OF ev(2)])
  have found: "\<exists>h key. view_get v (nc + int i) = Inr h \<and> make_block_hash_with_group_id h gid = Inr key \<and>
      key \<in> set (block_keys (?new ! i) p')"
    if i: "i < length ?new" and nz: "?new ! i \<noteq> Block 0" "\<not> masked_out bmask i" for i
  proof -
    have "(i, ?new ! i) \<in> set (enumerate 0 ?new)"
      using i by (simp add: in_set_enumerate_eq)
    then obtain key where "i < length hs" "make_block_hash_with_group_id (hs ! i) gid = Inr key"
      "key \<in> set (block_keys (?new ! i) p1)"
      using spec(4) nz by fastforce
    then show ?thesis
      using view_slice_nth[OF hs assms(4)] keys by auto
  qed
  have bound: "k \<in> set (block_keys c p) \<or> (\<exists>i h. i < length ?new \<and> c = ?new ! i \<and> c \<noteq> Block 0 \<and> \<not> masked_out bmask i \<and>
      view_get v (nc + int i) = Inr h \<and> make_block_hash_with_group_id h gid = Inr k)"
    if c: "c \<in> set (all_blocks p)" and k: "k \<in> set (block_keys c p')" for c k
  proof (cases "k \<in> set (block_keys c p)")
    case False
    then obtain i where "(i, c) \<in> set (enumerate 0 ?new)" "i < length hs" "c \<noteq> Block 0" "\<not> masked_out bmask i"
      "make_block_hash_with_group_id (hs ! i) gid = Inr k"
      using spec(5)[rule_format, OF c k[unfolded keys]] by blast
    then show ?thesis
      using view_slice_nth[OF hs assms(4)] by (auto simp: in_set_enumerate_eq)
  qed simp
  have "pool_inv xs p'"
    using inv index_ok_same_index[OF ev(2) spec(1)] queue_ok_same_alloc[OF same_alloc_trans[OF spec(2) ev(1)]]
    by (simp add: pool_inv_def)
  moreover have "\<exists>m. r' = r\<lparr>prompt_embeds_per_block_hashes := m\<rparr>"
    using rest rfold_stored_extra_keys_memo by (auto intro: exI[of _ "prompt_embeds_per_block_hashes r"])
  moreover have "\<forall>c\<in>set (all_blocks p). c \<notin> set ?new \<longrightarrow> block_keys c p' = block_keys c p"
    using spec(3) keys snds by auto
  ultimately show ?thesis
    using same_alloc_trans[OF spec(2) ev(1)] v found bound True by blast
qed

text \<open>The conditions under which caching full blocks does not raise.\<close>

lemma make_key_ok: "0 \<le> g \<Longrightarrow> g < 2 ^ 32 \<Longrightarrow> \<exists>key. make_block_hash_with_group_id h g = Inr key"
  by (simp add: make_block_hash_with_group_id_def to_bytes_be4_def)

lemma cache_one_full_block_total:
  assumes ix: "index_ok p" and nulls: "nulls_ok p" and b: "b \<in> set (all_blocks p)" and i: "i < length hs"
    and g: "0 \<le> gid" "gid < 2 ^ 32" and fresh: "b \<noteq> Block 0 \<Longrightarrow> block_keys b p = []"
  shows "\<exists>p' new'. cache_one_full_block hs nc bsz gid bmask (i, b) (p, new) = Inr (p', new')"
proof (cases "is_null (blocks p b) \<or> masked_out bmask i")
  case True
  then show ?thesis by (simp add: cache_one_full_block_def)
next
  case False
  then have nz: "b \<noteq> Block 0" using nulls by (simp add: nulls_ok_def)
  obtain key where key: "make_block_hash_with_group_id (hs ! i) gid = Inr key"
    using make_key_ok[OF g] by blast
  have none: "bhash (blocks p b) = None"
    using fresh[OF nz] block_keys_empty_iff[OF ix b] by simp
  obtain p' where "insert_block_hash key b (Some ((nc + int i + 1) * bsz)) p = Inr p'"
    using insert_block_hash_spec[OF ix b nz] by blast
  then show ?thesis
    using False i key none by (simp add: cache_one_full_block_def Let_def)
qed

lemma cache_loop_total:
  assumes "index_ok p" and "nulls_ok p" and "\<forall>(i, b)\<in>set ibs. i < length hs \<and> b \<in> set (all_blocks p)"
    and "0 \<le> gid" "gid < 2 ^ 32" and "distinct (filter (\<lambda>b. b \<noteq> Block 0) (map snd ibs))"
    and "\<forall>(i, b)\<in>set ibs. b \<noteq> Block 0 \<longrightarrow> block_keys b p = []"
  shows "\<exists>p' new'. rfold (cache_one_full_block hs nc bsz gid bmask) ibs (p, new) = Inr (p', new')"
  using assms(1-3,6-)
proof (induction ibs arbitrary: p new)
  case Nil
  then show ?case by simp
next
  case (Cons ib ibs)
  obtain i b where ib: "ib = (i, b)" by (cases ib)
  have b: "b \<in> set (all_blocks p)" and i: "i < length hs" and fresh: "b \<noteq> Block 0 \<Longrightarrow> block_keys b p = []"
    using Cons.prems by (auto simp: ib)
  obtain p1 new1 where step: "cache_one_full_block hs nc bsz gid bmask (i, b) (p, new) = Inr (p1, new1)"
    using cache_one_full_block_total[OF Cons.prems(1,2) b i assms(4,5) fresh] by blast
  note one = cache_one_full_block_spec[OF step Cons.prems(1,2) b]
  then have sa: "same_alloc p p1" and ix1: "index_ok p1"
    and other: "\<forall>c. c \<in> set (all_blocks p) \<longrightarrow> c \<noteq> b \<longrightarrow> block_keys c p1 = block_keys c p" by blast+
  have all: "all_blocks p1 = all_blocks p" by (rule same_alloc_all_blocks[OF sa])
  have fresh': "\<forall>(j, c)\<in>set ibs. c \<noteq> Block 0 \<longrightarrow> block_keys c p1 = []"
  proof (intro ballI, clarify)
    fix j c assume jc: "(j, c) \<in> set ibs" "c \<noteq> Block 0"
    then have "c \<in> set (filter (\<lambda>b. b \<noteq> Block 0) (map snd ibs))" by force
    then have "c \<noteq> b" using Cons.prems(4) jc(2) by (force simp: ib)
    moreover have "c \<in> set (all_blocks p)" "block_keys c p = []"
      using Cons.prems(3,5) jc by fastforce+
    ultimately show "block_keys c p1 = []"
      using other by simp
  qed
  have "\<forall>(j, c)\<in>set ibs. j < length hs \<and> c \<in> set (all_blocks p1)"
    unfolding all using Cons.prems(3) by simp
  moreover have "distinct (filter (\<lambda>b. b \<noteq> Block 0) (map snd ibs))"
    using Cons.prems(4) by (simp split: if_splits)
  ultimately obtain p' new' where "rfold (cache_one_full_block hs nc bsz gid bmask) ibs (p1, new1) = Inr (p', new')"
    using Cons.IH[OF ix1 nulls_ok_same_alloc[OF sa Cons.prems(2)] _ _ fresh'] by blast
  then show ?case using step by (simp add: ib)
qed

lemma cache_full_blocks_total:
  assumes inv: "pool_inv xs p" and ev: "\<not> enable_kv_cache_events p" and sub: "set bs \<subseteq> set (all_blocks p)"
    and nc: "0 \<le> nc" "nc < nf" "nf \<le> int (length bs)" and bsz: "0 < hash_block_size p" "0 < bsz" "bsz mod hash_block_size p = 0"
    and enough: "nf * bsz \<le> int (length (block_hashes r)) * hash_block_size p" and g: "0 \<le> gid" "gid < 2 ^ 32"
    and dist: "distinct (filter (\<lambda>b. b \<noteq> Block 0) (py_slice bs nc nf))"
    and fresh: "\<forall>b\<in>set (py_slice bs nc nf). b \<noteq> Block 0 \<longrightarrow> block_keys b p = []"
    and mlen: "\<forall>bm. bmask = Some bm \<longrightarrow> int (length bm) = nf - nc"
  shows "\<exists>p'. cache_full_blocks sha256 r bs nc nf bsz gid bmask p = Inr (r, p')"
proof -
  let ?new = "py_slice bs nc nf"
  obtain v where v: "resolve_block_hashes (Raw_hashes (block_hashes r)) (hash_block_size p) bsz False None = Inr v"
    "view_len v = int (length (block_hashes r)) * hash_block_size p div bsz"
    "\<And>a. 0 \<le> a \<Longrightarrow> a \<le> view_len v \<Longrightarrow> \<exists>ys. view_slice v a (view_len v) = Inr ys \<and> int (length ys) = view_len v - a"
    using resolved_view[OF bsz] by metis
  have nf: "nf \<le> view_len v"
    unfolding v(2) using enough le_div_iff_int[OF bsz(2)] by blast
  obtain hs where hs: "view_slice v nc (view_len v) = Inr hs" "int (length hs) = view_len v - nc"
    using v(3)[of nc] nc nf by auto
  have len: "int (length ?new) = nf - nc"
    using nc by (simp add: length_py_slice)
  have mem: "set ?new \<subseteq> set (all_blocks p)"
    using sub by (auto simp: py_slice_def Let_def dest: in_set_takeD in_set_dropD)
  have ibs: "\<forall>(i, b)\<in>set (enumerate 0 ?new). i < length hs \<and> b \<in> set (all_blocks p)"
    using len hs(2) nf mem by (auto simp: in_set_enumerate_eq)
  have "\<forall>(i, b)\<in>set (enumerate 0 ?new). b \<noteq> Block 0 \<longrightarrow> block_keys b p = []"
    using fresh by (auto simp: in_set_enumerate_eq)
  moreover have "index_ok p" using inv by (simp add: pool_inv_def)
  ultimately obtain p1 new where loop: "rfold (cache_one_full_block hs nc bsz gid bmask) (enumerate 0 ?new) (p, []) = Inr (p1, new)"
    using cache_loop_total[OF _ pool_inv_nulls_ok[OF inv] ibs g, of nc bsz bmask "[]"] dist
    unfolding map_snd_enumerate by blast
  have "snd ` set (enumerate 0 ?new) \<subseteq> set (all_blocks p)"
    using ibs by auto
  then have "same_alloc p p1"
    using cache_loop_spec[OF loop \<open>index_ok p\<close> pool_inv_nulls_ok[OF inv]] dist unfolding map_snd_enumerate by blast
  then have "\<not> enable_kv_cache_events p1" using ev by (simp add: same_alloc_def)
  moreover have "case bmask of None \<Rightarrow> True | Some bm \<Rightarrow> length bm = length ?new"
    using mlen len by (auto split: option.splits)
  ultimately show ?thesis
    using nc(2) v(1) hs(1) loop by (simp add: cache_full_blocks_def Let_def)
qed

section \<open>Lookup\<close>

definition holds_key :: "block_pool \<Rightarrow> bytes \<Rightarrow> int \<Rightarrow> block_ref \<Rightarrow> bool" where
  "holds_key p h g b \<longleftrightarrow>
     b \<in> set (all_blocks p) \<and> (\<exists>key. make_block_hash_with_group_id h g = Inr key \<and> key \<in> set (block_keys b p))"

lemma get_cached_loop_spec:
  assumes "index_ok p" and "\<forall>g\<in>set gs. 0 \<le> g \<and> g < 2 ^ 32"
  shows "(\<exists>bs. get_cached_loop h gs acc p = Inr (Some (acc @ bs)) \<and> list_all2 (\<lambda>g b. holds_key p h g b) gs bs) \<or>
    (get_cached_loop h gs acc p = Inr None \<and> (\<exists>g\<in>set gs. \<forall>b. \<not> holds_key p h g b))"
  using assms(2)
proof (induction gs arbitrary: acc)
  case Nil
  then show ?case by simp
next
  case (Cons g gs)
  obtain key where key: "make_block_hash_with_group_id h g = Inr key"
    using make_key_ok[of g h] Cons.prems by auto
  note ix = index_okD[OF assms(1)]
  have hk: "holds_key p h g b \<longleftrightarrow> maps_to (cached_block_hash_to_block p) key b" for b
    using ix(2) key by (auto simp: holds_key_def)
  consider b where "get_one_block key (cached_block_hash_to_block p) = Inr (Some b)" "holds_key p h g b"
    | "get_one_block key (cached_block_hash_to_block p) = Inr None" "\<forall>b. \<not> holds_key p h g b"
    using bhm.find_total[OF ix(1), of key] bhm.find_some[OF ix(1)] bhm.find_none[OF ix(1)] hk
    by (metis option.exhaust)
  then show ?case
  proof cases
    case (1 b)
    then have step: "get_cached_loop h (g # gs) acc p = get_cached_loop h gs (acc @ [b]) p"
      using key by simp
    have "(\<exists>bs. get_cached_loop h gs (acc @ [b]) p = Inr (Some ((acc @ [b]) @ bs)) \<and> list_all2 (\<lambda>g b. holds_key p h g b) gs bs) \<or>
      (get_cached_loop h gs (acc @ [b]) p = Inr None \<and> (\<exists>g\<in>set gs. \<forall>b. \<not> holds_key p h g b))"
      using Cons.IH[of "acc @ [b]"] Cons.prems by simp
    then show ?thesis
    proof (elim disjE exE conjE)
      fix bs assume "get_cached_loop h gs (acc @ [b]) p = Inr (Some ((acc @ [b]) @ bs))"
        "list_all2 (\<lambda>g b. holds_key p h g b) gs bs"
      then show ?thesis
        using step 1(2) by (intro disjI1 exI[of _ "b # bs"]) simp
    qed (use step in auto)
  next
    case 2
    then show ?thesis using key by auto
  qed
qed

lemma get_cached_block_spec:
  assumes "index_ok p" and "\<forall>g\<in>set gs. 0 \<le> g \<and> g < 2 ^ 32"
  shows "(\<exists>bs. get_cached_block h gs p = Inr (Some bs) \<and> list_all2 (\<lambda>g b. holds_key p h g b) gs bs) \<or>
    (get_cached_block h gs p = Inr None \<and> (\<exists>g\<in>set gs. \<forall>b. \<not> holds_key p h g b))"
  using get_cached_loop_spec[OF assms, of h "[]"] by (simp add: get_cached_block_def)

lemma cache_partial_block_spec:
  assumes run: "cache_partial_block sha256 r b n gid bsz p = Inr (res, r', p')"
    and inv: "pool_inv xs p" and b: "b \<in> set (all_blocks p)"
  shows "pool_inv xs p' \<and> same_alloc p p' \<and> (\<exists>m. r' = r\<lparr>prompt_embeds_per_block_hashes := m\<rparr>) \<and>
    (b \<noteq> Block 0 \<longrightarrow> (\<exists>h. get_partial_block_hash r n p = Inr h \<and> holds_key p' h gid b)) \<and>
    (\<forall>c\<in>set (all_blocks p). c \<noteq> b \<longrightarrow> block_keys c p' = block_keys c p) \<and>
    (\<forall>k\<in>set (block_keys b p'). k \<in> set (block_keys b p) \<or>
       (b \<noteq> Block 0 \<and> (\<exists>h. get_partial_block_hash r n p = Inr h \<and> make_block_hash_with_group_id h gid = Inr k)))"
proof (cases "is_null (blocks p b)")
  case True
  then have "b = Block 0" "p' = p" "r' = r"
    using run pool_inv_nulls_ok[OF inv] by (simp_all add: cache_partial_block_def nulls_ok_def)
  then show ?thesis using inv by (auto intro: exI[of _ "prompt_embeds_per_block_hashes r"])
next
  case False
  have ix: "index_ok p" and q: "queue_ok {} xs p" and nz: "b \<noteq> Block 0"
    using inv False by (auto simp: pool_inv_def queue_ok_def)
  define already where "already = (\<lambda>key. bhash (blocks p b) = Some key \<or> contain key (block_id b) (cached_block_hash_to_block p))"
  define drop_old where "drop_old = (\<lambda>key. \<not> (bhash (blocks p b) = Some key \<or> contain key (block_id b) (cached_block_hash_to_block p)) \<and>
      bhash (blocks p b) \<noteq> None \<and> (case bhash_num_tokens (blocks p b) of None \<Rightarrow> False
        | Some m \<Rightarrow> m < n div hash_block_size p * hash_block_size p))"
  obtain h key p2 where h: "get_partial_block_hash r n p = Inr h" and key: "make_block_hash_with_group_id h gid = Inr key"
    and ins: "insert_block_hash key b (Some (n div hash_block_size p * hash_block_size p))
        (if drop_old key then (case remove_cached_block_hashes b p of (removed, p0) \<Rightarrow> emit_block_removed_events removed p0) else p)
        = Inr p2"
    and tail: "(if enable_kv_cache_events p2 \<and> \<not> already key
        then rbind (get_partial_block_parent_hash_and_start r n p2) (\<lambda>(parent, block_start).
             rbind (generate_block_hash_extra_keys sha256 r block_start n (if block_start > 0 then -1 else 0))
               (\<lambda>((keys, mm_idx), r1). Inr (Some key, r1, add_events [partial_stored_event (use_int_block_hashes p2) r1 h parent block_start n gid keys] p2)))
        else Inr (Some key, r, p2)) = Inr (res, r', p')"
    using run False unfolding cache_partial_block_def Let_def already_def drop_old_def
    by (simp del: rbind_Inr) (elim conjE rbindE, simp)
  have tail: "(r' = r \<and> p' = p2) \<or> (\<exists>ev x s e idx. p' = add_events [ev] p2 \<and> generate_block_hash_extra_keys sha256 r s e idx = Inr (x, r'))"
  proof (cases "enable_kv_cache_events p2 \<and> \<not> already key")
    case True
    with tail obtain parent start where "rbind (generate_block_hash_extra_keys sha256 r start n (if start > 0 then -1 else 0))
        (\<lambda>((keys, mm_idx), r1). Inr (Some key, r1,
           add_events [partial_stored_event (use_int_block_hashes p2) r1 h parent start n gid keys] p2)) = Inr (res, r', p')"
      by (cases "get_partial_block_parent_hash_and_start r n p2") (auto split: prod.splits)
    then obtain keys mm_idx where
      "generate_block_hash_extra_keys sha256 r start n (if start > 0 then -1 else 0) = Inr ((keys, mm_idx), r')"
      "p' = add_events [partial_stored_event (use_int_block_hashes p2) r' h parent start n gid keys] p2"
      by (force elim!: rbindE)
    then show ?thesis by blast
  qed (use tail in auto)
  obtain p1 where p1_eq: "(if drop_old key then (case remove_cached_block_hashes b p of (removed, p0) \<Rightarrow> emit_block_removed_events removed p0) else p) = p1"
    and p1: "index_ok p1" "same_alloc p p1" "\<forall>c. c \<in> set (all_blocks p) \<longrightarrow> c \<noteq> b \<longrightarrow> block_keys c p1 = block_keys c p"
      "set (block_keys b p1) \<subseteq> set (block_keys b p)"
  proof (cases "drop_old key")
    case True
    obtain p0 where p0: "(case remove_cached_block_hashes b p of (removed, p0) \<Rightarrow> emit_block_removed_events removed p0) = p0"
      "index_ok p0" "same_alloc p p0" "\<forall>c. c \<in> set (all_blocks p) \<longrightarrow> c \<noteq> b \<longrightarrow> block_keys c p0 = block_keys c p"
      "block_keys b p0 = []"
      using drop_keys_spec[OF ix b] by blast
    have sub: "set (block_keys b p0) \<subseteq> set (block_keys b p)"
      using p0(5) by simp
    show ?thesis
      by (rule that[OF _ p0(2-4) sub]) (simp only: True if_True p0(1))
  next
    case False
    with ix show ?thesis by (intro that[of p]) simp_all
  qed
  have b1: "b \<in> set (all_blocks p1)"
    using b by (simp add: same_alloc_all_blocks[OF p1(2)])
  note ins = ins[unfolded p1_eq]
  have p2: "index_ok p2" "same_alloc p1 p2" "set (block_keys b p2) = insert key (set (block_keys b p1))"
    "\<forall>c. c \<in> set (all_blocks p1) \<longrightarrow> c \<noteq> b \<longrightarrow> block_keys c p2 = block_keys c p1"
    using insert_block_hash_spec[OF p1(1) b1 nz, of key "Some (n div hash_block_size p * hash_block_size p)"]
    unfolding ins by auto
  have ev: "same_alloc p2 p'" "same_index p2 p'"
    using tail by (auto simp: add_events_def same_alloc_def same_index_def)
  have sa: "same_alloc p p'"
    using same_alloc_trans[OF same_alloc_trans[OF p1(2) p2(2)] ev(1)] .
  note keys = block_keys_same_index[OF ev(2)]
  have "holds_key p' h gid b"
    using key p2(3) keys b same_alloc_all_blocks[OF sa] by (simp add: holds_key_def)
  moreover have "\<exists>m. r' = r\<lparr>prompt_embeds_per_block_hashes := m\<rparr>"
    using tail generate_extra_keys_memo by (auto intro: exI[of _ "prompt_embeds_per_block_hashes r"])
  ultimately show ?thesis
    using h sa index_ok_same_index[OF ev(2) p2(1)] queue_ok_same_alloc[OF sa q] p1(3) p2(4) keys
      same_alloc_all_blocks[OF p1(2)] p1(4) p2(3) key nz
    by (auto simp: pool_inv_def)
qed

end
