(* ===== verification/Prefix_Cache.thy ===== *)
theory Prefix_Cache
  imports Block_Pool
begin

text \<open>
  The block pool as a state machine.  A step is one call of a public method of \<^verbatim>\<open>BlockPool\<close> that
  keeps to the contract of the method: a client frees only references it holds, caches only blocks of
  the pool, and caches them under the hashes of a request whose hashes are up to date.

  The machine carries a ghost component, which says for every block which prefixes of which requests
  its KV data stand for: allocation takes the data of a block away, caching records it, and moving
  the hashes of a block moves it along.  No operation reads the ghost component.
\<close>

section \<open>Steps\<close>

type_synonym content = "block_ref \<Rightarrow> (request \<times> nat \<times> int) set"

text \<open>Block \<open>i\<close> of a slice that starts at \<open>num_cached\<close> ends with this hash block.\<close>

definition last_hash_block :: "int \<Rightarrow> int \<Rightarrow> int \<Rightarrow> nat \<Rightarrow> nat" where
  "last_hash_block hbs bsz num_cached i = nat ((num_cached + int i + 1) * bsz div hbs) - 1"

definition full_content :: "request \<Rightarrow> block_ref list \<Rightarrow> int \<Rightarrow> int \<Rightarrow> int \<Rightarrow> int \<Rightarrow> content" where
  "full_content r new_full_blocks num_cached bsz hbs gid b =
     {(r, last_hash_block hbs bsz num_cached i, gid) | i. i < length new_full_blocks \<and> new_full_blocks ! i = b}"

inductive pool_step ::
  "(hash_input \<Rightarrow> bytes) \<Rightarrow> bytes \<Rightarrow> (bytes \<Rightarrow> bytes) \<Rightarrow> block_pool \<times> content \<Rightarrow> block_pool \<times> content \<Rightarrow> bool"
  for H none_hash sha256 where
  step_alloc: "get_new_blocks n p = Inr (bs, p') \<Longrightarrow> 0 \<le> n \<Longrightarrow>
    pool_step H none_hash sha256 (p, c) (p', \<lambda>b. if b \<in> set bs then {} else c b)"
| step_touch: "touch bs p = Inr p' \<Longrightarrow> set bs \<subseteq> set (all_blocks p) \<Longrightarrow> pool_step H none_hash sha256 (p, c) (p', c)"
| step_free: "free_blocks bs p = Inr p' \<Longrightarrow> may_free bs p \<Longrightarrow> pool_step H none_hash sha256 (p, c) (p', c)"
| step_evict: "evict_blocks ids p = Inr p' \<Longrightarrow> \<forall>i\<in>set ids. 0 \<le> i \<and> i < num_gpu_blocks p \<Longrightarrow>
    pool_step H none_hash sha256 (p, c) (p', c)"
| step_reset: "reset_prefix_cache p = (ok, p') \<Longrightarrow> pool_step H none_hash sha256 (p, c) (p', c)"
| step_cache_full: "cache_full_blocks sha256 r bs num_cached num_full bsz gid bmask p = Inr (r', p') \<Longrightarrow>
    enable_caching p \<Longrightarrow> hashed H none_hash sha256 (hash_block_size p) r \<Longrightarrow> set bs \<subseteq> set (all_blocks p) \<Longrightarrow>
    distinct (filter (\<lambda>b. b \<noteq> null_block p) (py_slice bs num_cached num_full)) \<Longrightarrow> 0 \<le> num_cached \<Longrightarrow>
    0 < hash_block_size p \<Longrightarrow> 0 < bsz \<Longrightarrow> bsz mod hash_block_size p = 0 \<Longrightarrow>
    pool_step H none_hash sha256 (p, c)
      (p', \<lambda>b. c b \<union> full_content r (py_slice bs num_cached num_full) num_cached bsz (hash_block_size p) gid b)"
| step_cache_partial: "cache_partial_block sha256 r b n gid bsz p = Inr (res, r', p') \<Longrightarrow> enable_caching p \<Longrightarrow>
    hashed H none_hash sha256 (hash_block_size p) r \<Longrightarrow> b \<in> set (all_blocks p) \<Longrightarrow>
    pool_step H none_hash sha256 (p, c) (p', c(b := insert (r, nat (n div hash_block_size p - 1), gid) (c b)))"
| step_move: "move_block_hashes src dst p = Inr p' \<Longrightarrow> src \<in> set (all_blocks p) \<Longrightarrow> dst \<in> set (all_blocks p) \<Longrightarrow>
    src \<noteq> dst \<Longrightarrow> dst \<noteq> null_block p \<Longrightarrow> pool_step H none_hash sha256 (p, c) (p', c(dst := c src, src := {}))"
| step_emit: "emit_cached_block_events sha256 r num_cached bsz gid p = Inr (r', p') \<Longrightarrow>
    pool_step H none_hash sha256 (p, c) (p', c)"
| step_take: "take_events p = (evs, p') \<Longrightarrow> pool_step H none_hash sha256 (p, c) (p', c)"

inductive pool_reach ::
  "(hash_input \<Rightarrow> bytes) \<Rightarrow> bytes \<Rightarrow> (bytes \<Rightarrow> bytes) \<Rightarrow> int \<Rightarrow> bool \<Rightarrow> int \<Rightarrow> block_pool \<times> content \<Rightarrow> bool"
  for H none_hash sha256 num_blocks caching hbs where
  reach_init: "init_pool num_blocks caching hbs events use_int = Inr p \<Longrightarrow>
    pool_reach H none_hash sha256 num_blocks caching hbs (p, \<lambda>_. {})"
| reach_step: "pool_reach H none_hash sha256 num_blocks caching hbs s \<Longrightarrow> pool_step H none_hash sha256 s s' \<Longrightarrow>
    pool_reach H none_hash sha256 num_blocks caching hbs s'"

section \<open>The invariant of the machine\<close>

text \<open>The key \<open>k\<close> is the key of a prefix whose KV data the block holds.\<close>

definition backed :: "content \<Rightarrow> block_ref \<Rightarrow> bytes \<Rightarrow> bool" where
  "backed c b k \<longleftrightarrow> (\<exists>(r, j, g)\<in>c b. j < length (block_hashes r) \<and>
     make_block_hash_with_group_id (block_hashes r ! j) g = Inr k)"

definition content_ok :: "(hash_input \<Rightarrow> bytes) \<Rightarrow> bytes \<Rightarrow> (bytes \<Rightarrow> bytes) \<Rightarrow> int \<Rightarrow> content \<Rightarrow> bool" where
  "content_ok H none_hash sha256 hbs c \<longleftrightarrow> (\<forall>b. \<forall>(r, j, g)\<in>c b. hashed H none_hash sha256 hbs r)"

definition machine_ok ::
  "(hash_input \<Rightarrow> bytes) \<Rightarrow> bytes \<Rightarrow> (bytes \<Rightarrow> bytes) \<Rightarrow> int \<Rightarrow> bool \<Rightarrow> int \<Rightarrow> block_pool \<times> content \<Rightarrow> bool" where
  "machine_ok H none_hash sha256 num_blocks caching hbs s \<longleftrightarrow>
     (case s of (p, c) \<Rightarrow>
        (\<exists>xs. pool_inv xs p) \<and> num_gpu_blocks p = num_blocks \<and> hash_block_size p = hbs \<and>
        enable_caching p = caching \<and> content_ok H none_hash sha256 hbs c \<and>
        (\<forall>b\<in>set (all_blocks p). \<forall>k\<in>set (block_keys b p). caching \<and> backed c b k))"

lemma machine_okI:
  assumes "pool_inv xs p" and "num_gpu_blocks p = num_blocks" and "hash_block_size p = hbs"
    and "enable_caching p = caching" and "content_ok H none_hash sha256 hbs c"
    and "\<And>b k. b \<in> set (all_blocks p) \<Longrightarrow> k \<in> set (block_keys b p) \<Longrightarrow> caching \<and> backed c b k"
  shows "machine_ok H none_hash sha256 num_blocks caching hbs (p, c)"
  using assms unfolding machine_ok_def by blast

lemma machine_okE:
  assumes "machine_ok H none_hash sha256 num_blocks caching hbs (p, c)"
  obtains xs where "pool_inv xs p" and "num_gpu_blocks p = num_blocks" and "hash_block_size p = hbs"
    and "enable_caching p = caching" and "content_ok H none_hash sha256 hbs c"
    and "\<forall>b\<in>set (all_blocks p). \<forall>k\<in>set (block_keys b p). caching \<and> backed c b k"
  using assms unfolding machine_ok_def by auto

lemma pool_invD:
  assumes "pool_inv xs p"
  shows "queue_ok {} xs p" and "index_ok p" and "null_block p = Block 0"
  using assms by (simp_all add: pool_inv_def queue_ok_def)

lemma pool_inv_same_alloc: "pool_inv xs p \<Longrightarrow> same_alloc p p' \<Longrightarrow> index_ok p' \<Longrightarrow> pool_inv xs p'"
  by (simp add: pool_inv_def queue_ok_same_alloc)

lemma same_alloc_config:
  assumes "same_alloc p p'"
  shows "num_gpu_blocks p' = num_gpu_blocks p" and "hash_block_size p' = hash_block_size p"
    and "enable_caching p' = enable_caching p" and "all_blocks p' = all_blocks p"
  using assms by (simp_all add: same_alloc_def all_blocks_def)

lemma all_blocks_cong: "num_gpu_blocks p' = num_gpu_blocks p \<Longrightarrow> all_blocks p' = all_blocks p"
  by (simp add: all_blocks_def)

lemma backed_mono: "backed c b k \<Longrightarrow> c b \<subseteq> c' b \<Longrightarrow> backed c' b k"
  unfolding backed_def by blast

text \<open>The pattern of all steps: the new state keeps the configuration, and every key of the new state is backed.\<close>

lemma machine_ok_step:
  assumes ok: "machine_ok H none_hash sha256 num_blocks caching hbs (p, c)"
    and inv: "pool_inv ys p'" and conf: "num_gpu_blocks p' = num_gpu_blocks p" "hash_block_size p' = hash_block_size p"
      "enable_caching p' = enable_caching p"
    and cont: "content_ok H none_hash sha256 hbs c'"
    and keys: "\<And>b k. b \<in> set (all_blocks p) \<Longrightarrow> k \<in> set (block_keys b p') \<Longrightarrow>
      (k \<in> set (block_keys b p) \<and> c b \<subseteq> c' b) \<or> (enable_caching p \<and> backed c' b k)"
  shows "machine_ok H none_hash sha256 num_blocks caching hbs (p', c')"
proof -
  from ok obtain xs where m: "num_gpu_blocks p = num_blocks" "hash_block_size p = hbs" "enable_caching p = caching"
    "\<forall>b\<in>set (all_blocks p). \<forall>k\<in>set (block_keys b p). caching \<and> backed c b k"
    by (elim machine_okE)
  have "caching \<and> backed c' b k" if "b \<in> set (all_blocks p)" "k \<in> set (block_keys b p')" for b k
    using keys[OF that] m(3,4) backed_mono[of c b k c'] that(1) by blast
  then show ?thesis
    using inv conf cont m(1-3) all_blocks_cong[OF conf(1)] by (intro machine_okI) auto
qed

section \<open>Every step keeps the invariant\<close>

lemma content_ok_sub: "content_ok H n sh hbs c \<Longrightarrow> (\<And>b. c' b \<subseteq> c b) \<Longrightarrow> content_ok H n sh hbs c'"
  unfolding content_ok_def by blast

lemma step_alloc_ok:
  assumes ok: "machine_ok H none_hash sha256 num_blocks caching hbs (p, c)"
    and run: "get_new_blocks n p = Inr (bs, p')" and n: "0 \<le> n"
  shows "machine_ok H none_hash sha256 num_blocks caching hbs (p', \<lambda>b. if b \<in> set bs then {} else c b)"
proof -
  from ok obtain xs where m: "pool_inv xs p" "content_ok H none_hash sha256 hbs c" "enable_caching p = caching"
    and nokeys: "\<forall>b\<in>set (all_blocks p). \<forall>k\<in>set (block_keys b p). caching \<and> backed c b k"
    by (elim machine_okE)
  have le: "n \<le> int (length xs)"
    using get_new_blocks_short[OF m(1)] run by (metis not_le sum.distinct(1))
  from get_new_blocks_spec[OF m(1) n le] run
  have inv: "pool_inv (drop (nat n) xs) p'" and fr: "frame (set bs) p p'"
    and new: "\<forall>b\<in>set bs. block_keys b p' = (if enable_caching p then [] else block_keys b p)"
    by auto
  show ?thesis
  proof (rule machine_ok_step[OF ok inv])
    show "num_gpu_blocks p' = num_gpu_blocks p" "hash_block_size p' = hash_block_size p" "enable_caching p' = enable_caching p"
      using fr by (simp_all add: frame_def)
    show "content_ok H none_hash sha256 hbs (\<lambda>b. if b \<in> set bs then {} else c b)"
      using m(2) by (rule content_ok_sub) simp
  next
    fix b k assume b: "b \<in> set (all_blocks p)" and k: "k \<in> set (block_keys b p')"
    have "b \<notin> set bs" "block_keys b p' = block_keys b p"
      using new k m(3) nokeys[rule_format, OF b] fr b by (auto simp: frame_def split: if_splits)
    then show "(k \<in> set (block_keys b p) \<and> c b \<subseteq> (if b \<in> set bs then {} else c b)) \<or>
        (enable_caching p \<and> backed (\<lambda>b. if b \<in> set bs then {} else c b) b k)"
      using k by simp
  qed
qed

text \<open>Steps that add no key and leave the ghost component alone.\<close>

lemma step_same_content_ok:
  assumes ok: "machine_ok H none_hash sha256 num_blocks caching hbs (p, c)"
    and "pool_inv ys p'" and "num_gpu_blocks p' = num_gpu_blocks p" "hash_block_size p' = hash_block_size p"
      "enable_caching p' = enable_caching p"
    and keys: "\<And>b. b \<in> set (all_blocks p) \<Longrightarrow> set (block_keys b p') \<subseteq> set (block_keys b p)"
  shows "machine_ok H none_hash sha256 num_blocks caching hbs (p', c)"
proof (rule machine_ok_step[OF assms(1-5)])
  show "content_ok H none_hash sha256 hbs c"
    using ok by (auto elim: machine_okE)
qed (use keys in blast)

lemma step_touch_ok:
  assumes ok: "machine_ok H none_hash sha256 num_blocks caching hbs (p, c)"
    and "touch bs p = Inr p'" and "set bs \<subseteq> set (all_blocks p)"
  shows "machine_ok H none_hash sha256 num_blocks caching hbs (p', c)"
proof -
  from ok obtain xs where "pool_inv xs p" by (elim machine_okE)
  from touch_spec[OF this assms(3)] assms(2)
  have t: "pool_inv (filter (\<lambda>b. b \<notin> set bs) xs) p'" "frame (set bs) p p'" "same_index p p'"
    by auto
  show ?thesis
    using t(2) block_keys_same_index[OF t(3)] by (intro step_same_content_ok[OF ok t(1)]) (simp_all add: frame_def)
qed

lemma step_free_ok:
  assumes ok: "machine_ok H none_hash sha256 num_blocks caching hbs (p, c)"
    and "free_blocks bs p = Inr p'" and "may_free bs p"
  shows "machine_ok H none_hash sha256 num_blocks caching hbs (p', c)"
proof -
  from ok obtain xs where "pool_inv xs p" by (elim machine_okE)
  from free_blocks_spec[OF this assms(3)] assms(2)
  obtain ys where t: "pool_inv ys p'" "same_index p p'" "enable_caching p' = enable_caching p" "hash_block_size p' = hash_block_size p"
    by auto
  show ?thesis
    using t(2-) block_keys_same_index[OF t(2)] by (intro step_same_content_ok[OF ok t(1)]) (simp_all add: same_index_def)
qed

lemma step_evict_ok:
  assumes ok: "machine_ok H none_hash sha256 num_blocks caching hbs (p, c)"
    and "evict_blocks ids p = Inr p'" and "\<forall>i\<in>set ids. 0 \<le> i \<and> i < num_gpu_blocks p"
  shows "machine_ok H none_hash sha256 num_blocks caching hbs (p', c)"
proof -
  from ok obtain xs where inv: "pool_inv xs p" by (elim machine_okE)
  from evict_blocks_spec[OF pool_invD(2)[OF inv] assms(3)] assms(2)
  have t: "index_ok p'" "same_alloc p p'" "\<forall>i\<in>set ids. block_keys (Block (nat i)) p' = []"
    "\<forall>c\<in>set (all_blocks p). block_id c \<notin> set ids \<longrightarrow> block_keys c p' = block_keys c p"
    by auto
  have "set (block_keys b p') \<subseteq> set (block_keys b p)" if b: "b \<in> set (all_blocks p)" for b
  proof (cases "block_id b \<in> set ids")
    case True
    moreover from b obtain i where "b = Block i" by (auto simp: all_blocks_def)
    ultimately show ?thesis using t(3) by force
  qed (use t(4) b in simp)
  with same_alloc_config[OF t(2)] show ?thesis
    by (intro step_same_content_ok[OF ok pool_inv_same_alloc[OF inv t(2,1)]])
qed

lemma step_reset_ok:
  assumes ok: "machine_ok H none_hash sha256 num_blocks caching hbs (p, c)" and "reset_prefix_cache p = (res, p')"
  shows "machine_ok H none_hash sha256 num_blocks caching hbs (p', c)"
proof -
  from ok obtain xs where inv: "pool_inv xs p" by (elim machine_okE)
  from reset_prefix_cache_spec[OF inv] assms(2)
  have t: "pool_inv xs p'" "same_alloc p p'" "(\<forall>b\<in>set (all_blocks p). block_keys b p' = []) \<or> p' = p"
    by (auto split: if_splits)
  then show ?thesis
    using same_alloc_config[OF t(2)] by (intro step_same_content_ok[OF ok t(1)]) auto
qed

text \<open>The view of a group looks up the hash of the last hash block of the group's block.\<close>

lemma view_get_last_hash_block:
  assumes v: "resolve_block_hashes (Raw_hashes hs) hbs bsz False None = Inr v"
    and pos: "0 < hbs" "0 < bsz" "bsz mod hbs = 0" and nc: "0 \<le> nc" and get: "view_get v (nc + int i) = Inr h"
  shows "last_hash_block hbs bsz nc i < length hs \<and> h = hs ! last_hash_block hbs bsz nc i"
proof -
  define k where "k = bsz div hbs"
  have bsz: "bsz = k * hbs"
    using pos(3) unfolding k_def by (metis add_0_right div_mult_mod_eq)
  have k: "1 \<le> k"
    using pos bsz by (metis int_one_le_iff_zero_less zero_less_mult_pos2)
  have idx: "(nc + int i + 1) * bsz div hbs = (nc + int i + 1) * k"
    using pos(1) by (simp add: bsz mult.assoc[symmetric])
  have ge: "1 \<le> (nc + int i + 1) * k"
    using nc k by (metis add.commute add_increasing2 int_one_le_iff_zero_less mult_pos_pos of_nat_0_le_iff order_le_less zless_add1_eq add_nonneg_nonneg)
  have get': "py_nth hs ((nc + int i + 1) * k - 1) = Inr h"
  proof (cases "bsz = hbs")
    case True
    then have "v = Raw_hashes hs" "k = 1"
      using v pos bsz by (simp_all add: resolve_block_hashes_def)
    then show ?thesis using get by simp
  next
    case False
    then have "v = Hash_view hs k"
      using v pos by (simp add: resolve_block_hashes_def new_hash_view_def k_def)
    then show ?thesis using get by simp
  qed
  from py_nth_Inr_nonneg[OF get'] ge
  have "(nc + int i + 1) * k - 1 < int (length hs)" "h = hs ! nat ((nc + int i + 1) * k - 1)"
    by simp_all
  moreover have "nat ((nc + int i + 1) * k) - 1 = nat ((nc + int i + 1) * k - 1)"
    by simp
  ultimately show ?thesis
    unfolding last_hash_block_def idx using ge by (simp only: nat_less_iff)
qed

lemma step_cache_full_ok:
  assumes ok: "machine_ok H none_hash sha256 num_blocks caching hbs (p, c)"
    and run: "cache_full_blocks sha256 r bs nc nf bsz gid bmask p = Inr (r', p')" and caching: "enable_caching p"
    and r: "hashed H none_hash sha256 (hash_block_size p) r" and sub: "set bs \<subseteq> set (all_blocks p)"
    and dist: "distinct (filter (\<lambda>b. b \<noteq> null_block p) (py_slice bs nc nf))" and nc: "0 \<le> nc"
    and pos: "0 < hash_block_size p" "0 < bsz" "bsz mod hash_block_size p = 0"
  shows "machine_ok H none_hash sha256 num_blocks caching hbs
    (p', \<lambda>b. c b \<union> full_content r (py_slice bs nc nf) nc bsz (hash_block_size p) gid b)"
    (is "machine_ok _ _ _ _ _ _ (p', ?c)")
proof -
  from ok obtain xs where inv: "pool_inv xs p" and cont: "content_ok H none_hash sha256 hbs c" and hbs: "hash_block_size p = hbs"
    by (elim machine_okE)
  have dist': "distinct (filter (\<lambda>b. b \<noteq> Block 0) (py_slice bs nc nf))"
    using dist pool_invD(3)[OF inv] by simp
  note spec = cache_full_blocks_spec[OF run inv sub nc dist']
  show ?thesis
  proof (rule machine_ok_step[OF ok])
    show "pool_inv xs p'" using spec by blast
    have "same_alloc p p'" using spec by blast
    then show "num_gpu_blocks p' = num_gpu_blocks p" "hash_block_size p' = hash_block_size p" "enable_caching p' = enable_caching p"
      by (simp_all add: same_alloc_def)
    show "content_ok H none_hash sha256 hbs ?c"
      using cont r hbs by (auto simp: content_ok_def full_content_def)
  next
    fix b k assume b: "b \<in> set (all_blocks p)" and k: "k \<in> set (block_keys b p')"
    show "(k \<in> set (block_keys b p) \<and> c b \<subseteq> ?c b) \<or> (enable_caching p \<and> backed ?c b k)"
    proof (cases "k \<in> set (block_keys b p)")
      case False
      then have "nc < nf" using spec k by auto
      with spec b k False obtain v i h where i: "i < length (py_slice bs nc nf)" "b = py_slice bs nc nf ! i"
        "resolve_block_hashes (Raw_hashes (block_hashes r)) (hash_block_size p) bsz False None = Inr v"
        "view_get v (nc + int i) = Inr h" "make_block_hash_with_group_id h gid = Inr k"
        by blast
      from view_get_last_hash_block[OF i(3) pos nc i(4)] i(1,2,5) have "backed ?c b k"
        unfolding backed_def full_content_def by blast
      with caching show ?thesis by simp
    qed simp
  qed
qed

lemma step_cache_partial_ok:
  assumes ok: "machine_ok H none_hash sha256 num_blocks caching hbs (p, c)"
    and run: "cache_partial_block sha256 r b n gid bsz p = Inr (res, r', p')" and caching: "enable_caching p"
    and r: "hashed H none_hash sha256 (hash_block_size p) r" and b: "b \<in> set (all_blocks p)"
  shows "machine_ok H none_hash sha256 num_blocks caching hbs
    (p', c(b := insert (r, nat (n div hash_block_size p - 1), gid) (c b)))" (is "machine_ok _ _ _ _ _ _ (p', ?c)")
proof -
  from ok obtain xs where inv: "pool_inv xs p" and cont: "content_ok H none_hash sha256 hbs c" and hbs: "hash_block_size p = hbs"
    by (elim machine_okE)
  note spec = cache_partial_block_spec[OF run inv b]
  show ?thesis
  proof (rule machine_ok_step[OF ok])
    show "pool_inv xs p'" using spec by blast
    have "same_alloc p p'" using spec by blast
    then show "num_gpu_blocks p' = num_gpu_blocks p" "hash_block_size p' = hash_block_size p" "enable_caching p' = enable_caching p"
      by (simp_all add: same_alloc_def)
    show "content_ok H none_hash sha256 hbs ?c"
      using cont r hbs by (auto simp: content_ok_def)
  next
    fix d k assume d: "d \<in> set (all_blocks p)" and k: "k \<in> set (block_keys d p')"
    show "(k \<in> set (block_keys d p) \<and> c d \<subseteq> ?c d) \<or> (enable_caching p \<and> backed ?c d k)"
    proof (cases "k \<in> set (block_keys d p)")
      case False
      then have "d = b" using spec d k by auto
      with spec k False obtain h where h: "get_partial_block_hash r n p = Inr h" "make_block_hash_with_group_id h gid = Inr k"
        by blast
      let ?j = "nat (n div hash_block_size p - 1)"
      have "?j < length (block_hashes r)" "block_hashes r ! ?j = h"
        using h(1) by (auto simp: get_partial_block_hash_def py_nth_ok Let_def)
      with h(2) have "backed ?c b k" unfolding backed_def by auto
      with caching \<open>d = b\<close> show ?thesis by simp
    qed auto
  qed
qed

lemma step_move_ok:
  assumes ok: "machine_ok H none_hash sha256 num_blocks caching hbs (p, c)"
    and run: "move_block_hashes src dst p = Inr p'" and src: "src \<in> set (all_blocks p)" and dst: "dst \<in> set (all_blocks p)"
    and ne: "src \<noteq> dst" "dst \<noteq> null_block p"
  shows "machine_ok H none_hash sha256 num_blocks caching hbs (p', c(dst := c src, src := {}))"
    (is "machine_ok _ _ _ _ _ _ (p', ?c)")
proof -
  from ok obtain xs where inv: "pool_inv xs p" and cont: "content_ok H none_hash sha256 hbs c"
    and m: "enable_caching p = caching" "\<forall>b\<in>set (all_blocks p). \<forall>k\<in>set (block_keys b p). caching \<and> backed c b k"
    by (elim machine_okE)
  have "bhash (blocks p dst) = None"
    using run by (simp add: move_block_hashes_def)
  with move_block_hashes_spec[OF pool_invD(2)[OF inv] src dst] ne run pool_invD(3)[OF inv]
  have t: "index_ok p'" "same_alloc p p'" "block_keys src p' = []" "set (block_keys dst p') = set (block_keys src p)"
    "\<forall>c. c \<in> set (all_blocks p) \<longrightarrow> c \<noteq> src \<longrightarrow> c \<noteq> dst \<longrightarrow> block_keys c p' = block_keys c p"
    by auto
  show ?thesis
  proof (rule machine_ok_step[OF ok pool_inv_same_alloc[OF inv t(2,1)]])
    show "num_gpu_blocks p' = num_gpu_blocks p" "hash_block_size p' = hash_block_size p" "enable_caching p' = enable_caching p"
      using same_alloc_config[OF t(2)] by simp_all
    show "content_ok H none_hash sha256 hbs ?c"
      using cont by (simp add: content_ok_def)
  next
    fix b k assume b: "b \<in> set (all_blocks p)" and k: "k \<in> set (block_keys b p')"
    show "(k \<in> set (block_keys b p) \<and> c b \<subseteq> ?c b) \<or> (enable_caching p \<and> backed ?c b k)"
      using t(3-5) b k m(1) ne(1) m(2)[rule_format, OF src, of k] by (cases "b = src"; cases "b = dst") (auto simp: backed_def)
  qed
qed

lemma pool_inv_events:
  assumes "pool_inv xs p"
  shows "pool_inv xs (p\<lparr>kv_event_queue := evs\<rparr>)"
proof -
  have "same_alloc p (p\<lparr>kv_event_queue := evs\<rparr>)" "same_index p (p\<lparr>kv_event_queue := evs\<rparr>)"
    by (simp_all add: same_alloc_def same_index_def)
  then show ?thesis
    using assms index_ok_same_index pool_inv_same_alloc pool_invD(2) by blast
qed

lemma step_events_ok:
  assumes ok: "machine_ok H none_hash sha256 num_blocks caching hbs (p, c)" and p': "p' = p\<lparr>kv_event_queue := evs\<rparr>"
  shows "machine_ok H none_hash sha256 num_blocks caching hbs (p', c)"
proof -
  from ok obtain xs where inv: "pool_inv xs p" by (elim machine_okE)
  show ?thesis
    using p' by (intro step_same_content_ok[OF ok pool_inv_events[OF inv, of evs, folded p']]) (simp_all add: block_keys_def)
qed

lemma emit_cached_block_events_only:
  assumes "emit_cached_block_events sha256 r nc bsz gid p = Inr (r', p')"
  shows "\<exists>evs. p' = p\<lparr>kv_event_queue := evs\<rparr>"
proof -
  have "p' = p \<or> (\<exists>e. p' = add_events e p)"
    using assms by (auto simp: emit_cached_block_events_def elim!: rbindE split: if_splits prod.splits)
  then show ?thesis
    by (metis add_events_def block_pool.surjective block_pool.update_convs(11))
qed

lemma take_events_only: "take_events p = (evs, p') \<Longrightarrow> \<exists>q. p' = p\<lparr>kv_event_queue := q\<rparr>"
  by (metis take_events_def block_pool.surjective block_pool.update_convs(11) prod.inject)

lemma pool_step_ok:
  assumes "pool_step H none_hash sha256 s s'" and "machine_ok H none_hash sha256 num_blocks caching hbs s"
  shows "machine_ok H none_hash sha256 num_blocks caching hbs s'"
  using assms
proof (induction rule: pool_step.induct)
  case (step_emit r num_cached bsz gid p r' p' c)
  then show ?case using emit_cached_block_events_only step_events_ok by blast
next
  case (step_take p evs p' c)
  then show ?case using take_events_only step_events_ok by blast
next
  case step_alloc
  then show ?case using step_alloc_ok by simp
next
  case step_cache_full
  then show ?case by (intro step_cache_full_ok)
next
  case step_cache_partial
  then show ?case by (intro step_cache_partial_ok)
next
  case step_move
  then show ?case by (intro step_move_ok)
qed (rule step_touch_ok step_free_ok step_evict_ok step_reset_ok; assumption)+

lemma pool_reach_ok:
  assumes "pool_reach H none_hash sha256 num_blocks caching hbs s"
  shows "machine_ok H none_hash sha256 num_blocks caching hbs s"
  using assms
proof (induction rule: pool_reach.induct)
  case (reach_init events use_int p)
  then have "0 < num_blocks"
    by (simp add: init_pool_def)
  from init_pool_spec[OF this, of caching hbs events use_int] reach_init show ?case
    by (auto intro!: machine_okI simp: content_ok_def)
qed (rule pool_step_ok)

section \<open>Consequences\<close>

text \<open>
  C7: In every state the block pool can reach, its bookkeeping agrees: the free queue holds, without
  repetition, exactly the blocks other than the null block that nobody references, reference counts of
  such blocks are never negative, the lookup table finds a block under a key exactly when the block
  carries that key, and the null block carries none.
\<close>

theorem reachable_pool_consistent:
  assumes "pool_reach H none_hash sha256 num_blocks caching hbs (p, c)"
  shows "\<exists>xs. free_list (free_block_queue p) xs \<and> distinct xs \<and> get_num_free_blocks p = int (length xs) \<and>
    (\<forall>b. b \<in> set xs \<longleftrightarrow> b \<in> set (all_blocks p) \<and> b \<noteq> null_block p \<and> ref_cnt (blocks p b) = 0) \<and>
    (\<forall>b\<in>set (all_blocks p). b \<noteq> null_block p \<longrightarrow> 0 \<le> ref_cnt (blocks p b)) \<and>
    (\<forall>b\<in>set (all_blocks p). \<forall>k. contain k (block_id b) (cached_block_hash_to_block p) \<longleftrightarrow> k \<in> set (block_keys b p)) \<and>
    block_keys (null_block p) p = []"
proof -
  from pool_reach_ok[OF assms] obtain xs where inv: "pool_inv xs p" by (rule machine_okE)
  note q = pool_invD(1)[OF inv] and ix = pool_invD(2)[OF inv] and nb = pool_invD(3)[OF inv]
  have "num_gpu_blocks p > 0" using q by (simp add: queue_ok_def)
  then have "Block 0 \<in> set (all_blocks p)" by (force simp: all_blocks_def)
  then have "block_keys (Block 0) p = []"
    using block_keys_empty_iff[OF ix] index_okD(5)[OF ix] by simp
  moreover have "contain k (block_id b) (cached_block_hash_to_block p) \<longleftrightarrow> k \<in> set (block_keys b p)"
    if "b \<in> set (all_blocks p)" for b k
    using index_okD(2)[OF ix, of k b] all_blocks_is_block[OF that] that by (simp add: maps_to_def)
  ultimately show ?thesis
    using queue_okD(1,3,5,6,7)[OF q] free_list_size[OF queue_okD(1)[OF q]] nb
    by (intro exI[of _ xs]) (auto simp: get_num_free_blocks_def)
qed

text \<open>
  C16: Allocation hands out blocks from the front of the free queue.  In a consistent pool with the
  free blocks \<open>xs\<close>, asking for at most \<open>length xs\<close> blocks returns the first \<open>n\<close> of them, which nobody
  referenced before and which have one reference and, with caching on, no cache key after; nothing
  changes for the other blocks and the pool stays consistent.  Asking for more raises and changes nothing.
\<close>

theorem allocation_takes_front:
  assumes "pool_inv xs p" and "0 \<le> n"
  shows "(n \<le> int (length xs) \<longrightarrow>
      (\<exists>p'. get_new_blocks n p = Inr (take (nat n) xs, p') \<and> pool_inv (drop (nat n) xs) p' \<and>
        (\<forall>b\<in>set (take (nat n) xs). ref_cnt (blocks p b) = 0 \<and> ref_cnt (blocks p' b) = 1 \<and>
           (enable_caching p \<longrightarrow> block_keys b p' = [])) \<and>
        (\<forall>b\<in>set (all_blocks p). b \<notin> set (take (nat n) xs) \<longrightarrow>
           ref_cnt (blocks p' b) = ref_cnt (blocks p b) \<and> block_keys b p' = block_keys b p))) \<and>
    (int (length xs) < n \<longrightarrow> get_new_blocks n p = Inl ValueError)"
proof (intro conjI impI)
  assume n: "n \<le> int (length xs)"
  from get_new_blocks_spec[OF assms n] obtain p' where
    p': "get_new_blocks n p = Inr (take (nat n) xs, p')" "pool_inv (drop (nat n) xs) p'"
      "frame (set (take (nat n) xs)) p p'"
      "\<forall>b\<in>set (take (nat n) xs). ref_cnt (blocks p' b) = 1 \<and> block_keys b p' = (if enable_caching p then [] else block_keys b p)"
    by blast
  have "ref_cnt (blocks p b) = 0" if "b \<in> set (take (nat n) xs)" for b
    using queue_okD(3)[OF pool_invD(1)[OF assms(1)] in_set_takeD[OF that]] by simp
  with p' show "\<exists>p'. get_new_blocks n p = Inr (take (nat n) xs, p') \<and> pool_inv (drop (nat n) xs) p' \<and>
      (\<forall>b\<in>set (take (nat n) xs). ref_cnt (blocks p b) = 0 \<and> ref_cnt (blocks p' b) = 1 \<and>
         (enable_caching p \<longrightarrow> block_keys b p' = [])) \<and>
      (\<forall>b\<in>set (all_blocks p). b \<notin> set (take (nat n) xs) \<longrightarrow>
         ref_cnt (blocks p' b) = ref_cnt (blocks p b) \<and> block_keys b p' = block_keys b p)"
    by (intro exI[of _ p']) (simp add: frame_def)
qed (rule get_new_blocks_short[OF assms(1)])

theorem allocation_takes_front_witness:
  "\<exists>p p'. init_pool 4 True 2 False False = Inr p \<and> get_new_blocks 2 p = Inr ([Block 1, Block 2], p') \<and>
     ref_cnt (blocks p' (Block 1)) = 1 \<and> ref_cnt (blocks p' (Block 3)) = 0 \<and> get_new_blocks 4 p = Inl ValueError"
proof -
  obtain p where p: "init_pool 4 True 2 False False = Inr p" "pool_inv (map Block [1..<nat 4]) p"
    "\<forall>b. ref_cnt (blocks p b) = 0" "num_gpu_blocks p = 4"
    using init_pool_spec[of 4 True 2 False False] by auto
  have xs: "map Block [1..<nat 4] = [Block 1, Block 2, Block 3]"
    by (simp add: upt_rec)
  have "Block 3 \<in> set (all_blocks p)"
    using p(4) by (auto simp: all_blocks_def)
  with p allocation_takes_front[OF p(2)[unfolded xs], of 2] allocation_takes_front[OF p(2)[unfolded xs], of 4]
  show ?thesis
    by (auto simp: numeral_2_eq_2)
qed

text \<open>
  C17: Releasing blocks decides who is evicted next.  For distinct blocks the caller holds references
  to, the ones whose last reference this was enter the free queue: those without a cache key in front,
  to be reused first, those with a key (or all, with caching off) at the end, each group in the order
  given.  Keys are untouched, so that released blocks still serve lookups.
\<close>

theorem free_order:
  assumes "pool_inv xs p" and "may_free bs p" and "distinct bs"
  shows "\<exists>p'. free_blocks bs p = Inr p' \<and>
    pool_inv (filter (\<lambda>b. released p b \<and> evict_first p b) bs @ xs @
              filter (\<lambda>b. released p b \<and> \<not> evict_first p b) bs) p' \<and>
    (\<forall>b. block_keys b p' = block_keys b p \<and>
         ref_cnt (blocks p' b) = ref_cnt (blocks p b) - (if b \<in> set bs then 1 else 0))"
proof -
  obtain p' where p': "free_blocks bs p = Inr p'"
    "pool_inv (fst (snd (free_loop bs [] [] p)) @ xs @ fst (free_loop bs [] [] p)) p'" "same_index p p'"
    "\<forall>b. ref_cnt (blocks p' b) = ref_cnt (blocks p b) - int (count_list bs b)"
    using free_blocks_spec[OF assms(1,2)] by auto
  have "count_list bs b = (if b \<in> set bs then 1 else 0)" for b
    using assms(3) by (induction bs) auto
  then show ?thesis
    using p' free_loop_distinct[OF queue_okD(2)[OF pool_invD(1)[OF assms(1)]] assms(3), of "[]" "[]"]
      block_keys_same_index[OF p'(3)] by auto
qed

theorem free_order_witness:
  "\<exists>p p1 p2. init_pool 4 True 2 False False = Inr p \<and> get_new_blocks 2 p = Inr ([Block 1, Block 2], p1) \<and>
     free_blocks [Block 2, Block 1] p1 = Inr p2 \<and> pool_inv [Block 2, Block 1, Block 3] p2"
proof -
  obtain p where p: "init_pool 4 True 2 False False = Inr p" "pool_inv (map Block [1..<nat 4]) p"
    "num_gpu_blocks p = 4" "enable_caching p"
    using init_pool_spec[of 4 True 2 False False] by auto
  have xs: "map Block [1..<nat 4] = [Block 1, Block 2, Block 3]"
    "take (nat 2) [Block 1, Block 2, Block 3] = [Block 1, Block 2]" "drop (nat 2) [Block 1, Block 2, Block 3] = [Block 3]"
    by (simp_all add: upt_rec)
  from get_new_blocks_spec[OF p(2), of 2] obtain p1 where
    p1: "get_new_blocks 2 p = Inr ([Block 1, Block 2], p1)" "pool_inv [Block 3] p1" "frame (set [Block 1, Block 2]) p p1"
      "\<forall>b\<in>set [Block 1, Block 2]. ref_cnt (blocks p1 b) = 1 \<and> block_keys b p1 = (if enable_caching p then [] else block_keys b p)"
    unfolding xs by auto
  have conf: "num_gpu_blocks p1 = 4" "enable_caching p1"
    using p1(3) p(3,4) by (simp_all add: frame_def)
  have "may_free [Block 2, Block 1] p1"
    using p1(4) conf(1) by (auto simp: may_free_def all_blocks_def)
  moreover have "bhash (blocks p1 b) = None" if "b \<in> set [Block 1, Block 2]" for b
    using p1(4) that p(4) by (auto simp: block_keys_def split: option.splits)
  then have "released p1 b \<and> evict_first p1 b" if "b \<in> set [Block 1, Block 2]" for b
    using p1(4) that conf(2) by (auto simp: released_def evict_first_def)
  then have "filter (\<lambda>b. released p1 b \<and> evict_first p1 b) [Block 2, Block 1] = [Block 2, Block 1]"
    "filter (\<lambda>b. released p1 b \<and> \<not> evict_first p1 b) [Block 2, Block 1] = []"
    by simp_all
  ultimately obtain p2 where "free_blocks [Block 2, Block 1] p1 = Inr p2" "pool_inv ([Block 2, Block 1] @ [Block 3] @ []) p2"
    using free_order[OF p1(2), of "[Block 2, Block 1]"] by force
  with p(1) p1(1) show ?thesis
    by (intro exI[of _ p] exI[of _ p1] exI[of _ p2]) simp
qed

text \<open>
  C25: The prefix cache can be reset exactly when no block other than the null block is in use.  A
  successful reset leaves no block with a key, so no later lookup hits; a refused one changes nothing.
\<close>

theorem reset_exact:
  assumes "pool_inv xs p"
  shows "\<exists>p'. reset_prefix_cache p = ((\<forall>b\<in>set (all_blocks p). b \<noteq> null_block p \<longrightarrow> ref_cnt (blocks p b) = 0), p') \<and>
    (if \<forall>b\<in>set (all_blocks p). b \<noteq> null_block p \<longrightarrow> ref_cnt (blocks p b) = 0
     then pool_inv xs p' \<and> (\<forall>h g. 0 \<le> g \<longrightarrow> g < 2 ^ 32 \<longrightarrow> get_cached_block h [g] p' = Inr None) else p' = p)"
proof -
  let ?idle = "\<forall>b\<in>set (all_blocks p). b \<noteq> Block 0 \<longrightarrow> ref_cnt (blocks p b) = 0"
  obtain p' where p': "reset_prefix_cache p = (?idle, p')" "pool_inv xs p'" "same_alloc p p'"
    "if ?idle then \<forall>b\<in>set (all_blocks p). block_keys b p' = [] else p' = p"
    using reset_prefix_cache_spec[OF assms] by blast
  have "get_cached_block h [g] p' = Inr None" if "0 \<le> g" "g < 2 ^ 32" ?idle for h g
    using get_cached_block_spec[OF pool_invD(2)[OF p'(2)], of "[g]" h] that p'(4) same_alloc_config(4)[OF p'(3)]
    by (auto simp: holds_key_def list_all2_Cons1)
  with p' show ?thesis
    unfolding pool_invD(3)[OF assms] by (intro exI[of _ p']) auto
qed

theorem reset_exact_witness:
  "\<exists>p p' q q'. init_pool 4 True 2 False False = Inr p \<and> reset_prefix_cache p = (True, p') \<and>
     get_new_blocks 1 p = Inr ([Block 1], q) \<and> reset_prefix_cache q = (False, q')"
proof -
  obtain p where p: "init_pool 4 True 2 False False = Inr p" "pool_inv (map Block [1..<nat 4]) p"
    "num_gpu_blocks p = 4" "\<forall>b. ref_cnt (blocks p b) = 0"
    using init_pool_spec[of 4 True 2 False False] by auto
  from get_new_blocks_spec[OF p(2), of 1] obtain q where
    q: "get_new_blocks 1 p = Inr ([Block 1], q)" "pool_inv (drop 1 (map Block [1..<nat 4])) q" "frame {Block 1} p q"
      "ref_cnt (blocks q (Block 1)) = 1"
    by (auto simp: upt_rec)
  have "num_gpu_blocks q = 4" using q(3) p(3) by (simp add: frame_def)
  then have "Block 1 \<in> set (all_blocks q)" by (simp add: all_blocks_def)
  moreover have "Block 1 \<noteq> null_block q" using pool_invD(3)[OF q(2)] by simp
  ultimately have used: "\<not> (\<forall>b\<in>set (all_blocks q). b \<noteq> null_block q \<longrightarrow> ref_cnt (blocks q b) = 0)"
    using q(4) by force
  have idle: "\<forall>b\<in>set (all_blocks p). b \<noteq> null_block p \<longrightarrow> ref_cnt (blocks p b) = 0"
    using p(4) by blast
  from reset_exact[OF p(2)] obtain p' where "reset_prefix_cache p = (True, p')"
    unfolding eqTrueI[OF idle] by blast
  moreover from reset_exact[OF q(2)] obtain q' where "reset_prefix_cache q = (False, q')"
    unfolding Eq_FalseI[OF used] by blast
  ultimately show ?thesis using p(1) q(1) by blast
qed

text \<open>C26: The reported KV-cache usage is a fraction between 0 and 1, and 0 exactly when every block is free.\<close>

theorem usage_bounds:
  assumes "pool_inv xs p"
  shows "0 \<le> get_usage p \<and> get_usage p \<le> 1 \<and>
    (get_usage p = 0 \<longleftrightarrow> (\<forall>b\<in>set (all_blocks p). b \<noteq> null_block p \<longrightarrow> ref_cnt (blocks p b) = 0))"
proof -
  note q = pool_invD(1)[OF assms]
  let ?others = "set (all_blocks p) - {Block 0}"
  have pos: "0 < num_gpu_blocks p" using q by (simp add: queue_ok_def)
  have card: "card ?others = nat (num_gpu_blocks p) - 1"
    using pos by (subst card_Diff_singleton) (auto simp: all_blocks_def card_image inj_on_def)
  have xs: "set xs = {b \<in> ?others. ref_cnt (blocks p b) = 0}"
    using queue_okD(3,5)[OF q] by auto
  have len: "length xs = card (set xs)"
    using queue_okD(7)[OF q] by (simp add: distinct_card)
  have le: "length xs \<le> nat (num_gpu_blocks p) - 1"
    unfolding len card[symmetric] by (rule card_mono) (auto simp: xs)
  have full: "length xs = nat (num_gpu_blocks p) - 1 \<longleftrightarrow> (\<forall>b\<in>?others. ref_cnt (blocks p b) = 0)"
    unfolding len card[symmetric]
  proof
    assume "card (set xs) = card ?others"
    then have "set xs = ?others" by (intro card_subset_eq) (auto simp: xs)
    then show "\<forall>b\<in>?others. ref_cnt (blocks p b) = 0" unfolding xs by blast
  next
    assume "\<forall>b\<in>?others. ref_cnt (blocks p b) = 0"
    then have "set xs = ?others" unfolding xs by blast
    then show "card (set xs) = card ?others" by simp
  qed
  have use: "get_usage p = (if m = 0 then 0 else 1 - of_nat (length xs) / of_nat m)" if "m = nat (num_gpu_blocks p) - 1" for m
    using that pos free_list_size[OF queue_okD(1)[OF q]]
    by (auto simp: get_usage_def Let_def get_num_free_blocks_def of_nat_diff)
  have bound: "0 \<le> (1::rat) - of_nat l / of_nat m \<and> (1::rat) - of_nat l / of_nat m \<le> 1 \<and>
      ((1::rat) - of_nat l / of_nat m = 0 \<longleftrightarrow> l = m)" if "l \<le> m" "m \<noteq> 0" for l m :: nat
    using that by (auto simp: divide_le_eq_1)
  have "0 \<le> get_usage p \<and> get_usage p \<le> 1 \<and> (get_usage p = 0 \<longleftrightarrow> length xs = nat (num_gpu_blocks p) - 1)"
    using bound[OF le] le unfolding use[OF refl] by (cases "nat (num_gpu_blocks p) - 1 = 0") (simp_all only:, simp_all)
  then show ?thesis
    using full pool_invD(3)[OF assms] by auto
qed

theorem usage_bounds_witness:
  "\<exists>p. init_pool 4 True 2 False False = Inr p \<and> get_usage p = 0"
proof -
  obtain p where p: "init_pool 4 True 2 False False = Inr p" "pool_inv (map Block [1..<nat 4]) p"
    "\<forall>b. ref_cnt (blocks p b) = 0"
    using init_pool_spec[of 4 True 2 False False] by auto
  then show ?thesis using usage_bounds[OF p(2)] by blast
qed

section \<open>Hits are sound and complete\<close>

lemma get_cached_loop_sound:
  assumes "index_ok p" and "get_cached_loop h gs acc p = Inr (Some res)"
  shows "\<exists>bs. res = acc @ bs \<and> list_all2 (holds_key p h) gs bs"
  using assms(2)
proof (induction gs arbitrary: acc)
  case Nil
  then show ?case by simp
next
  case (Cons g gs)
  then obtain key b where key: "make_block_hash_with_group_id h g = Inr key"
    and b: "get_one_block key (cached_block_hash_to_block p) = Inr (Some b)"
    and rest: "get_cached_loop h gs (acc @ [b]) p = Inr (Some res)"
    by (auto elim!: rbindE split: option.splits)
  have "holds_key p h g b"
    using bhm.find_some[OF index_okD(1)[OF assms(1)] b] index_okD(2)[OF assms(1)] key by (auto simp: holds_key_def)
  with Cons.IH[OF rest] show ?case by auto
qed

text \<open>
  C3: A prefix-cache hit returns KV data of the same prefix.  In every reachable state, when a lookup
  of the hash of block \<open>i\<close> of a request returns blocks for the groups asked for, each of these blocks
  was last filled by a request with the same tokens and the same extra keys up to the end of block
  \<open>i\<close>, and cached for that group and that position.  The hash function is assumed to have no collision
  between the hashed prefixes of the two requests.
\<close>

theorem prefix_hit_sound:
  assumes reach: "pool_reach H none_hash sha256 num_blocks caching hbs (p, c)" and "0 < hbs"
    and req: "hashed H none_hash sha256 hbs req" and i: "i < length (block_hashes req)"
    and hit: "get_cached_block (block_hashes req ! i) gs p = Inr (Some bs)"
    and cf: "\<forall>b. \<forall>(r, j, g)\<in>c b. collision_free H none_hash
      (map (block_input H none_hash sha256 hbs req) [0..<Suc i] @ map (block_input H none_hash sha256 hbs r) [0..<Suc j])"
  shows "list_all2 (\<lambda>g b. \<exists>r. (r, i, g) \<in> c b \<and>
      take (Suc i * nat hbs) (all_token_ids req) = take (Suc i * nat hbs) (all_token_ids r) \<and>
      (\<forall>k \<le> i. extra_keys_at sha256 req (int k * hbs) (int k * hbs + hbs) =
               extra_keys_at sha256 r (int k * hbs) (int k * hbs + hbs))) gs bs"
proof -
  from pool_reach_ok[OF reach] obtain xs where inv: "pool_inv xs p" and cont: "content_ok H none_hash sha256 hbs c"
    and keys: "\<forall>b\<in>set (all_blocks p). \<forall>k\<in>set (block_keys b p). caching \<and> backed c b k"
    by (rule machine_okE)
  have "list_all2 (holds_key p (block_hashes req ! i)) gs bs"
    using get_cached_loop_sound[OF pool_invD(2)[OF inv], of _ gs "[]"] hit by (auto simp: get_cached_block_def)
  then show ?thesis
  proof (rule list_all2_mono)
    fix g b assume "holds_key p (block_hashes req ! i) g b"
    then obtain key where b: "b \<in> set (all_blocks p)" "key \<in> set (block_keys b p)"
      and key: "make_block_hash_with_group_id (block_hashes req ! i) g = Inr key"
      by (auto simp: holds_key_def)
    from keys b have "backed c b key" by blast
    then obtain r j g' where r: "(r, j, g') \<in> c b" "j < length (block_hashes r)"
      "make_block_hash_with_group_id (block_hashes r ! j) g' = Inr key"
      by (auto simp: backed_def)
    have same: "block_hashes req ! i = block_hashes r ! j" "g = g'"
      using make_key_inj[OF key r(3)] by simp_all
    have "hashed H none_hash sha256 hbs r" using cont r(1) by (auto simp: content_ok_def)
    from equal_hash_same_prefix[OF \<open>0 < hbs\<close> req this i r(2) _ same(1)] cf r(1) same(2)
    show "\<exists>r. (r, i, g) \<in> c b \<and>
      take (Suc i * nat hbs) (all_token_ids req) = take (Suc i * nat hbs) (all_token_ids r) \<and>
      (\<forall>k \<le> i. extra_keys_at sha256 req (int k * hbs) (int k * hbs + hbs) =
               extra_keys_at sha256 r (int k * hbs) (int k * hbs + hbs))"
      by fastforce
  qed
qed

lemma cache_full_holds:
  assumes "cache_full_blocks sha256 r bs nc nf bsz gid bmask p = Inr (r', p')" and "pool_inv xs p"
    and "set bs \<subseteq> set (all_blocks p)" and "0 \<le> nc"
    and "distinct (filter (\<lambda>b. b \<noteq> null_block p) (py_slice bs nc nf))" and "0 < hash_block_size p" and "0 < bsz"
    and "bsz mod hash_block_size p = 0" and "nc < nf"
    and "i < length (py_slice bs nc nf)" and "py_slice bs nc nf ! i \<noteq> null_block p" and "\<not> masked_out bmask i"
  shows "index_ok p' \<and> last_hash_block (hash_block_size p) bsz nc i < length (block_hashes r) \<and>
    holds_key p' (block_hashes r ! last_hash_block (hash_block_size p) bsz nc i) gid (py_slice bs nc nf ! i)"
proof -
  let ?b = "py_slice bs nc nf ! i"
  note nb = pool_invD(3)[OF assms(2)]
  note spec = cache_full_blocks_spec[OF assms(1-4) assms(5)[unfolded nb]]
  then have inv': "pool_inv xs p'" and alloc: "same_alloc p p'" by blast+
  obtain v h key where v: "resolve_block_hashes (Raw_hashes (block_hashes r)) (hash_block_size p) bsz False None = Inr v"
    "view_get v (nc + int i) = Inr h" "make_block_hash_with_group_id h gid = Inr key" "key \<in> set (block_keys ?b p')"
    using spec assms(9-12) nb by auto
  have "?b \<in> set bs"
    using assms(10) set_take_subset set_drop_subset unfolding py_slice_def by (meson in_set_dropD in_set_takeD nth_mem)
  then show ?thesis
    using view_get_last_hash_block[OF v(1) assms(6,7,8,4) v(2)] assms(3) v(3,4) same_alloc_config(4)[OF alloc] pool_invD(2)[OF inv']
    by (auto simp: holds_key_def)
qed

text \<open>
  C18: What is cached is found.  After a successful \<open>cache_full_blocks\<close> on distinct blocks of a consistent
  pool, the lookup of the hash of each block that is neither the null block nor masked out returns a
  block of the pool that carries this key, and the block just cached carries it.
\<close>

theorem cached_blocks_found:
  assumes "cache_full_blocks sha256 r bs nc nf bsz gid bmask p = Inr (r', p')" and "pool_inv xs p"
    and "set bs \<subseteq> set (all_blocks p)" and "0 \<le> nc"
    and "distinct (filter (\<lambda>b. b \<noteq> null_block p) (py_slice bs nc nf))" and "0 < hash_block_size p" and "0 < bsz"
    and "bsz mod hash_block_size p = 0" and "nc < nf" and "0 \<le> gid" and "gid < 2 ^ 32"
    and "i < length (py_slice bs nc nf)" and "py_slice bs nc nf ! i \<noteq> null_block p" and "\<not> masked_out bmask i"
  shows "last_hash_block (hash_block_size p) bsz nc i < length (block_hashes r) \<and>
    holds_key p' (block_hashes r ! last_hash_block (hash_block_size p) bsz nc i) gid (py_slice bs nc nf ! i) \<and>
    (\<exists>b. get_cached_block (block_hashes r ! last_hash_block (hash_block_size p) bsz nc i) [gid] p' = Inr (Some [b]) \<and>
         holds_key p' (block_hashes r ! last_hash_block (hash_block_size p) bsz nc i) gid b)"
  using cache_full_holds[OF assms(1-9) assms(12-14)] assms(10,11)
    get_cached_block_spec[of p' "[gid]" "block_hashes r ! last_hash_block (hash_block_size p) bsz nc i"]
  by (auto simp: list_all2_Cons1)

text \<open>A run of the machine that caches the two full blocks of a request.\<close>

lemma sample_run:
  obtains p1 p2 c where "pool_inv [Block 3] p1" and "num_gpu_blocks p1 = 4" and "hash_block_size p1 = 2"
    and "cache_full_blocks id (sample_hashed 0 [1, 2, 3, 4, 5]) [Block 1, Block 2] 0 2 2 0 None p1 =
      Inr (sample_hashed 0 [1, 2, 3, 4, 5], p2)"
    and "pool_reach toy_hash [0] id 4 True 2 (p2, c)"
    and "\<And>b r j g. (r, j, g) \<in> c b \<Longrightarrow> r = sample_hashed 0 [1, 2, 3, 4, 5] \<and> j < 2"
proof -
  let ?r = "sample_hashed 0 [1, 2, 3, 4, 5]" and ?reach = "pool_reach toy_hash [0] id 4 True 2"
  obtain p where p: "init_pool 4 True 2 False False = Inr p" "pool_inv (map Block [1..<nat 4]) p"
    "num_gpu_blocks p = 4" "enable_caching p" "hash_block_size p = 2"
    using init_pool_spec[of 4 True 2 False False] by auto
  have ev: "\<not> enable_kv_cache_events p"
    using p(1) by (auto simp: init_pool_def elim!: rbindE)
  have xs: "map Block [1..<nat 4] = [Block 1, Block 2, Block 3]"
    "take (nat 2) [Block 1, Block 2, Block 3] = [Block 1, Block 2]" "drop (nat 2) [Block 1, Block 2, Block 3] = [Block 3]"
    by (simp_all add: upt_rec)
  from get_new_blocks_spec[OF p(2), of 2] obtain p1 where
    p1: "get_new_blocks 2 p = Inr ([Block 1, Block 2], p1)" "pool_inv [Block 3] p1" "frame (set [Block 1, Block 2]) p p1"
      "\<forall>b\<in>set [Block 1, Block 2]. ref_cnt (blocks p1 b) = 1 \<and> block_keys b p1 = (if enable_caching p then [] else block_keys b p)"
    unfolding xs by auto
  have conf: "num_gpu_blocks p1 = 4" "enable_caching p1" "hash_block_size p1 = 2" "\<not> enable_kv_cache_events p1"
    using p1(3) p(3-5) ev by (simp_all add: frame_def)
  have bs: "set [Block 1, Block 2] \<subseteq> set (all_blocks p1)"
    using conf(1) by (auto simp: all_blocks_def)
  have slice: "py_slice [a, b] 0 2 = [a, b]" for a b :: block_ref
    by (simp add: py_slice_nonneg)
  obtain p2 where run: "cache_full_blocks id ?r [Block 1, Block 2] 0 2 2 0 None p1 = Inr (?r, p2)"
  proof -
    have "\<exists>p'. cache_full_blocks id ?r [Block 1, Block 2] 0 2 2 0 None p1 = Inr (?r, p')"
      by (rule cache_full_blocks_total[OF p1(2) conf(4) bs])
        (use conf p1(4) p(4) in \<open>simp_all add: slice del: sample_hashed_simps(3)\<close>)
    with that show ?thesis by blast
  qed
  have "?reach (p, \<lambda>_. {})" by (rule reach_init[OF p(1)])
  from reach_step[OF this step_alloc[OF p1(1)]]
  have "?reach (p1, \<lambda>b. if b \<in> set [Block 1, Block 2] then {} else {})" by simp
  from reach_step[OF this step_cache_full[OF run]] sample_is_hashed conf(2,3) bs pool_invD(3)[OF p1(2)]
  have "?reach (p2, \<lambda>b. full_content ?r [Block 1, Block 2] 0 2 2 0 b)"
    by (simp add: slice)
  moreover have "r = ?r \<and> j < 2" if "(r, j, g) \<in> full_content ?r [Block 1, Block 2] 0 2 2 0 b" for b r j g
    using that by (auto simp: full_content_def last_hash_block_def)
  ultimately show ?thesis
    using that[OF p1(2) conf(1,3) run] by blast
qed

theorem reachable_pool_consistent_witness:
  "\<exists>p c xs. pool_reach toy_hash [0] id 4 True 2 (p, c) \<and> free_list (free_block_queue p) xs \<and>
     get_num_free_blocks p = int (length xs)"
  using sample_run reachable_pool_consistent by metis

theorem prefix_hit_sound_witness:
  "\<exists>p c b r. pool_reach toy_hash [0] id 4 True 2 (p, c) \<and>
     get_cached_block (block_hashes (sample_hashed 1 [1, 2, 3, 4, 6]) ! 1) [0] p = Inr (Some [b]) \<and>
     (r, 1, 0) \<in> c b \<and> take 4 (all_token_ids (sample_hashed 1 [1, 2, 3, 4, 6])) = take 4 (all_token_ids r)"
proof -
  let ?r = "sample_hashed 0 [1, 2, 3, 4, 5]" and ?q = "sample_hashed 1 [1, 2, 3, 4, 6]"
  obtain p1 p c where s: "pool_inv [Block 3] p1" "num_gpu_blocks p1 = 4" "hash_block_size p1 = 2"
    "cache_full_blocks id ?r [Block 1, Block 2] 0 2 2 0 None p1 = Inr (?r, p)"
    "pool_reach toy_hash [0] id 4 True 2 (p, c)" "\<And>b r j g. (r, j, g) \<in> c b \<Longrightarrow> r = ?r \<and> j < 2"
    by (rule sample_run) blast
  have "set [Block 1, Block 2] \<subseteq> set (all_blocks p1)"
    using s(2) by (auto simp: all_blocks_def)
  from cache_full_holds[OF s(4,1) this, of 1] s(3) pool_invD(3)[OF s(1)]
  have "index_ok p \<and> holds_key p (block_hashes ?r ! 1) 0 (Block 2)"
    by (simp add: py_slice_nonneg last_hash_block_def masked_out_def del: sample_hashed_simps)
  then obtain b where hit: "get_cached_block (block_hashes ?q ! 1) [0] p = Inr (Some [b])"
    using get_cached_block_spec[of p "[0]" "block_hashes ?r ! 1"] sample_hashes_equal
    by (auto simp: list_all2_Cons1 simp del: sample_hashed_simps)
  have "collision_free toy_hash [0] (map (block_input toy_hash [0] id 2 ?q) [0..<Suc 1] @ map (block_input toy_hash [0] id 2 r) [0..<Suc j])"
    if "(r, j, g) \<in> c b" for b r j g
    using s(6)[OF that] by (intro collision_free_subset[OF sample_collision_free]) auto
  then have cf: "\<forall>b. \<forall>(r, j, g)\<in>c b. collision_free toy_hash [0]
      (map (block_input toy_hash [0] id 2 ?q) [0..<Suc 1] @ map (block_input toy_hash [0] id 2 r) [0..<Suc j])"
    by blast
  have "1 < length (block_hashes ?q)" by (simp del: sample_hashed_simps)
  from prefix_hit_sound[OF s(5) _ sample_is_hashed this hit cf]
  have "\<exists>r. (r, 1, 0) \<in> c b \<and> take (Suc 1 * nat 2) (all_token_ids ?q) = take (Suc 1 * nat 2) (all_token_ids r)"
    by (auto simp del: sample_hashed_simps)
  with s(5) hit show ?thesis
    by (simp del: sample_hashed_simps) blast
qed

theorem cached_blocks_found_witness:
  "\<exists>p p' b. cache_full_blocks id (sample_hashed 0 [1, 2, 3, 4, 5]) [Block 1, Block 2] 0 2 2 0 None p =
       Inr (sample_hashed 0 [1, 2, 3, 4, 5], p') \<and>
     get_cached_block (block_hashes (sample_hashed 0 [1, 2, 3, 4, 5]) ! 1) [0] p' = Inr (Some [b])"
proof -
  obtain p1 p2 where s: "pool_inv [Block 3] p1" "num_gpu_blocks p1 = 4" "hash_block_size p1 = 2"
    "cache_full_blocks id (sample_hashed 0 [1, 2, 3, 4, 5]) [Block 1, Block 2] 0 2 2 0 None p1 =
      Inr (sample_hashed 0 [1, 2, 3, 4, 5], p2)"
    by (rule sample_run)
  have "set [Block 1, Block 2] \<subseteq> set (all_blocks p1)"
    using s(2) by (auto simp: all_blocks_def)
  from cached_blocks_found[OF s(4,1) this, of 1] s(3) pool_invD(3)[OF s(1)]
  show ?thesis
    using s(4) by (auto simp: py_slice_nonneg last_hash_block_def masked_out_def simp del: sample_hashed_simps)
qed

end
