(* ===== verification/Heapq.thy ===== *)
theory Heapq
  imports Prelude "HOL-Library.Multiset"
begin

text \<open>
  The functions of Python's standard module \<^verbatim>\<open>heapq\<close> that the priority queue calls: \<^verbatim>\<open>heappush\<close>,
  \<^verbatim>\<open>heappop\<close> and \<^verbatim>\<open>heapify\<close>, with the two sift loops they are built from, on a list and for an
  arbitrary comparison.  The proofs are in a locale that states what the comparison must satisfy.
\<close>

section \<open>The algorithms\<close>

function siftdown_loop :: "('a \<Rightarrow> 'a \<Rightarrow> bool) \<Rightarrow> 'a \<Rightarrow> nat \<Rightarrow> 'a list \<Rightarrow> nat \<Rightarrow> 'a list" where
  "siftdown_loop lt newitem startpos heap pos =
     (if pos > startpos
      then (let parentpos = (pos - 1) div 2; par = heap ! parentpos
            in if lt newitem par then siftdown_loop lt newitem startpos (heap[pos := par]) parentpos
               else heap[pos := newitem])
      else heap[pos := newitem])"
  by pat_completeness auto
termination by (relation "measure (\<lambda>(_, _, _, _, pos). pos)") auto

declare siftdown_loop.simps [simp del]

definition siftdown :: "('a \<Rightarrow> 'a \<Rightarrow> bool) \<Rightarrow> 'a list \<Rightarrow> nat \<Rightarrow> nat \<Rightarrow> 'a list" where
  "siftdown lt heap startpos pos = siftdown_loop lt (heap ! pos) startpos heap pos"

definition small_child :: "('a \<Rightarrow> 'a \<Rightarrow> bool) \<Rightarrow> 'a list \<Rightarrow> nat \<Rightarrow> nat" where
  "small_child lt heap pos =
     (let childpos = 2 * pos + 1; rightpos = childpos + 1
      in if rightpos < length heap \<and> \<not> lt (heap ! childpos) (heap ! rightpos) then rightpos else childpos)"

lemma small_child_cases: "small_child lt heap pos = 2 * pos + 1 \<or> small_child lt heap pos = 2 * pos + 2"
  by (simp add: small_child_def)

lemma small_child_range:
  "2 * pos + 1 < length h \<Longrightarrow> small_child lt h pos < length h \<and> pos < small_child lt h pos"
  by (auto simp: small_child_def)

text \<open>The loop of \<open>siftup\<close>, which moves the smaller child up until it reaches a leaf.\<close>

function siftup_loop :: "('a \<Rightarrow> 'a \<Rightarrow> bool) \<Rightarrow> 'a list \<Rightarrow> nat \<Rightarrow> 'a list \<times> nat" where
  "siftup_loop lt heap pos =
     (if 2 * pos + 1 < length heap
      then siftup_loop lt (heap[pos := heap ! small_child lt heap pos]) (small_child lt heap pos)
      else (heap, pos))"
  by pat_completeness auto
termination
  by (relation "measure (\<lambda>(_, heap, pos). length heap - pos)") (auto simp: small_child_def Let_def)

declare siftup_loop.simps [simp del]

definition siftup :: "('a \<Rightarrow> 'a \<Rightarrow> bool) \<Rightarrow> 'a list \<Rightarrow> nat \<Rightarrow> 'a list" where
  "siftup lt heap pos =
     (let newitem = heap ! pos
      in case siftup_loop lt heap pos of (heap', p) \<Rightarrow> siftdown lt (heap'[p := newitem]) pos p)"

definition heappush :: "('a \<Rightarrow> 'a \<Rightarrow> bool) \<Rightarrow> 'a list \<Rightarrow> 'a \<Rightarrow> 'a list" where
  "heappush lt heap item = siftdown lt (heap @ [item]) 0 (length heap)"

definition heappop :: "('a \<Rightarrow> 'a \<Rightarrow> bool) \<Rightarrow> 'a list \<Rightarrow> ('a \<times> 'a list) result" where
  "heappop lt heap =
     (if heap = [] then Inl IndexError
      else (let lastelt = last heap; rest = butlast heap
            in if rest = [] then Inr (lastelt, [])
               else Inr (rest ! 0, siftup lt (rest[0 := lastelt]) 0)))"

definition heapify :: "('a \<Rightarrow> 'a \<Rightarrow> bool) \<Rightarrow> 'a list \<Rightarrow> 'a list" where
  "heapify lt heap = fold (\<lambda>i h. siftup lt h i) (rev [0..<length heap div 2]) heap"

section \<open>What does not depend on the order\<close>

lemma length_siftdown_loop [simp]: "length (siftdown_loop lt v s h pos) = length h"
proof (induction lt v s h pos rule: siftdown_loop.induct)
  case (1 lt v s h pos)
  then show ?case by (subst siftdown_loop.simps) (simp add: Let_def)
qed

lemma length_siftdown [simp]: "length (siftdown lt h s pos) = length h"
  by (simp add: siftdown_def)

lemma siftup_loop_range:
  assumes "pos < length h"
  shows "length (fst (siftup_loop lt h pos)) = length h \<and> snd (siftup_loop lt h pos) < length h"
  using assms
proof (induction lt h pos rule: siftup_loop.induct)
  case (1 lt h pos)
  then show ?case
    using small_child_range[of pos h lt] by (subst siftup_loop.simps, subst (2) siftup_loop.simps) simp
qed

lemma length_siftup [simp]: "pos < length h \<Longrightarrow> length (siftup lt h pos) = length h"
  using siftup_loop_range[of pos h lt] by (auto simp: siftup_def split: prod.splits)

text \<open>Moving the element at \<open>q\<close> to the hole at \<open>pos\<close> makes \<open>q\<close> the hole.\<close>

lemma mset_move_hole:
  assumes "pos < length h" and "q < length h" and "q \<noteq> pos"
  shows "mset (h[pos := h ! q, q := v]) = mset (h[pos := v])"
proof -
  have "mset (h[pos := v, q := (h[pos := v]) ! pos, pos := (h[pos := v]) ! q]) = mset (h[pos := v])"
    using assms by (intro mset_swap) simp_all
  moreover have "h[pos := v, q := (h[pos := v]) ! pos, pos := (h[pos := v]) ! q] = h[pos := h ! q, q := v]"
    using assms by (auto intro!: nth_equalityI simp: nth_list_update)
  ultimately show ?thesis by simp
qed

lemma mset_siftdown_loop: "pos < length h \<Longrightarrow> mset (siftdown_loop lt v s h pos) = mset (h[pos := v])"
proof (induction lt v s h pos rule: siftdown_loop.induct)
  case (1 lt v s h pos)
  let ?q = "(pos - 1) div 2"
  have "mset (siftdown_loop lt v s (h[pos := h ! ?q]) ?q) = mset (h[pos := v])" if "s < pos" "lt v (h ! ?q)"
  proof -
    have "mset (siftdown_loop lt v s (h[pos := h ! ?q]) ?q) = mset (h[pos := h ! ?q, ?q := v])"
      using 1 that by simp
    also have "\<dots> = mset (h[pos := v])"
      using 1(2) that by (intro mset_move_hole) auto
    finally show ?thesis .
  qed
  then show ?case by (subst siftdown_loop.simps) (simp add: Let_def)
qed

lemma mset_siftup_loop:
  "pos < length h \<Longrightarrow> mset ((fst (siftup_loop lt h pos))[snd (siftup_loop lt h pos) := v]) = mset (h[pos := v])"
proof (induction lt h pos rule: siftup_loop.induct)
  case (1 lt h pos)
  let ?q = "small_child lt h pos"
  show ?case
  proof (cases "2 * pos + 1 < length h")
    case False
    then show ?thesis by (simp add: siftup_loop.simps)
  next
    case True
    have q: "?q < length h" "?q \<noteq> pos" using small_child_range[OF True, of lt] by auto
    have "mset ((fst (siftup_loop lt h pos))[snd (siftup_loop lt h pos) := v]) = mset (h[pos := h ! ?q, ?q := v])"
      using 1(1)[OF True] True q by (simp add: siftup_loop.simps[of lt h pos])
    also have "\<dots> = mset (h[pos := v])"
      using q 1(2) by (intro mset_move_hole)
    finally show ?thesis .
  qed
qed

lemma mset_siftup: 
  assumes "pos < length h"
  shows "mset (siftup lt h pos) = mset h"
proof -
  obtain h' p where hp: "siftup_loop lt h pos = (h', p)" by fastforce
  have "length h' = length h" "p < length h" "mset (h'[p := h ! pos]) = mset h"
    using siftup_loop_range[OF assms, of lt] mset_siftup_loop[OF assms, of lt "h ! pos"] by (simp_all add: hp)
  then show ?thesis
    by (simp add: siftup_def siftdown_def hp mset_siftdown_loop Let_def)
qed

lemma length_heappush [simp]: "length (heappush lt h x) = Suc (length h)"
  by (simp add: heappush_def)

lemma mset_heappush [simp]: "mset (heappush lt h x) = add_mset x (mset h)"
  by (simp add: heappush_def siftdown_def mset_siftdown_loop)

lemma fold_siftup:
  "\<forall>i\<in>set is. i < length h \<Longrightarrow>
   mset (fold (\<lambda>i h. siftup lt h i) is h) = mset h \<and> length (fold (\<lambda>i h. siftup lt h i) is h) = length h"
  by (induction "is" arbitrary: h) (simp_all add: mset_siftup)

lemma mset_heapify [simp]: "mset (heapify lt h) = mset h"
  unfolding heapify_def using fold_siftup[of "rev [0..<length h div 2]" h lt] by fastforce

lemma length_heapify [simp]: "length (heapify lt h) = length h"
  by (metis mset_heapify size_mset)

lemma heappop_mset:
  assumes "heappop lt h = Inr (x, h')"
  shows "mset h = add_mset x (mset h')"
proof -
  have ne: "h \<noteq> []" using assms by (auto simp: heappop_def)
  then obtain ys y where h: "h = ys @ [y]" by (metis rev_exhaust)
  show ?thesis
  proof (cases ys)
    case Nil
    then show ?thesis using assms h by (simp add: heappop_def)
  next
    case (Cons a as)
    then show ?thesis using assms h by (auto simp: heappop_def Let_def mset_siftup)
  qed
qed

lemma heappop_total: "h \<noteq> [] \<Longrightarrow> \<exists>x h'. heappop lt h = Inr (x, h')"
  by (simp add: heappop_def Let_def)

section \<open>The heap order\<close>

definition parent :: "nat \<Rightarrow> nat" where
  "parent i = (i - 1) div 2"

text \<open>\<open>startpos\<close> is \<open>pos\<close> or above it in the tree.\<close>

fun above :: "nat \<Rightarrow> nat \<Rightarrow> bool" where
  "above s pos = (if pos = s then True else if s < pos then above s ((pos - 1) div 2) else False)"

declare above.simps [simp del]

lemma above_refl [simp]: "above s s"
  by (simp add: above.simps)

lemma above_parent: "above s pos \<Longrightarrow> s < pos \<Longrightarrow> above s (parent pos)"
  unfolding parent_def by (subst (asm) above.simps) auto

lemma above_le: "above s pos \<Longrightarrow> s \<le> pos"
  by (subst (asm) above.simps) (auto split: if_splits)

lemma above_child: "above s pos \<Longrightarrow> parent c = pos \<Longrightarrow> 0 < c \<Longrightarrow> above s c"
  using above_le[of s pos] by (subst above.simps) (auto simp: parent_def)

lemma above_root: "above 0 pos"
  by (induction pos rule: less_induct) (subst above.simps, auto)

lemma child_iff: "0 < c \<Longrightarrow> parent c = pos \<longleftrightarrow> c = 2 * pos + 1 \<or> c = 2 * pos + 2"
  unfolding parent_def by presburger

text \<open>Every edge of the tree whose upper end is at or behind \<open>s\<close> is in order.\<close>

definition heap_from :: "('a \<Rightarrow> 'a \<Rightarrow> bool) \<Rightarrow> nat \<Rightarrow> 'a list \<Rightarrow> bool" where
  "heap_from lt s h \<longleftrightarrow> (\<forall>i < length h. 0 < i \<longrightarrow> s \<le> parent i \<longrightarrow> \<not> lt (h ! i) (h ! parent i))"

text \<open>The same apart from the edges at a hole, whose children do not precede its parent.\<close>

definition heap_hole :: "('a \<Rightarrow> 'a \<Rightarrow> bool) \<Rightarrow> nat \<Rightarrow> 'a list \<Rightarrow> nat \<Rightarrow> bool" where
  "heap_hole lt s h pos \<longleftrightarrow>
     (\<forall>i < length h. 0 < i \<longrightarrow> s \<le> parent i \<longrightarrow> i \<noteq> pos \<longrightarrow> parent i \<noteq> pos \<longrightarrow> \<not> lt (h ! i) (h ! parent i)) \<and>
     (s < pos \<longrightarrow> (\<forall>i < length h. 0 < i \<longrightarrow> parent i = pos \<longrightarrow> \<not> lt (h ! i) (h ! parent pos)))"

locale heap_order =
  fixes lt :: "'a \<Rightarrow> 'a \<Rightarrow> bool"
  assumes lt_irrefl: "\<not> lt a a"
    and lt_asym: "lt a b \<Longrightarrow> \<not> lt b a"
    and not_lt_trans: "\<not> lt b a \<Longrightarrow> \<not> lt c b \<Longrightarrow> \<not> lt c a"
begin

lemma siftdown_loop_heap:
  assumes "heap_hole lt s h pos" and "above s pos" and "pos < length h"
    and "\<forall>i < length h. 0 < i \<longrightarrow> parent i = pos \<longrightarrow> \<not> lt (h ! i) v"
  shows "heap_from lt s (siftdown_loop lt v s h pos)"
  using assms
proof (induction pos arbitrary: h rule: less_induct)
  case (less pos)
  let ?q = "parent pos"
  have fill: "heap_from lt s (h[pos := v])" if "s < pos \<longrightarrow> \<not> lt v (h ! ?q)"
    unfolding heap_from_def
  proof (intro allI impI)
    fix i assume i: "i < length (h[pos := v])" "0 < i" "s \<le> parent i"
    have "parent i < i" using i(2) by (auto simp: parent_def)
    show "\<not> lt (h[pos := v] ! i) (h[pos := v] ! parent i)"
    proof (cases "i = pos")
      case True
      then have "s < pos" using i(3) \<open>parent i < i\<close> by simp
      then show ?thesis using that True i(1) \<open>parent i < i\<close> by simp
    next
      case False
      then show ?thesis
        using less.prems(1,3,4) i by (cases "parent i = pos") (auto simp: heap_hole_def)
    qed
  qed
  show ?case
  proof (cases "s < pos \<and> lt v (h ! ?q)")
    case False
    then show ?thesis
      using fill by (subst siftdown_loop.simps) (auto simp: Let_def parent_def)
  next
    case True
    have q: "?q < pos" "above s ?q"
      using True less.prems(2) above_parent by (auto simp: parent_def)
    have lower: "\<not> lt (h ! i) (h ! ?q)" if "i < length h" "0 < i" "parent i = ?q" "i \<noteq> pos" for i
      using less.prems(1) that q above_le[OF q(2)] by (auto simp: heap_hole_def)
    have upper: "\<not> lt (h ! ?q) (h ! parent ?q)" if "s < ?q"
    proof -
      have "s \<le> parent ?q" using above_le[OF above_parent[OF q(2) that]] .
      moreover have "parent ?q \<noteq> pos" using q(1) by (auto simp: parent_def)
      ultimately show ?thesis
        using less.prems(1,3) that q(1) by (auto simp: heap_hole_def)
    qed
    have "heap_from lt s (siftdown_loop lt v s (h[pos := h ! ?q]) ?q)"
    proof (rule less.IH[OF q(1) _ q(2)])
      show "heap_hole lt s (h[pos := h ! ?q]) ?q"
        unfolding heap_hole_def
      proof (intro conjI allI impI)
        fix i assume i: "i < length (h[pos := h ! ?q])" "0 < i" "s \<le> parent i" "i \<noteq> ?q" "parent i \<noteq> ?q"
        then have "i \<noteq> pos" by auto
        with i show "\<not> lt (h[pos := h ! ?q] ! i) (h[pos := h ! ?q] ! parent i)"
          using less.prems(1,3) True by (cases "parent i = pos") (auto simp: heap_hole_def)
      next
        fix i assume i: "s < ?q" "i < length (h[pos := h ! ?q])" "0 < i" "parent i = ?q"
        have "parent ?q \<noteq> pos" using q(1) by (auto simp: parent_def)
        moreover have "i \<noteq> pos \<Longrightarrow> \<not> lt (h ! i) (h ! parent ?q)"
          using not_lt_trans[OF upper[OF i(1)] lower[OF _ i(3,4)]] i(2) by simp
        ultimately show "\<not> lt (h[pos := h ! ?q] ! i) (h[pos := h ! ?q] ! parent ?q)"
          using upper[OF i(1)] less.prems(3) by (cases "i = pos") auto
      qed
    next
      show "?q < length (h[pos := h ! ?q])" using q(1) less.prems(3) by simp
    next
      have nv: "\<not> lt (h ! ?q) v" using True lt_asym by blast
      show "\<forall>i < length (h[pos := h ! ?q]). 0 < i \<longrightarrow> parent i = ?q \<longrightarrow> \<not> lt (h[pos := h ! ?q] ! i) v"
        using nv not_lt_trans[OF nv lower] less.prems(3) by (auto simp: nth_list_update)
    qed
    with True show ?thesis
      by (subst siftdown_loop.simps) (simp add: Let_def parent_def)
  qed
qed

lemma siftup_loop_heap:
  assumes "heap_hole lt s h pos" and "above s pos" and "pos < length h" and "siftup_loop lt h pos = (h', p)"
  shows "heap_hole lt s h' p \<and> above s p \<and> length h' \<le> 2 * p + 1"
  using assms
proof (induction "length h - pos" arbitrary: h pos rule: less_induct)
  case less
  show ?case
  proof (cases "2 * pos + 1 < length h")
    case False
    then have "h' = h" "p = pos"
      using less.prems(4) by (simp_all add: siftup_loop.simps[of lt h pos])
    then show ?thesis using less.prems False by simp
  next
    case True
    define q where "q = small_child lt h pos"
    have q: "q < length h" "0 < q" "parent q = pos" "pos < q"
      using small_child_range[OF True, of lt] small_child_cases[of lt h pos] by (auto simp: q_def parent_def)
    have run: "siftup_loop lt (h[pos := h ! q]) q = (h', p)"
      using less.prems(4) True by (simp add: siftup_loop.simps[of lt h pos] q_def)
    have least: "\<not> lt (h ! i) (h ! q)" if "i < length h" "0 < i" "parent i = pos" for i
      using that lt_irrefl lt_asym child_iff[OF that(2)] by (auto simp: q_def small_child_def)
    have "heap_hole lt s (h[pos := h ! q]) q"
      unfolding heap_hole_def
    proof (intro conjI allI impI)
      fix i assume i: "i < length (h[pos := h ! q])" "0 < i" "s \<le> parent i" "i \<noteq> q" "parent i \<noteq> q"
      have "parent i < i" using i(2) by (auto simp: parent_def)
      consider "i = pos" | "i \<noteq> pos" "parent i = pos" | "i \<noteq> pos" "parent i \<noteq> pos" by blast
      then show "\<not> lt (h[pos := h ! q] ! i) (h[pos := h ! q] ! parent i)"
      proof cases
        case 1
        then have "s < pos" using i(3) \<open>parent i < i\<close> by simp
        then have "\<not> lt (h ! q) (h ! parent pos)"
          using less.prems(1) q by (auto simp: heap_hole_def)
        then show ?thesis using 1 \<open>parent i < i\<close> less.prems(3) by simp
      next
        case 2
        then show ?thesis using least i less.prems(3) by simp
      next
        case 3
        then show ?thesis using less.prems(1) i by (auto simp: heap_hole_def)
      qed
    next
      fix i assume i: "s < q" "i < length (h[pos := h ! q])" "0 < i" "parent i = q"
      have "s \<le> q" "i \<noteq> pos" "q \<noteq> pos"
        using i q by (auto simp: parent_def)
      then have "\<not> lt (h ! i) (h ! q)"
        using less.prems(1) i by (auto simp: heap_hole_def)
      then show "\<not> lt (h[pos := h ! q] ! i) (h[pos := h ! q] ! parent q)"
        using \<open>i \<noteq> pos\<close> q(3) less.prems(3) by simp
    qed
    moreover have "above s q" using above_child[OF less.prems(2) q(3,2)] .
    moreover have "length (h[pos := h ! q]) - q < length h - pos" using q less.prems(3) by simp
    ultimately show ?thesis
      using less.hyps[OF _ _ _ _ run] q(1) less.prems(3) by (metis length_list_update siftup_loop_range)
  qed
qed

lemma heap_hole_top: "heap_from lt (Suc s) h \<Longrightarrow> heap_hole lt s h s"
  unfolding heap_from_def heap_hole_def by (auto simp: Suc_le_eq)

lemma heap_hole_cong:
  assumes "heap_hole lt s h pos" and "pos < length h"
  shows "heap_hole lt s (h[pos := v]) pos"
proof -
  have "parent pos \<noteq> pos \<or> pos = 0" by (auto simp: parent_def)
  then show ?thesis
    using assms unfolding heap_hole_def by (auto simp: nth_list_update)
qed

lemma siftup_heap:
  assumes "heap_from lt (Suc pos) h" and "pos < length h"
  shows "heap_from lt pos (siftup lt h pos)"
proof -
  obtain h' p where run: "siftup_loop lt h pos = (h', p)" by fastforce
  have len: "length h' = length h" "p < length h"
    using siftup_loop_range[OF assms(2), of lt] by (simp_all add: run)
  have "heap_hole lt pos h' p \<and> above pos p \<and> length h' \<le> 2 * p + 1"
    by (rule siftup_loop_heap[OF heap_hole_top[OF assms(1)] above_refl assms(2) run])
  then have "heap_from lt pos (siftdown_loop lt (h ! pos) pos (h'[p := h ! pos]) p)"
    using len by (intro siftdown_loop_heap heap_hole_cong) (auto simp: child_iff)
  then show ?thesis
    using len by (simp add: siftup_def siftdown_def run Let_def)
qed

lemma heappush_heap: "heap_from lt 0 h \<Longrightarrow> heap_from lt 0 (heappush lt h x)"
  unfolding heappush_def siftdown_def
proof (intro siftdown_loop_heap above_root)
  assume h: "heap_from lt 0 h"
  show "heap_hole lt 0 (h @ [x]) (length h)"
    unfolding heap_hole_def
  proof (intro conjI allI impI)
    fix i assume i: "i < length (h @ [x])" "0 < i" "i \<noteq> length h"
    then have "i < length h" "parent i < i" by (auto simp: parent_def)
    then show "\<not> lt ((h @ [x]) ! i) ((h @ [x]) ! parent i)"
      using h i(2) by (simp add: heap_from_def nth_append)
  next
    fix i assume "i < length (h @ [x])" "0 < i" "parent i = length h"
    then show "\<not> lt ((h @ [x]) ! i) ((h @ [x]) ! parent (length h))" by (auto simp: parent_def)
  qed
qed (auto simp: parent_def)

lemma heap_root_least:
  assumes "heap_from lt 0 h" and "i < length h"
  shows "\<not> lt (h ! i) (h ! 0)"
  using assms(2)
proof (induction i rule: less_induct)
  case (less i)
  show ?case
  proof (cases "i = 0")
    case False
    then have "parent i < i" by (auto simp: parent_def)
    with less have "\<not> lt (h ! parent i) (h ! 0)" by simp
    moreover have "\<not> lt (h ! i) (h ! parent i)"
      using assms(1) less.prems False by (simp add: heap_from_def)
    ultimately show ?thesis using not_lt_trans by blast
  qed (simp add: lt_irrefl)
qed

lemma heappop_heap:
  assumes "heap_from lt 0 h" and "heappop lt h = Inr (x, h')"
  shows "heap_from lt 0 h' \<and> x = h ! 0 \<and> (\<forall>y\<in>set h. \<not> lt y x)"
proof -
  have "h \<noteq> []" using assms(2) by (auto simp: heappop_def)
  then obtain ys y where h: "h = ys @ [y]" by (metis rev_exhaust)
  have x: "x = h ! 0" using assms(2) h by (cases ys) (auto simp: heappop_def Let_def)
  have "heap_from lt 0 h'"
  proof (cases "ys = []")
    case True
    then show ?thesis using assms(2) h by (simp add: heappop_def heap_from_def)
  next
    case False
    have "heap_from lt (Suc 0) (ys[0 := y])"
      unfolding heap_from_def
    proof (intro allI impI)
      fix i assume i: "i < length (ys[0 := y])" "0 < i" "Suc 0 \<le> parent i"
      then have "parent i < length ys" by (auto simp: parent_def)
      moreover have "\<not> lt (h ! i) (h ! parent i)" using assms(1) i h by (simp add: heap_from_def)
      ultimately show "\<not> lt (ys[0 := y] ! i) (ys[0 := y] ! parent i)"
        using i by (simp add: h nth_append)
    qed
    then have "heap_from lt 0 (siftup lt (ys[0 := y]) 0)"
      using False by (intro siftup_heap) simp_all
    then show ?thesis using assms(2) h False by (auto simp: heappop_def Let_def)
  qed
  with x show ?thesis
    using heap_root_least[OF assms(1)] by (auto simp: in_set_conv_nth)
qed

lemma heapify_prefix: "k \<le> length h \<Longrightarrow> heap_from lt k h \<Longrightarrow>
   heap_from lt 0 (fold (\<lambda>i h. siftup lt h i) (rev [0..<k]) h)"
proof (induction k arbitrary: h)
  case (Suc k)
  then have "heap_from lt k (siftup lt h k)" by (intro siftup_heap) simp_all
  with Suc show ?case by simp
qed simp

lemma heapify_heap: "heap_from lt 0 (heapify lt h)"
  unfolding heapify_def
proof (rule heapify_prefix)
  show "heap_from lt (length h div 2) h"
    unfolding heap_from_def
  proof (intro allI impI)
    fix i assume "i < length h" "0 < i" "length h div 2 \<le> parent i"
    moreover from this have "parent i < length h div 2" unfolding parent_def by presburger
    ultimately show "\<not> lt (h ! i) (h ! parent i)" by simp
  qed
qed simp

end

end
