(* ===== verification/Request_Queue.thy ===== *)
theory Request_Queue
  imports Request Heapq
begin

text \<open>
  The waiting queues of the scheduler, \<^verbatim>\<open>src/vllm/v1/core/sched/request_queue.py\<close>: the
  first-come-first-served queue, a deque, and the priority queue, a binary heap ordered by
  \<^verbatim>\<open>Request.__lt__\<close>.  Requests are compared by object identity where Python does so: membership in a
  set and removal from a list.
\<close>

section \<open>The two queues\<close>

datatype SchedulingPolicy = FCFS | PRIORITY

definition same_object :: "request \<Rightarrow> request \<Rightarrow> bool" where
  "same_object a b \<longleftrightarrow> obj_id a = obj_id b"


definition not_in :: "request list \<Rightarrow> request \<Rightarrow> bool" where
  "not_in rs r \<longleftrightarrow> \<not> (\<exists>x\<in>set rs. same_object x r)"

definition fcfs_add_request :: "request \<Rightarrow> request list \<Rightarrow> request list" where
  "fcfs_add_request r q = q @ [r]"

fun fcfs_pop_request :: "request list \<Rightarrow> (request \<times> request list) result" where
  "fcfs_pop_request [] = Inl IndexError"
| "fcfs_pop_request (r # q) = Inr (r, q)"






definition prio_add_request :: "request \<Rightarrow> request list \<Rightarrow> request list" where
  "prio_add_request r heap = heappush request_lt heap r"

definition prio_pop_request :: "request list \<Rightarrow> (request \<times> request list) result" where
  "prio_pop_request heap = (if heap = [] then Inl IndexError else heappop request_lt heap)"

definition prio_peek_request :: "request list \<Rightarrow> request result" where
  "prio_peek_request heap = (if heap = [] then Inl IndexError else Inr (heap ! 0))"




definition prio_remove_requests :: "request list \<Rightarrow> request list \<Rightarrow> request list" where
  "prio_remove_requests rs heap = heapify request_lt (filter (not_in rs) heap)"

text \<open>\<^verbatim>\<open>__iter__\<close> of the priority queue pops from a copy of the heap until it is empty.\<close>

function prio_iter :: "request list \<Rightarrow> request list" where
  "prio_iter heap = (case heappop request_lt heap of Inl _ \<Rightarrow> [] | Inr (r, h) \<Rightarrow> r # prio_iter h)"
  by pat_completeness auto
termination
proof (relation "measure length")
  fix heap h z and r :: request assume "heappop request_lt heap = Inr z" "(r, h) = z"
  then have "mset heap = add_mset r (mset h)" using heappop_mset by metis
  then have "length heap = Suc (length h)" by (metis size_add_mset size_mset)
  then show "(h, heap) \<in> measure length" by simp
qed simp

declare prio_iter.simps [simp del]

section \<open>The common interface\<close>

datatype request_queue = FCFSRequestQueue "request list" | PriorityRequestQueue "request list"

definition create_request_queue :: "SchedulingPolicy \<Rightarrow> request_queue" where
  "create_request_queue policy =
     (if policy = PRIORITY then PriorityRequestQueue [] else FCFSRequestQueue [])"

fun add_request :: "request \<Rightarrow> request_queue \<Rightarrow> request_queue" where
  "add_request r (FCFSRequestQueue q) = FCFSRequestQueue (fcfs_add_request r q)"
| "add_request r (PriorityRequestQueue q) = PriorityRequestQueue (prio_add_request r q)"

fun pop_request :: "request_queue \<Rightarrow> (request \<times> request_queue) result" where
  "pop_request (FCFSRequestQueue q) =
     rbind (fcfs_pop_request q) (\<lambda>(r, q'). Inr (r, FCFSRequestQueue q'))"
| "pop_request (PriorityRequestQueue q) =
     rbind (prio_pop_request q) (\<lambda>(r, q'). Inr (r, PriorityRequestQueue q'))"



fun queue_iter :: "request_queue \<Rightarrow> request list" where
  "queue_iter (FCFSRequestQueue q) = q"
| "queue_iter (PriorityRequestQueue q) = prio_iter q"






section \<open>The contract of a request queue\<close>

text \<open>Popping until nothing is left, at most \<open>n\<close> times.\<close>

fun drain :: "('q \<Rightarrow> (request \<times> 'q) result) \<Rightarrow> nat \<Rightarrow> 'q \<Rightarrow> request list \<times> 'q" where
  "drain pop 0 q = ([], q)"
| "drain pop (Suc n) q =
     (case pop q of Inl e \<Rightarrow> ([], q) | Inr (r, q') \<Rightarrow> (case drain pop n q' of (rs, q'') \<Rightarrow> (r # rs, q'')))"

locale queue_contract =
  fixes ok :: "'q \<Rightarrow> bool" and items :: "'q \<Rightarrow> request multiset"
    and add :: "request \<Rightarrow> 'q \<Rightarrow> 'q" and pop :: "'q \<Rightarrow> (request \<times> 'q) result" and peek :: "'q \<Rightarrow> request result"
    and discard :: "request list \<Rightarrow> 'q \<Rightarrow> 'q"
  assumes add_ok: "ok q \<Longrightarrow> ok (add r q)"
    and add_items: "ok q \<Longrightarrow> items (add r q) = add_mset r (items q)"
    and pop_empty: "ok q \<Longrightarrow> items q = {#} \<Longrightarrow> pop q = Inl IndexError \<and> peek q = Inl IndexError"
    and pop_some: "ok q \<Longrightarrow> items q \<noteq> {#} \<Longrightarrow>
      \<exists>r q'. pop q = Inr (r, q') \<and> peek q = Inr r \<and> ok q' \<and> items q = add_mset r (items q')"
    and discard_ok: "ok q \<Longrightarrow> ok (discard rs q)"
    and discard_items: "ok q \<Longrightarrow> items (discard rs q) = filter_mset (not_in rs) (items q)"
begin

text \<open>No request is lost and none is handed out twice: draining returns exactly what was in the queue.\<close>

lemma drain_items:
  "ok q \<Longrightarrow> size (items q) \<le> n \<Longrightarrow>
   mset (fst (drain pop n q)) = items q \<and> ok (snd (drain pop n q)) \<and> items (snd (drain pop n q)) = {#}"
proof (induction n arbitrary: q)
  case 0
  then show ?case by simp
next
  case (Suc n)
  show ?case
  proof (cases "items q = {#}")
    case True
    then show ?thesis using pop_empty[OF Suc.prems(1)] Suc.prems(1) by simp
  next
    case False
    then obtain r q' where q': "pop q = Inr (r, q')" "ok q'" "items q = add_mset r (items q')"
      using pop_some[OF Suc.prems(1)] by blast
    then have "size (items q') \<le> n" using Suc.prems(2) by simp
    from Suc.IH[OF q'(2) this] q' show ?thesis by (cases "drain pop n q'") simp
  qed
qed

lemma added_is_drained: "ok q \<Longrightarrow> size (items q) < n \<Longrightarrow> r \<in> set (fst (drain pop n (add r q)))"
proof -
  assume q: "ok q" "size (items q) < n"
  have "mset (fst (drain pop n (add r q))) = add_mset r (items q)"
    using drain_items[OF add_ok[OF q(1)], of r n] q by (simp add: add_items)
  then show ?thesis by (metis set_mset_add_mset_insert insertI1 set_mset_mset)
qed

end

lemma request_lt_negtrans: "\<not> request_lt b a \<Longrightarrow> \<not> request_lt c b \<Longrightarrow> \<not> request_lt c a"
  unfolding request_lt_def by (auto split: if_splits)

interpretation req_heap: heap_order request_lt
  by unfold_locales (auto dest: request_lt_asym request_lt_negtrans)

lemma prio_pop_some:
  assumes "heap_from request_lt 0 h" and "h \<noteq> []"
  shows "\<exists>r h'. prio_pop_request h = Inr (r, h') \<and> prio_peek_request h = Inr r \<and> heap_from request_lt 0 h' \<and>
    mset h = add_mset r (mset h') \<and> (\<forall>x\<in>set h. \<not> request_lt x r)"
proof -
  obtain r h' where pop: "heappop request_lt h = Inr (r, h')"
    using heappop_total[OF assms(2)] by blast
  with req_heap.heappop_heap[OF assms(1) pop] heappop_mset[OF pop] assms(2) show ?thesis
    by (intro exI[of _ r] exI[of _ h']) (auto simp: prio_pop_request_def prio_peek_request_def)
qed


interpretation prio: queue_contract "heap_from request_lt 0" mset prio_add_request prio_pop_request prio_peek_request
  prio_remove_requests
proof unfold_locales
  fix h :: "request list" assume h: "heap_from request_lt 0 h"
  show "heap_from request_lt 0 (prio_add_request r h)" for r
    unfolding prio_add_request_def by (rule req_heap.heappush_heap[OF h])
  show "\<exists>r q'. prio_pop_request h = Inr (r, q') \<and> prio_peek_request h = Inr r \<and> heap_from request_lt 0 q' \<and>
      mset h = add_mset r (mset q')" if "mset h \<noteq> {#}"
    using prio_pop_some[OF h] that by auto
  show "heap_from request_lt 0 (prio_remove_requests rs h)" for rs
    unfolding prio_remove_requests_def by (rule req_heap.heapify_heap)
qed (simp_all add: prio_add_request_def prio_pop_request_def prio_peek_request_def prio_remove_requests_def)

section \<open>Properties\<close>


fun queue_wf :: "request_queue \<Rightarrow> bool" where
  "queue_wf (FCFSRequestQueue q) \<longleftrightarrow> True"
| "queue_wf (PriorityRequestQueue q) \<longleftrightarrow> heap_from request_lt 0 q"


lemma prio_iter_spec:
  assumes "heap_from request_lt 0 h"
  shows "mset (prio_iter h) = mset h \<and> sorted_wrt (\<lambda>a b. \<not> request_lt b a) (prio_iter h) \<and>
    drain prio_pop_request (length h) h = (prio_iter h, [])"
  using assms
proof (induction "length h" arbitrary: h)
  case 0
  then show ?case by (simp add: prio_iter.simps heappop_def)
next
  case (Suc n)
  then have ne: "h \<noteq> []" by auto
  obtain r h' where p: "prio_pop_request h = Inr (r, h')" "heap_from request_lt 0 h'" "mset h = add_mset r (mset h')"
    "\<forall>x\<in>set h. \<not> request_lt x r"
    using prio_pop_some[OF Suc.prems ne] by blast
  have len: "length h' = n"
    using p(3) Suc.hyps(2) by (metis add_left_cancel plus_1_eq_Suc size_add_mset size_mset)
  have it: "prio_iter h = r # prio_iter h'"
    using p(1) ne by (simp add: prio_iter.simps[of h] prio_pop_request_def)
  note IH = Suc.hyps(1)[OF len[symmetric] p(2)]
  have "set (prio_iter h') \<subseteq> set h"
    using IH p(3) by (metis set_mset_add_mset_insert set_mset_mset subset_insertI)
  then show ?case
    using IH p it len Suc.hyps(2)[symmetric] by auto
qed

text \<open>
  C21: The priority queue serves requests in order of priority, then arrival time, then identifier.
  Iterating over a well-formed heap ends and yields exactly the queued requests, none before one that
  precedes it; as many pops as there are requests return them in the same order and empty the queue.
\<close>

theorem priority_order:
  assumes "queue_wf (PriorityRequestQueue h)"
  shows "mset (queue_iter (PriorityRequestQueue h)) = mset h \<and>
    sorted_wrt (\<lambda>a b. \<not> request_lt b a) (queue_iter (PriorityRequestQueue h)) \<and>
    drain pop_request (length h) (PriorityRequestQueue h) = (queue_iter (PriorityRequestQueue h), PriorityRequestQueue [])"
proof -
  have "drain pop_request n (PriorityRequestQueue h) =
      (fst (drain prio_pop_request n h), PriorityRequestQueue (snd (drain prio_pop_request n h)))" for n
  proof (induction n arbitrary: h)
    case (Suc n)
    then show ?case
      by (cases "prio_pop_request h") (auto split: prod.splits)
  qed simp
  then show ?thesis
    using prio_iter_spec assms by simp
qed

theorem priority_order_witness:
  "\<exists>q. q = add_request (text_request ''b'' 1 [2]) (add_request (text_request ''a'' 0 [1]) (create_request_queue PRIORITY)) \<and>
     length (queue_iter q) = 2 \<and> sorted_wrt (\<lambda>a b. \<not> request_lt b a) (queue_iter q)"
proof -
  let ?h = "prio_add_request (text_request ''b'' 1 [2]) (prio_add_request (text_request ''a'' 0 [1]) [])"
  have "queue_wf (PriorityRequestQueue ?h)"
    unfolding queue_wf.simps by (intro prio.add_ok) (simp add: heap_from_def)
  from priority_order[OF this] have "mset (prio_iter ?h) = mset ?h" "sorted_wrt (\<lambda>a b. \<not> request_lt b a) (prio_iter ?h)"
    by simp_all
  moreover have "length ?h = 2" by (simp add: prio_add_request_def)
  ultimately show ?thesis
    by (simp add: create_request_queue_def) (metis size_mset)
qed








end
