(* ===== verification/Encoder_Cache.thy ===== *)
theory Encoder_Cache
  imports Request
begin

text \<open>
  The bookkeeping of encoder outputs, \<^verbatim>\<open>src/vllm/v1/core/encoder_cache_manager.py\<close>:
  \<^verbatim>\<open>EncoderCacheManager\<close>, which shares encoder outputs between requests and evicts unreferenced ones
  when space is needed, \<^verbatim>\<open>EncoderDecoderCacheManager\<close>, and the budget computation, with the
  scheduler's release of consumed inputs.  A set is the list of its elements in insertion order.
\<close>

section \<open>EncoderCacheManager\<close>

record encoder_cache_manager =
  cache_size :: int
  num_free_slots :: int
  num_freeable_slots :: int
  cached :: "string \<Rightarrow> string list option"
  request_cached_ids :: "string \<Rightarrow> int list option"
  freeable :: "(string \<times> int) list"
  freed :: "string list"

definition init_encoder_cache :: "int \<Rightarrow> encoder_cache_manager" where
  "init_encoder_cache capacity =
     \<lparr>cache_size = capacity, num_free_slots = capacity, num_freeable_slots = capacity, cached = (\<lambda>_. None),
      request_cached_ids = (\<lambda>_. None), freeable = [], freed = []\<rparr>"

definition reset_encoder_cache :: "encoder_cache_manager \<Rightarrow> encoder_cache_manager" where
  "reset_encoder_cache m =
     m\<lparr>cached := (\<lambda>_. None), request_cached_ids := (\<lambda>_. None), freeable := [], freed := [],
       num_free_slots := cache_size m, num_freeable_slots := cache_size m\<rparr>"

definition mm_hash_of :: "request \<Rightarrow> int \<Rightarrow> string result" where
  "mm_hash_of r input_id = rbind (py_nth (mm_features r) input_id) (\<lambda>f. Inr (mm_identifier f))"

text \<open>\<^verbatim>\<open>pop\<close> of a key of an ordered dictionary.\<close>

fun odict_pop :: "string \<Rightarrow> (string \<times> int) list \<Rightarrow> (int \<times> (string \<times> int) list) result" where
  "odict_pop k [] = Inl KeyError"
| "odict_pop k ((k', v) # d) =
     (if k' = k then Inr (v, d) else rbind (odict_pop k d) (\<lambda>(w, d'). Inr (w, (k', v) # d')))"

text \<open>Assignment to a key of an ordered dictionary: a new key goes to the end.\<close>

fun odict_set :: "string \<Rightarrow> int \<Rightarrow> (string \<times> int) list \<Rightarrow> (string \<times> int) list" where
  "odict_set k v [] = [(k, v)]"
| "odict_set k v ((k', v') # d) = (if k' = k then (k, v) # d else (k', v') # odict_set k v d)"

definition add_reference :: "string \<Rightarrow> string list \<Rightarrow> request \<Rightarrow> int \<Rightarrow> encoder_cache_manager \<Rightarrow> encoder_cache_manager" where
  "add_reference mm_hash refs r input_id m =
     m\<lparr>cached := (cached m)(mm_hash := Some (set_add (request_id r) refs)),
       request_cached_ids := (request_cached_ids m)(request_id r := Some (set_add input_id
         (case request_cached_ids m (request_id r) of None \<Rightarrow> [] | Some ids \<Rightarrow> ids)))\<rparr>"

definition check_and_update_cache ::
  "request \<Rightarrow> int \<Rightarrow> encoder_cache_manager \<Rightarrow> (bool \<times> encoder_cache_manager) result" where
  "check_and_update_cache r input_id m =
     rbind (mm_hash_of r input_id) (\<lambda>mm_hash.
       case cached m mm_hash of
         None \<Rightarrow> Inr (False, m)
       | Some refs \<Rightarrow>
           rbind (if refs = []
                  then rbind (odict_pop mm_hash (freeable m)) (\<lambda>(num_encoder_embeds, d).
                         Inr (m\<lparr>freeable := d, num_freeable_slots := num_freeable_slots m - num_encoder_embeds\<rparr>))
                  else Inr m)
             (\<lambda>m1. Inr (True, add_reference mm_hash refs r input_id m1)))"

text \<open>The eviction loop of \<open>can_allocate\<close>; every round takes the oldest unreferenced entry.\<close>

fun evict_until :: "int \<Rightarrow> int \<Rightarrow> (string \<times> int) list \<Rightarrow> (string \<Rightarrow> string list option) \<Rightarrow> string list \<Rightarrow>
    (int \<times> (string \<times> int) list \<times> (string \<Rightarrow> string list option) \<times> string list) result" where
  "evict_until num_embeds free [] c fr =
     (if num_embeds > free then Inl KeyError else Inr (free, [], c, fr))"
| "evict_until num_embeds free ((mm_hash, n) # d) c fr =
     (if num_embeds > free
      then (case c mm_hash of
              None \<Rightarrow> Inl KeyError
            | Some _ \<Rightarrow> evict_until num_embeds (free + n) d (c(mm_hash := None)) (fr @ [mm_hash]))
      else Inr (free, (mm_hash, n) # d, c, fr))"

definition can_allocate ::
  "request \<Rightarrow> int \<Rightarrow> int \<Rightarrow> int \<Rightarrow> encoder_cache_manager \<Rightarrow> (bool \<times> encoder_cache_manager) result" where
  "can_allocate r input_id encoder_compute_budget num_embeds_to_schedule m =
     rbind (get_num_encoder_embeds input_id r) (\<lambda>num_embeds0.
       if num_embeds0 > encoder_compute_budget then Inr (False, m)
       else (let num_embeds = num_embeds0 + num_embeds_to_schedule
             in if num_embeds \<le> num_free_slots m then Inr (True, m)
                else if num_embeds > num_freeable_slots m then Inr (False, m)
                else rbind (evict_until num_embeds (num_free_slots m) (freeable m) (cached m) (freed m))
                       (\<lambda>(free, d, c, fr).
                          Inr (True, m\<lparr>num_free_slots := free, freeable := d, cached := c, freed := fr\<rparr>))))"

definition allocate_encoder :: "request \<Rightarrow> int \<Rightarrow> encoder_cache_manager \<Rightarrow> encoder_cache_manager result" where
  "allocate_encoder r input_id m =
     rbind (mm_hash_of r input_id) (\<lambda>mm_hash.
     let refs = (case cached m mm_hash of None \<Rightarrow> [] | Some refs \<Rightarrow> refs)
     in rbind (get_num_encoder_embeds input_id r) (\<lambda>num_encoder_embeds.
        py_assert (num_free_slots m \<ge> num_encoder_embeds)
          (py_assert (num_freeable_slots m \<ge> num_encoder_embeds)
            (Inr ((add_reference mm_hash refs r input_id m)
                    \<lparr>num_free_slots := num_free_slots m - num_encoder_embeds,
                     num_freeable_slots := num_freeable_slots m - num_encoder_embeds\<rparr>)))))"

definition get_cached_input_ids :: "request \<Rightarrow> encoder_cache_manager \<Rightarrow> int list" where
  "get_cached_input_ids r m = (case request_cached_ids m (request_id r) of None \<Rightarrow> [] | Some ids \<Rightarrow> ids)"

definition free_encoder_input :: "request \<Rightarrow> int \<Rightarrow> encoder_cache_manager \<Rightarrow> encoder_cache_manager result" where
  "free_encoder_input r input_id m =
     rbind (mm_hash_of r input_id) (\<lambda>mm_hash.
       let m1 = (case request_cached_ids m (request_id r) of
                   None \<Rightarrow> m
                 | Some ids \<Rightarrow>
                     (let ids' = removeAll input_id ids
                      in m\<lparr>request_cached_ids := (request_cached_ids m)
                             (request_id r := if ids' = [] then None else Some ids')\<rparr>))
       in case cached m1 mm_hash of
            None \<Rightarrow> Inr m1
          | Some refs \<Rightarrow>
              if refs = [] then Inr m1
              else (let refs' = removeAll (request_id r) refs;
                        m2 = m1\<lparr>cached := (cached m1)(mm_hash := Some refs')\<rparr>
                    in if refs' = []
                       then rbind (get_num_encoder_embeds input_id r) (\<lambda>num_encoder_embeds.
                              Inr (m2\<lparr>freeable := odict_set mm_hash num_encoder_embeds (freeable m2),
                                     num_freeable_slots := num_freeable_slots m2 + num_encoder_embeds\<rparr>))
                       else Inr m2))"

definition free_encoder :: "request \<Rightarrow> encoder_cache_manager \<Rightarrow> encoder_cache_manager result" where
  "free_encoder r m = rfold (\<lambda>input_id. free_encoder_input r input_id) (get_cached_input_ids r m) m"

definition get_freed_mm_hashes :: "encoder_cache_manager \<Rightarrow> string list \<times> encoder_cache_manager" where
  "get_freed_mm_hashes m = (freed m, m\<lparr>freed := []\<rparr>)"

section \<open>Budget\<close>

record scheduler_budget_config =
  disable_chunked_mm_input :: bool
  max_num_batched_tokens :: int
  max_num_encoder_input_tokens :: int
  encoder_cache_size :: int

definition compute_mm_encoder_budget ::
  "scheduler_budget_config \<Rightarrow> (string \<times> int) list \<Rightarrow> (int \<times> int) result" where
  "compute_mm_encoder_budget cfg mm_max_toks_per_item =
     (if mm_max_toks_per_item = [] then Inr (0, 0)
      else (let max_tokens_per_mm_item = Max (set (map snd mm_max_toks_per_item))
            in if disable_chunked_mm_input cfg \<and> max_tokens_per_mm_item > max_num_batched_tokens cfg
               then Inl ValueError
               else Inr (max (max_num_encoder_input_tokens cfg) max_tokens_per_mm_item,
                         max (encoder_cache_size cfg) max_tokens_per_mm_item)))"

section \<open>EncoderDecoderCacheManager\<close>

record encdec_cache_manager =
  ed_cache_size :: int
  ed_num_free_slots :: int
  ed_allocated :: "string list"
  ed_to_free :: "string list"

definition init_encdec_cache :: "int \<Rightarrow> encdec_cache_manager" where
  "init_encdec_cache capacity = \<lparr>ed_cache_size = capacity, ed_num_free_slots = capacity, ed_allocated = [], ed_to_free = []\<rparr>"

definition ed_reset :: "encdec_cache_manager \<Rightarrow> encdec_cache_manager" where
  "ed_reset m = m\<lparr>ed_num_free_slots := ed_cache_size m, ed_allocated := [], ed_to_free := []\<rparr>"

definition ed_check_and_update_cache :: "request \<Rightarrow> int \<Rightarrow> encdec_cache_manager \<Rightarrow> bool" where
  "ed_check_and_update_cache r input_id m = False"

definition ed_can_allocate :: "request \<Rightarrow> int \<Rightarrow> int \<Rightarrow> int \<Rightarrow> encdec_cache_manager \<Rightarrow> bool result" where
  "ed_can_allocate r input_id encoder_compute_budget num_embeds_to_schedule m =
     rbind (get_num_encoder_embeds input_id r) (\<lambda>n.
       if n > encoder_compute_budget then Inr False
       else Inr (n + num_embeds_to_schedule \<le> ed_num_free_slots m))"

definition ed_allocate :: "request \<Rightarrow> int \<Rightarrow> encdec_cache_manager \<Rightarrow> encdec_cache_manager result" where
  "ed_allocate r input_id m =
     rbind (get_num_encoder_embeds input_id r) (\<lambda>n.
     rbind (mm_hash_of r input_id) (\<lambda>mm_hash.
       Inr (m\<lparr>ed_num_free_slots := ed_num_free_slots m - n, ed_allocated := ed_allocated m @ [mm_hash]\<rparr>)))"

definition ed_get_cached_input_ids :: "request \<Rightarrow> int list" where
  "ed_get_cached_input_ids r = map int [0..<length (mm_features r)]"

definition ed_free_encoder_input :: "request \<Rightarrow> int \<Rightarrow> encdec_cache_manager \<Rightarrow> encdec_cache_manager result" where
  "ed_free_encoder_input r input_id m =
     rbind (get_num_encoder_embeds input_id r) (\<lambda>n. Inr (m\<lparr>ed_num_free_slots := ed_num_free_slots m + n\<rparr>))"

definition ed_free :: "request \<Rightarrow> encdec_cache_manager \<Rightarrow> encdec_cache_manager result" where
  "ed_free r m = rfold (\<lambda>input_id. ed_free_encoder_input r input_id) (map int [0..<length (mm_features r)]) m"

definition ed_get_freed_mm_hashes :: "encdec_cache_manager \<Rightarrow> string list \<times> encdec_cache_manager" where
  "ed_get_freed_mm_hashes m = (ed_to_free m, m\<lparr>ed_to_free := ed_allocated m, ed_allocated := []\<rparr>)"

section \<open>Release of consumed inputs by the scheduler\<close>

text \<open>\<^verbatim>\<open>_free_encoder_inputs\<close>, for either kind of manager.\<close>

definition input_consumed :: "bool \<Rightarrow> bool \<Rightarrow> request \<Rightarrow> mm_feature \<Rightarrow> bool" where
  "input_consumed is_encoder_decoder use_eagle r f \<longleftrightarrow>
     (is_encoder_decoder \<and> num_computed_tokens r > 0) \<or>
     offset (mm_position f) + plen (mm_position f) + (if use_eagle then 1 else 0)
       \<le> num_computed_tokens r - num_output_placeholders r"

definition free_encoder_inputs :: "bool \<Rightarrow> request \<Rightarrow> encoder_cache_manager \<Rightarrow> encoder_cache_manager result" where
  "free_encoder_inputs use_eagle r m =
     rfold (\<lambda>input_id m. rbind (py_nth (mm_features r) input_id) (\<lambda>f.
              if input_consumed False use_eagle r f then free_encoder_input r input_id m else Inr m))
       (get_cached_input_ids r m) m"

definition ed_free_encoder_inputs :: "bool \<Rightarrow> request \<Rightarrow> encdec_cache_manager \<Rightarrow> encdec_cache_manager result" where
  "ed_free_encoder_inputs use_eagle r m =
     rfold (\<lambda>input_id m. rbind (py_nth (mm_features r) input_id) (\<lambda>f.
              if input_consumed True use_eagle r f then ed_free_encoder_input r input_id m else Inr m))
       (ed_get_cached_input_ids r) m"

section \<open>The slot accounting\<close>

text \<open>
  \<open>sz\<close> gives the number of embeddings of each encoder output; requests that refer to the same output
  agree on it.  \<open>feats\<close> gives the inputs of each request.
\<close>

definition input_ok :: "(string \<Rightarrow> mm_feature list) \<Rightarrow> (string \<Rightarrow> int) \<Rightarrow> request \<Rightarrow> int \<Rightarrow> bool" where
  "input_ok feats sz r i \<longleftrightarrow>
     mm_features r = feats (request_id r) \<and> 0 \<le> i \<and> i < int (length (mm_features r)) \<and>
     (\<forall>f\<in>set (mm_features r). get_num_embeds (mm_position f) = sz (mm_identifier f) \<and> 0 \<le> sz (mm_identifier f))"

definition hash_at :: "mm_feature list \<Rightarrow> int \<Rightarrow> string" where
  "hash_at fs i = mm_identifier (fs ! nat i)"

definition enc_ok :: "(string \<Rightarrow> int) \<Rightarrow> encoder_cache_manager \<Rightarrow> bool" where
  "enc_ok sz m \<longleftrightarrow>
     finite (dom (cached m)) \<and> (\<forall>h\<in>dom (cached m). 0 \<le> sz h) \<and>
     distinct (map fst (freeable m)) \<and> (\<forall>(h, n)\<in>set (freeable m). n = sz h) \<and>
     (\<forall>h. h \<in> fst ` set (freeable m) \<longleftrightarrow> cached m h = Some []) \<and>
     num_free_slots m = cache_size m - (\<Sum>h\<in>dom (cached m). sz h) \<and>
     num_freeable_slots m = num_free_slots m + sum_list (map snd (freeable m)) \<and>
     0 \<le> num_free_slots m"

text \<open>Every reference belongs to an input that is registered for its request.\<close>

definition refs_ok :: "(string \<Rightarrow> mm_feature list) \<Rightarrow> encoder_cache_manager \<Rightarrow> bool" where
  "refs_ok feats m \<longleftrightarrow>
     (\<forall>rid ids. request_cached_ids m rid = Some ids \<longrightarrow> (\<forall>i\<in>set ids. 0 \<le> i \<and> i < int (length (feats rid)))) \<and>
     (\<forall>h refs rid. cached m h = Some refs \<longrightarrow> rid \<in> set refs \<longrightarrow>
        (\<exists>ids i. request_cached_ids m rid = Some ids \<and> i \<in> set ids \<and> hash_at (feats rid) i = h))"

lemma enc_okD:
  assumes "enc_ok sz m"
  shows "finite (dom (cached m))" and "\<And>h. h \<in> dom (cached m) \<Longrightarrow> 0 \<le> sz h"
    and "distinct (map fst (freeable m))" and "\<And>h n. (h, n) \<in> set (freeable m) \<Longrightarrow> n = sz h"
    and "\<And>h. h \<in> fst ` set (freeable m) \<longleftrightarrow> cached m h = Some []"
    and "num_free_slots m = cache_size m - (\<Sum>h\<in>dom (cached m). sz h)"
    and "num_freeable_slots m = num_free_slots m + sum_list (map snd (freeable m))" and "0 \<le> num_free_slots m"
  using assms by (auto simp: enc_ok_def)

lemma input_ok_eval:
  assumes "input_ok feats sz r i"
  shows "mm_hash_of r i = Inr (hash_at (feats (request_id r)) i)"
    and "get_num_encoder_embeds i r = Inr (sz (hash_at (feats (request_id r)) i))"
    and "0 \<le> sz (hash_at (feats (request_id r)) i)"
proof -
  have "nat i < length (mm_features r)" "mm_features r ! nat i \<in> set (mm_features r)"
    using assms by (auto simp: input_ok_def)
  then show "mm_hash_of r i = Inr (hash_at (feats (request_id r)) i)"
    "get_num_encoder_embeds i r = Inr (sz (hash_at (feats (request_id r)) i))"
    "0 \<le> sz (hash_at (feats (request_id r)) i)"
    using assms by (auto simp: input_ok_def mm_hash_of_def get_num_encoder_embeds_def py_nth_ok hash_at_def)
qed

lemma odict_pop_spec:
  assumes "(k, v) \<in> set d" and "distinct (map fst d)"
  shows "\<exists>d'. odict_pop k d = Inr (v, d') \<and> distinct (map fst d') \<and> set d' = set d - {(k, v)} \<and>
    sum_list (map snd d) = v + sum_list (map snd d')"
  using assms
proof (induction d)
  case (Cons kv d)
  obtain k' v' where kv: "kv = (k', v')" by fastforce
  show ?case
  proof (cases "k' = k")
    case True
    then have "v' = v" using Cons.prems by (force simp: kv)
    moreover have "(k, v) \<notin> set d" using Cons.prems(2) True by (force simp: kv)
    ultimately show ?thesis using Cons.prems True by (simp add: kv)
  next
    case False
    then obtain d' where d': "odict_pop k d = Inr (v, d')" "distinct (map fst d')" "set d' = set d - {(k, v)}"
      "sum_list (map snd d) = v + sum_list (map snd d')"
      using Cons by (auto simp: kv)
    then have "k' \<notin> fst ` set d'" using Cons.prems(2) by (auto simp: kv)
    then show ?thesis using d' False by (auto simp: kv)
  qed
qed simp

lemma odict_set_fresh: "k \<notin> fst ` set d \<Longrightarrow> odict_set k v d = d @ [(k, v)]"
  by (induction d) auto

lemma evict_until_spec:
  assumes "\<forall>(h, n)\<in>set d. c h = Some []" and "distinct (map fst d)" and "need \<le> free + sum_list (map snd d)"
  shows "\<exists>d1 d2. d = d1 @ d2 \<and> need \<le> free + sum_list (map snd d1) \<and>
    evict_until need free d c fr =
      Inr (free + sum_list (map snd d1), d2, (\<lambda>h. if h \<in> fst ` set d1 then None else c h), fr @ map fst d1)"
  using assms
proof (induction d arbitrary: free c fr)
  case Nil
  then show ?case by simp
next
  case (Cons kn d)
  obtain k n where kn: "kn = (k, n)" by fastforce
  show ?case
  proof (cases "need > free")
    case False
    then show ?thesis by (intro exI[of _ "[]"] exI[of _ "kn # d"]) (simp add: kn)
  next
    case True
    have "\<forall>(h, n)\<in>set d. (c(k := None)) h = Some []"
      using Cons.prems(1,2) by (force simp: kn)
    moreover have "distinct (map fst d)" "need \<le> free + n + sum_list (map snd d)"
      using Cons.prems(2,3) by (simp_all add: kn)
    ultimately obtain d1 d2 where
      d: "d = d1 @ d2" "need \<le> free + n + sum_list (map snd d1)"
        "evict_until need (free + n) d (c(k := None)) (fr @ [k]) = Inr (free + n + sum_list (map snd d1), d2,
          (\<lambda>h. if h \<in> fst ` set d1 then None else (c(k := None)) h), (fr @ [k]) @ map fst d1)"
      using Cons.IH[of "c(k := None)" "free + n" "fr @ [k]"] by blast
    have "(\<lambda>h. if h \<in> fst ` set d1 then None else (c(k := None)) h) = (\<lambda>h. if h \<in> fst ` set (kn # d1) then None else c h)"
      by (auto simp: kn fun_eq_iff)
    then show ?thesis
      using d True Cons.prems(1) by (intro exI[of _ "kn # d1"] exI[of _ d2]) (simp add: kn add.assoc)
  qed
qed

lemma sum_drop_dom:
  assumes "finite (dom c)" and "distinct (map fst d1)" and "\<And>h n. (h, n) \<in> set d1 \<Longrightarrow> n = sz h \<and> h \<in> dom c"
  shows "(\<Sum>h\<in>dom (\<lambda>h. if h \<in> fst ` set d1 then None else c h). (sz h :: int)) = (\<Sum>h\<in>dom c. sz h) - sum_list (map snd d1)"
proof -
  have "dom (\<lambda>h. if h \<in> K then None else c h) = dom c - K" for K
    by (auto split: if_splits)
  then have "dom (\<lambda>h. if h \<in> fst ` set d1 then None else c h) = dom c - fst ` set d1" .
  moreover have "fst ` set d1 \<subseteq> dom c" using assms(3) by fastforce
  moreover have "sum_list (map snd d1) = (\<Sum>h\<in>fst ` set d1. sz h)"
  proof -
    have "snd x = sz (fst x)" if "x \<in> set d1" for x
      using assms(3)[of "fst x" "snd x"] that by simp
    then have "map snd d1 = map sz (map fst d1)" by simp
    then show ?thesis
      unfolding set_map[symmetric] sum.distinct_set_conv_list[OF assms(2)] by (rule arg_cong)
  qed
  ultimately show ?thesis
    using assms(1) by (simp add: sum_diff)
qed

lemma freeable_nonneg: "enc_ok sz m \<Longrightarrow> (h, n) \<in> set (freeable m) \<Longrightarrow> 0 \<le> n \<and> n = sz h \<and> h \<in> dom (cached m) \<and> cached m h = Some []"
  using enc_okD(2,4,5)[of sz m] by (metis domI fst_conv image_eqI)

lemma freeable_iff:
  assumes "enc_ok sz m"
  shows "(h, n) \<in> set (freeable m) \<longleftrightarrow> cached m h = Some [] \<and> n = sz h"
proof
  assume "cached m h = Some [] \<and> n = sz h"
  then have "h \<in> fst ` set (freeable m)" "n = sz h" using enc_okD(5)[OF assms, of h] by auto
  then show "(h, n) \<in> set (freeable m)" using enc_okD(4)[OF assms] by force
qed (use freeable_nonneg[OF assms] in blast)

lemma in_fst_image: "x \<in> fst ` A \<longleftrightarrow> (\<exists>n. (x, n) \<in> A)"
  by force

lemma freeable_sum_nonneg: "enc_ok sz m \<Longrightarrow> set d \<subseteq> set (freeable m) \<Longrightarrow> 0 \<le> sum_list (map snd d)"
  using freeable_nonneg[of sz m] by (intro sum_list_nonneg) auto

lemma can_allocate_spec:
  assumes ok: "enc_ok sz m" and inp: "input_ok feats sz r i"
  defines "n \<equiv> sz (hash_at (feats (request_id r)) i)"
  shows "\<exists>res m' d1. can_allocate r i budget sched m = Inr (res, m') \<and> enc_ok sz m' \<and>
    (res \<longleftrightarrow> n \<le> budget \<and> n + sched \<le> num_freeable_slots m) \<and> (res \<longrightarrow> n + sched \<le> num_free_slots m') \<and>
    (\<not> res \<longrightarrow> m' = m) \<and> freeable m = d1 @ freeable m' \<and>
    m' = m\<lparr>num_free_slots := num_free_slots m + sum_list (map snd d1), freeable := freeable m',
           cached := (\<lambda>h. if h \<in> fst ` set d1 then None else cached m h), freed := freed m @ map fst d1\<rparr>"
proof -
  note emb = input_ok_eval(2)[OF inp, folded n_def]
  have le: "num_free_slots m \<le> num_freeable_slots m"
    using enc_okD(7)[OF ok] freeable_sum_nonneg[OF ok order_refl] by simp
  consider (no) "n > budget" | (free) "n \<le> budget" "n + sched \<le> num_free_slots m"
    | (full) "n \<le> budget" "n + sched > num_freeable_slots m"
    | (evict) "n \<le> budget" "n + sched > num_free_slots m" "n + sched \<le> num_freeable_slots m"
    by linarith
  then show ?thesis
  proof cases
    case evict
    have empty: "\<forall>(h, n)\<in>set (freeable m). cached m h = Some []"
      using freeable_nonneg[OF ok] by blast
    from evict_until_spec[OF empty enc_okD(3)[OF ok], of "n + sched" "num_free_slots m" "freed m"] evict(3) enc_okD(7)[OF ok]
    obtain d1 d2 where d: "freeable m = d1 @ d2" "n + sched \<le> num_free_slots m + sum_list (map snd d1)"
      "evict_until (n + sched) (num_free_slots m) (freeable m) (cached m) (freed m) =
        Inr (num_free_slots m + sum_list (map snd d1), d2, (\<lambda>h. if h \<in> fst ` set d1 then None else cached m h), freed m @ map fst d1)"
      by auto
    let ?m = "m\<lparr>num_free_slots := num_free_slots m + sum_list (map snd d1), freeable := d2,
           cached := (\<lambda>h. if h \<in> fst ` set d1 then None else cached m h), freed := freed m @ map fst d1\<rparr>"
    have run: "can_allocate r i budget sched m = Inr (True, ?m)"
      using evict d(3) emb by (simp add: can_allocate_def)
    have dist: "distinct (map fst d1)" "distinct (map fst d2)" "fst ` set d1 \<inter> fst ` set d2 = {}"
      using enc_okD(3)[OF ok] by (auto simp: d(1))
    have sum: "(\<Sum>h\<in>dom (cached ?m). sz h) = (\<Sum>h\<in>dom (cached m). sz h) - sum_list (map snd d1)"
      using sum_drop_dom[OF enc_okD(1)[OF ok] dist(1), of sz] freeable_nonneg[OF ok] unfolding d(1) by fastforce
    have dom: "dom (cached ?m) \<subseteq> dom (cached m)" by (auto split: if_splits)
    have "enc_ok sz ?m"
      unfolding enc_ok_def
    proof (intro conjI)
      show "finite (dom (cached ?m))" using enc_okD(1)[OF ok] dom by (rule finite_subset[rotated])
      show "\<forall>h\<in>dom (cached ?m). 0 \<le> sz h" using enc_okD(2)[OF ok] dom by blast
      show "distinct (map fst (freeable ?m))" using dist by simp
      show "\<forall>(h, n)\<in>set (freeable ?m). n = sz h" using enc_okD(4)[OF ok] d(1) by auto
      show "\<forall>h. h \<in> fst ` set (freeable ?m) \<longleftrightarrow> cached ?m h = Some []"
      proof
        fix h
        have "h \<in> fst ` set d1 \<or> h \<in> fst ` set d2 \<longleftrightarrow> cached m h = Some []"
          using enc_okD(5)[OF ok, of h] unfolding d(1) by (simp add: image_Un)
        then show "h \<in> fst ` set (freeable ?m) \<longleftrightarrow> cached ?m h = Some []"
          using dist(3) by auto
      qed
      show "num_free_slots ?m = cache_size ?m - (\<Sum>h\<in>dom (cached ?m). sz h)"
        unfolding sum using enc_okD(6)[OF ok] by simp
      show "num_freeable_slots ?m = num_free_slots ?m + sum_list (map snd (freeable ?m))"
        using enc_okD(7)[OF ok] d(1) by simp
      show "0 \<le> num_free_slots ?m"
        using enc_okD(8)[OF ok] freeable_sum_nonneg[OF ok, of d1] d(1) by simp
    qed
    then show ?thesis
      using run d evict by (intro exI[of _ True] exI[of _ ?m] exI[of _ d1]) simp
  qed (use emb le ok in \<open>auto simp: can_allocate_def Let_def intro!: exI[of _ "[]"]\<close>)
qed

lemma sum_insert_dom:
  assumes "finite (dom c)" and "h \<notin> dom c"
  shows "(\<Sum>x\<in>dom (c(h := Some v)). (sz x :: int)) = (\<Sum>x\<in>dom c. sz x) + sz h"
  using assms by simp

text \<open>Setting the references of an output that stays cached.\<close>

lemma dom_update_cached: "c h \<noteq> None \<Longrightarrow> dom (c(h := Some v)) = dom c"
  by auto

lemma check_and_update_spec:
  assumes ok: "enc_ok sz m" and inp: "input_ok feats sz r i"
  defines "h \<equiv> hash_at (feats (request_id r)) i"
  shows "\<exists>m'. check_and_update_cache r i m = Inr (cached m h \<noteq> None, m') \<and> enc_ok sz m' \<and>
    (cached m h = None \<longrightarrow> m' = m) \<and>
    (cached m h \<noteq> None \<longrightarrow> (\<exists>d n. m' = add_reference h (the (cached m h)) r i (m\<lparr>freeable := d, num_freeable_slots := n\<rparr>)))"
proof (cases "cached m h")
  case None
  then show ?thesis using ok input_ok_eval(1)[OF inp] by (simp add: check_and_update_cache_def h_def)
next
  case (Some refs)
  show ?thesis
  proof (cases "refs = []")
    case False
    let ?m = "add_reference h refs r i m"
    have dom: "dom (cached ?m) = dom (cached m)" using Some by (auto simp: add_reference_def)
    have "h \<notin> fst ` set (freeable m)" using enc_okD(5)[OF ok, of h] Some False by simp
    then have "enc_ok sz ?m"
      using enc_okD[OF ok] unfolding enc_ok_def dom
      by (auto simp: add_reference_def)
    then show ?thesis
      using Some False input_ok_eval(1)[OF inp]
      by (intro exI[of _ ?m] conjI impI exI[of _ "freeable m"] exI[of _ "num_freeable_slots m"])
        (simp_all add: check_and_update_cache_def h_def)
  next
    case True
    then have mem: "(h, sz h) \<in> set (freeable m)"
      using Some freeable_iff[OF ok] by simp
    from odict_pop_spec[OF this enc_okD(3)[OF ok]] obtain d' where
      d': "odict_pop h (freeable m) = Inr (sz h, d')" "distinct (map fst d')" "set d' = set (freeable m) - {(h, sz h)}"
        "sum_list (map snd (freeable m)) = sz h + sum_list (map snd d')" by blast
    let ?m1 = "m\<lparr>freeable := d', num_freeable_slots := num_freeable_slots m - sz h\<rparr>"
    let ?m = "add_reference h refs r i ?m1"
    have dom: "dom (cached ?m) = dom (cached m)" using Some by (auto simp: add_reference_def)
    have keys: "x \<in> fst ` set d' \<longleftrightarrow> x \<noteq> h \<and> cached m x = Some []" for x
      unfolding in_fst_image d'(3) Diff_iff freeable_iff[OF ok] by blast
    have "enc_ok sz ?m"
      unfolding enc_ok_def dom
    proof (intro conjI)
      show "\<forall>x. x \<in> fst ` set (freeable ?m) \<longleftrightarrow> cached ?m x = Some []"
        using keys by (auto simp: add_reference_def)
      show "\<forall>(h, n)\<in>set (freeable ?m). n = sz h"
        using enc_okD(4)[OF ok] d'(3) by (auto simp: add_reference_def)
    qed (use enc_okD[OF ok] d'(2,4) in \<open>auto simp: add_reference_def\<close>)
    moreover have "check_and_update_cache r i m = Inr (True, ?m)"
      using Some True d'(1) input_ok_eval(1)[OF inp] by (simp add: check_and_update_cache_def h_def)
    ultimately show ?thesis using Some
      by (intro exI[of _ ?m] conjI impI exI[of _ d'] exI[of _ "num_freeable_slots m - sz h"]) simp_all
  qed
qed

lemma allocate_spec:
  assumes ok: "enc_ok sz m" and inp: "input_ok feats sz r i"
  defines "h \<equiv> hash_at (feats (request_id r)) i"
  assumes new: "cached m h = None" and room: "sz h \<le> num_free_slots m"
  shows "\<exists>m'. allocate_encoder r i m = Inr m' \<and> enc_ok sz m' \<and>
    m' = (add_reference h [] r i m)\<lparr>num_free_slots := num_free_slots m - sz h,
                                    num_freeable_slots := num_freeable_slots m - sz h\<rparr>"
proof -
  let ?m = "(add_reference h [] r i m)\<lparr>num_free_slots := num_free_slots m - sz h,
                                    num_freeable_slots := num_freeable_slots m - sz h\<rparr>"
  have le: "num_free_slots m \<le> num_freeable_slots m"
    using enc_okD(7)[OF ok] freeable_sum_nonneg[OF ok order_refl] by simp
  then have "allocate_encoder r i m = Inr ?m"
    using input_ok_eval(1,2)[OF inp, folded h_def] new room by (simp add: allocate_encoder_def)
  moreover have "enc_ok sz ?m"
    unfolding enc_ok_def
  proof (intro conjI)
    have "(\<Sum>x\<in>dom (cached ?m). sz x) = (\<Sum>x\<in>dom (cached m). sz x) + sz h"
      using sum_insert_dom[OF enc_okD(1)[OF ok], of h sz] new by (auto simp: add_reference_def domIff)
    then show "num_free_slots ?m = cache_size ?m - (\<Sum>h\<in>dom (cached ?m). sz h)"
      using enc_okD(6)[OF ok] by (simp add: add_reference_def)
    show "\<forall>h\<in>dom (cached ?m). 0 \<le> sz h"
      using enc_okD(2)[OF ok] input_ok_eval(3)[OF inp, folded h_def] by (auto simp: add_reference_def)
    show "\<forall>x. x \<in> fst ` set (freeable ?m) \<longleftrightarrow> cached ?m x = Some []"
      using enc_okD(5)[OF ok] new by (auto simp: add_reference_def)
  qed (use enc_okD[OF ok] room in \<open>auto simp: add_reference_def\<close>)
  ultimately show ?thesis by blast
qed

lemma free_input_spec:
  assumes ok: "enc_ok sz m" and inp: "input_ok feats sz r i"
  defines "h \<equiv> hash_at (feats (request_id r)) i"
  shows "\<exists>m'. free_encoder_input r i m = Inr m' \<and> enc_ok sz m' \<and>
    cached m' = (cached m)(h := map_option (removeAll (request_id r)) (cached m h)) \<and>
    request_cached_ids m' = (request_cached_ids m)(request_id r :=
      (case request_cached_ids m (request_id r) of None \<Rightarrow> None
       | Some ids \<Rightarrow> if removeAll i ids = [] then None else Some (removeAll i ids))) \<and>
    cache_size m' = cache_size m \<and> num_free_slots m' = num_free_slots m \<and> freed m' = freed m"
proof -
  define ids' where "ids' = (request_cached_ids m)(request_id r :=
      (case request_cached_ids m (request_id r) of None \<Rightarrow> None
       | Some ids \<Rightarrow> if removeAll i ids = [] then None else Some (removeAll i ids)))"
  let ?m1 = "m\<lparr>request_cached_ids := ids'\<rparr>"
  have ok1: "enc_ok sz ?m1" using ok by (simp add: enc_ok_def)
  have m1: "(case request_cached_ids m (request_id r) of
                   None \<Rightarrow> m
                 | Some ids \<Rightarrow> (let ids' = removeAll i ids
                      in m\<lparr>request_cached_ids := (request_cached_ids m)
                             (request_id r := if ids' = [] then None else Some ids')\<rparr>)) = ?m1"
    by (auto simp: ids'_def Let_def fun_upd_idem split: option.splits)
  have run: "free_encoder_input r i m =
      (case cached m h of None \<Rightarrow> Inr ?m1
       | Some refs \<Rightarrow> if refs = [] then Inr ?m1
         else if removeAll (request_id r) refs = []
         then Inr (?m1\<lparr>cached := (cached m)(h := Some []), freeable := odict_set h (sz h) (freeable m),
                       num_freeable_slots := num_freeable_slots m + sz h\<rparr>)
         else Inr (?m1\<lparr>cached := (cached m)(h := Some (removeAll (request_id r) refs))\<rparr>))"
    unfolding free_encoder_input_def m1 input_ok_eval(1)[OF inp, folded h_def]
    using input_ok_eval(2)[OF inp, folded h_def] by (simp add: Let_def split: option.splits)
  consider (none) "cached m h = None" | (empty) "cached m h = Some []"
    | (last) refs where "cached m h = Some refs" "refs \<noteq> []" "removeAll (request_id r) refs = []"
    | (more) refs where "cached m h = Some refs" "refs \<noteq> []" "removeAll (request_id r) refs \<noteq> []"
    by (cases "cached m h") auto
  then show ?thesis
  proof cases
    case none
    then show ?thesis using run ok1 by (auto simp: ids'_def fun_upd_idem)
  next
    case empty
    then show ?thesis using run ok1 by (auto simp: ids'_def fun_upd_idem)
  next
    case last
    let ?m = "?m1\<lparr>cached := (cached m)(h := Some []), freeable := odict_set h (sz h) (freeable m),
                  num_freeable_slots := num_freeable_slots m + sz h\<rparr>"
    have fresh: "h \<notin> fst ` set (freeable m)" using enc_okD(5)[OF ok, of h] last(1,2) by simp
    have dom: "dom (cached ?m) = dom (cached m)" using last(1) by auto
    have "enc_ok sz ?m"
      unfolding enc_ok_def dom
    proof (intro conjI)
      show "\<forall>x. x \<in> fst ` set (freeable ?m) \<longleftrightarrow> cached ?m x = Some []"
        using enc_okD(5)[OF ok] by (auto simp: odict_set_fresh[OF fresh])
    qed (use enc_okD[OF ok] fresh in \<open>auto simp: odict_set_fresh[OF fresh]\<close>)
    then show ?thesis using run last by (auto simp: ids'_def)
  next
    case more
    let ?m = "?m1\<lparr>cached := (cached m)(h := Some (removeAll (request_id r) refs))\<rparr>"
    have dom: "dom (cached ?m) = dom (cached m)" using more(1) by auto
    have "enc_ok sz ?m"
      unfolding enc_ok_def dom
    proof (intro conjI)
      show "\<forall>x. x \<in> fst ` set (freeable ?m) \<longleftrightarrow> cached ?m x = Some []"
        using enc_okD(5)[OF ok] more by auto
    qed (use enc_okD[OF ok] in auto)
    then show ?thesis using run more by (auto simp: ids'_def)
  qed
qed

section \<open>Reachable states\<close>

text \<open>
  A step is one call of the manager as the scheduler makes it: space is allocated only for an output
  that is not cached, which the scheduler has asked before, and for which there is room.
\<close>

inductive enc_step :: "(string \<Rightarrow> mm_feature list) \<Rightarrow> (string \<Rightarrow> int) \<Rightarrow> encoder_cache_manager \<Rightarrow> encoder_cache_manager \<Rightarrow> bool"
  for feats sz where
  enc_check: "input_ok feats sz r i \<Longrightarrow> check_and_update_cache r i m = Inr (res, m') \<Longrightarrow> enc_step feats sz m m'"
| enc_can: "input_ok feats sz r i \<Longrightarrow> can_allocate r i budget sched m = Inr (res, m') \<Longrightarrow> enc_step feats sz m m'"
| enc_alloc: "input_ok feats sz r i \<Longrightarrow> cached m (hash_at (feats (request_id r)) i) = None \<Longrightarrow>
    allocate_encoder r i m = Inr m' \<Longrightarrow> enc_step feats sz m m'"
| enc_free_input: "input_ok feats sz r i \<Longrightarrow> free_encoder_input r i m = Inr m' \<Longrightarrow> enc_step feats sz m m'"
| enc_freed: "get_freed_mm_hashes m = (hs, m') \<Longrightarrow> enc_step feats sz m m'"
| enc_reset: "enc_step feats sz m (reset_encoder_cache m)"

inductive enc_reach :: "(string \<Rightarrow> mm_feature list) \<Rightarrow> (string \<Rightarrow> int) \<Rightarrow> int \<Rightarrow> encoder_cache_manager \<Rightarrow> bool"
  for feats sz capacity where
  enc_init: "0 \<le> capacity \<Longrightarrow> enc_reach feats sz capacity (init_encoder_cache capacity)"
| enc_more: "enc_reach feats sz capacity m \<Longrightarrow> enc_step feats sz m m' \<Longrightarrow> enc_reach feats sz capacity m'"

lemma refs_okD:
  assumes "refs_ok feats m"
  shows "request_cached_ids m rid = Some ids \<Longrightarrow> i \<in> set ids \<Longrightarrow> 0 \<le> i \<and> i < int (length (feats rid))"
    and "cached m h = Some refs \<Longrightarrow> rid \<in> set refs \<Longrightarrow>
      \<exists>ids i. request_cached_ids m rid = Some ids \<and> i \<in> set ids \<and> hash_at (feats rid) i = h"
  using assms by (auto simp: refs_ok_def)

lemma refs_ok_add_reference:
  assumes ok: "refs_ok feats m" and inp: "input_ok feats sz r i"
    and h: "h = hash_at (feats (request_id r)) i" and refs: "cached m h = Some refs \<or> refs = []"
  shows "refs_ok feats (add_reference h refs r i m)"
  unfolding refs_ok_def
proof (intro conjI allI impI ballI)
  fix rid ids j assume "request_cached_ids (add_reference h refs r i m) rid = Some ids" "j \<in> set ids"
  then show "0 \<le> j" "j < int (length (feats rid))"
    using refs_okD(1)[OF ok] inp by (auto simp: add_reference_def input_ok_def split: if_splits option.splits)
next
  fix x rs rid assume x: "cached (add_reference h refs r i m) x = Some rs" "rid \<in> set rs"
  let ?ids = "request_cached_ids (add_reference h refs r i m)"
  show "\<exists>ids j. ?ids rid = Some ids \<and> j \<in> set ids \<and> hash_at (feats rid) j = x"
  proof (cases "x = h \<and> rid = request_id r")
    case True
    then show ?thesis using h by (intro exI[of _ "the (?ids rid)"] exI[of _ i]) (simp add: add_reference_def)
  next
    case False
    then obtain rs' where "cached m x = Some rs'" "rid \<in> set rs'"
      using x refs by (auto simp: add_reference_def split: if_splits)
    from refs_okD(2)[OF ok this] obtain ids j where j: "request_cached_ids m rid = Some ids" "j \<in> set ids" "hash_at (feats rid) j = x"
      by blast
    then show ?thesis
      by (cases "rid = request_id r") (auto simp: add_reference_def)
  qed
qed

lemma refs_ok_cong:
  "refs_ok feats m \<Longrightarrow> request_cached_ids m' = request_cached_ids m \<Longrightarrow>
   (\<And>h refs. cached m' h = Some refs \<Longrightarrow> cached m h = Some refs) \<Longrightarrow> refs_ok feats m'"
  by (simp add: refs_ok_def)

lemma refs_ok_free_input:
  assumes ok: "refs_ok feats m" and h: "h = hash_at (feats (request_id r)) i"
    and c: "cached m' = (cached m)(h := map_option (removeAll (request_id r)) (cached m h))"
    and ids: "request_cached_ids m' = (request_cached_ids m)(request_id r :=
      (case request_cached_ids m (request_id r) of None \<Rightarrow> None
       | Some ids \<Rightarrow> if removeAll i ids = [] then None else Some (removeAll i ids)))"
  shows "refs_ok feats m'"
  unfolding refs_ok_def
proof (intro conjI allI impI ballI)
  fix rid js j assume "request_cached_ids m' rid = Some js" "j \<in> set js"
  then obtain js' where "request_cached_ids m rid = Some js'" "j \<in> set js'"
    unfolding ids by (auto split: if_splits option.splits)
  then show "0 \<le> j" "j < int (length (feats rid))" using refs_okD(1)[OF ok] by blast+
next
  fix x rs rid assume x: "cached m' x = Some rs" "rid \<in> set rs"
  then obtain rs' where rs': "cached m x = Some rs'" "rid \<in> set rs'" and ne: "x \<noteq> h \<or> rid \<noteq> request_id r"
    unfolding c by (auto split: if_splits)
  from refs_okD(2)[OF ok rs'] obtain js j where j: "request_cached_ids m rid = Some js" "j \<in> set js" "hash_at (feats rid) j = x"
    by blast
  show "\<exists>js j. request_cached_ids m' rid = Some js \<and> j \<in> set js \<and> hash_at (feats rid) j = x"
  proof (cases "rid = request_id r")
    case True
    then have "j \<in> set (removeAll i js)" using j ne h by auto
    then have "removeAll i js \<noteq> []" by force
    then show ?thesis
      using j True \<open>j \<in> set (removeAll i js)\<close> unfolding ids by (intro exI[of _ "removeAll i js"] exI[of _ j]) simp
  next
    case False
    then show ?thesis using j unfolding ids by auto
  qed
qed

lemma enc_step_ok:
  assumes "enc_step feats sz m m'" and "enc_ok sz m" and "refs_ok feats m"
  shows "enc_ok sz m' \<and> refs_ok feats m' \<and> cache_size m' = cache_size m"
  using assms
proof (induction rule: enc_step.induct)
  case (enc_check r i m res m')
  let ?h = "hash_at (feats (request_id r)) i"
  from check_and_update_spec[OF enc_check(3,1)] enc_check(2) have spec: "enc_ok sz m'" "cached m ?h = None \<longrightarrow> m' = m"
    "cached m ?h \<noteq> None \<longrightarrow> (\<exists>d n. m' = add_reference ?h (the (cached m ?h)) r i (m\<lparr>freeable := d, num_freeable_slots := n\<rparr>))"
    by auto
  show ?case
  proof (cases "cached m ?h")
    case None
    then show ?thesis using spec enc_check(4) by simp
  next
    case (Some refs)
    then obtain d n where m': "m' = add_reference ?h refs r i (m\<lparr>freeable := d, num_freeable_slots := n\<rparr>)" using spec(3) by auto
    have "refs_ok feats (m\<lparr>freeable := d, num_freeable_slots := n\<rparr>)"
      by (rule refs_ok_cong[OF enc_check(4)]) simp_all
    then have "refs_ok feats m'"
      unfolding m' by (rule refs_ok_add_reference[OF _ enc_check(1) refl]) (simp add: Some)
    moreover have "cache_size m' = cache_size m" by (simp add: m' add_reference_def)
    ultimately show ?thesis using spec(1) by blast
  qed
next
  case (enc_can r i budget sched m res m')
  from can_allocate_spec[OF enc_can(3,1), of budget sched] enc_can(2) obtain d1 where
    ok: "enc_ok sz m'" and m': "m' = m\<lparr>num_free_slots := num_free_slots m + sum_list (map snd d1), freeable := freeable m',
           cached := (\<lambda>h. if h \<in> fst ` set d1 then None else cached m h), freed := freed m @ map fst d1\<rparr>"
    by auto
  have "cached m' = (\<lambda>h. if h \<in> fst ` set d1 then None else cached m h)" "request_cached_ids m' = request_cached_ids m"
    "cache_size m' = cache_size m"
    by (subst m', simp)+
  then show ?case
    using ok by (intro conjI refs_ok_cong[OF enc_can(4)]) (auto split: if_splits)
next
  case (enc_alloc r i m m')
  have "sz (hash_at (feats (request_id r)) i) \<le> num_free_slots m"
    using enc_alloc(1,3) input_ok_eval[OF enc_alloc(1)] by (auto simp: allocate_encoder_def Let_def)
  from allocate_spec[OF enc_alloc(4,1,2) this] enc_alloc(3)
  have ok: "enc_ok sz m'" and m': "m' = (add_reference (hash_at (feats (request_id r)) i) [] r i m)
      \<lparr>num_free_slots := num_free_slots m - sz (hash_at (feats (request_id r)) i),
       num_freeable_slots := num_freeable_slots m - sz (hash_at (feats (request_id r)) i)\<rparr>" by auto
  have "refs_ok feats (add_reference (hash_at (feats (request_id r)) i) [] r i m)"
    by (rule refs_ok_add_reference[OF enc_alloc(5,1) refl]) simp
  then have "refs_ok feats m'" by (rule refs_ok_cong) (simp_all add: m')
  with ok show ?case by (simp add: m' add_reference_def)
next
  case (enc_free_input r i m m')
  from free_input_spec[OF enc_free_input(3,1)] enc_free_input(2) refs_ok_free_input[OF enc_free_input(4) refl]
  show ?case by fastforce
next
  case (enc_freed m hs m')
  then have "m' = m\<lparr>freed := []\<rparr>" by (simp add: get_freed_mm_hashes_def)
  then show ?case using enc_freed by (simp add: enc_ok_def refs_ok_def)
next
  case (enc_reset m)
  moreover have "0 \<le> cache_size m"
    using enc_okD(2,6,8)[OF enc_reset(1)] sum_nonneg[of "dom (cached m)" sz] by fastforce
  ultimately show ?case by (simp add: reset_encoder_cache_def enc_ok_def refs_ok_def)
qed

lemma enc_reach_ok: "enc_reach feats sz capacity m \<Longrightarrow> enc_ok sz m \<and> refs_ok feats m \<and> cache_size m = capacity"
proof (induction rule: enc_reach.induct)
  case enc_init
  then show ?case by (simp add: init_encoder_cache_def enc_ok_def refs_ok_def)
next
  case (enc_more m m')
  then show ?case using enc_step_ok by metis
qed

text \<open>
  C19: The encoder cache never promises more space than it has.  In every reachable state the free slots
  are the capacity minus the sizes of all cached outputs, the reclaimable ones the capacity minus the
  sizes of the outputs some request still references, both within the capacity; and exactly the
  outputs without a reference are candidates for eviction, each once.
\<close>

theorem encoder_slots_accounted:
  assumes "enc_reach feats sz capacity m"
  shows "num_free_slots m = capacity - (\<Sum>h\<in>dom (cached m). sz h) \<and>
    num_freeable_slots m = capacity - (\<Sum>h\<in>{h. \<exists>refs. cached m h = Some refs \<and> refs \<noteq> []}. sz h) \<and>
    0 \<le> num_free_slots m \<and> num_free_slots m \<le> num_freeable_slots m \<and> num_freeable_slots m \<le> capacity \<and>
    distinct (map fst (freeable m)) \<and> (\<forall>h. h \<in> fst ` set (freeable m) \<longleftrightarrow> cached m h = Some [])"
proof -
  have ok: "enc_ok sz m" and cap: "cache_size m = capacity" using enc_reach_ok[OF assms] by auto
  let ?used = "{h. \<exists>refs. cached m h = Some refs \<and> refs \<noteq> []}"
  have fre: "fst ` set (freeable m) = {h. cached m h = Some []}" using enc_okD(5)[OF ok] by auto
  have dom: "dom (cached m) = ?used \<union> fst ` set (freeable m)" unfolding fre by (auto simp: domIff)
  have "sum_list (map snd (freeable m)) = (\<Sum>h\<in>fst ` set (freeable m). sz h)"
  proof -
    have "snd x = sz (fst x)" if "x \<in> set (freeable m)" for x
      using enc_okD(4)[OF ok, of "fst x" "snd x"] that by simp
    then have "map snd (freeable m) = map sz (map fst (freeable m))" by simp
    then show ?thesis
      unfolding set_map[symmetric] sum.distinct_set_conv_list[OF enc_okD(3)[OF ok]] by (rule arg_cong)
  qed
  moreover have "(\<Sum>h\<in>dom (cached m). sz h) = (\<Sum>h\<in>?used. sz h) + (\<Sum>h\<in>fst ` set (freeable m). sz h)"
    unfolding dom
  proof (rule sum.union_disjoint)
    show "finite ?used" by (rule finite_subset[OF _ enc_okD(1)[OF ok]]) auto
    show "?used \<inter> fst ` set (freeable m) = {}" unfolding fre by auto
  qed simp
  ultimately have freeable: "num_freeable_slots m = capacity - (\<Sum>h\<in>?used. sz h)"
    using enc_okD(6,7)[OF ok] cap by simp
  have "0 \<le> (\<Sum>h\<in>?used. sz h)"
    by (rule sum_nonneg) (use enc_okD(2)[OF ok] in blast)
  then show ?thesis
    using freeable enc_okD(3,5,6,7,8)[OF ok] cap freeable_sum_nonneg[OF ok order_refl] by simp
qed


lemma free_request_loop:
  assumes "\<forall>i\<in>set is. input_ok feats sz r i" and "enc_ok sz m"
  shows "\<exists>m'. rfold (\<lambda>i. free_encoder_input r i) is m = Inr m' \<and> enc_ok sz m' \<and>
    (\<forall>h. cached m' h = (if h \<in> hash_at (feats (request_id r)) ` set is
                        then map_option (removeAll (request_id r)) (cached m h) else cached m h)) \<and>
    set (get_cached_input_ids r m') = set (get_cached_input_ids r m) - set is \<and> num_free_slots m' = num_free_slots m"
  using assms
proof (induction "is" arbitrary: m)
  case Nil
  then show ?case by simp
next
  case (Cons i "is")
  let ?h = "hash_at (feats (request_id r)) i"
  from free_input_spec[OF Cons.prems(2), of feats r i] Cons.prems(1) obtain m1 where
    m1: "free_encoder_input r i m = Inr m1" "enc_ok sz m1" "num_free_slots m1 = num_free_slots m"
      "cached m1 = (cached m)(?h := map_option (removeAll (request_id r)) (cached m ?h))"
      "request_cached_ids m1 = (request_cached_ids m)(request_id r :=
        (case request_cached_ids m (request_id r) of None \<Rightarrow> None
         | Some ids \<Rightarrow> if removeAll i ids = [] then None else Some (removeAll i ids)))"
    by auto
  from Cons.IH[OF _ m1(2)] Cons.prems(1) obtain m2 where
    m2: "rfold (\<lambda>i. free_encoder_input r i) is m1 = Inr m2" "enc_ok sz m2" "num_free_slots m2 = num_free_slots m1"
      "\<forall>h. cached m2 h = (if h \<in> hash_at (feats (request_id r)) ` set is
                        then map_option (removeAll (request_id r)) (cached m1 h) else cached m1 h)"
      "set (get_cached_input_ids r m2) = set (get_cached_input_ids r m1) - set is"
    by auto
  have "set (get_cached_input_ids r m1) = set (get_cached_input_ids r m) - {i}"
  proof (cases "request_cached_ids m (request_id r)")
    case (Some ids)
    have "set (removeAll i ids) = set ids - {i}" by (rule set_removeAll)
    then show ?thesis
      unfolding get_cached_input_ids_def m1(5) using Some by (cases "removeAll i ids = []") auto
  qed (simp add: get_cached_input_ids_def m1(5))
  moreover have twice: "map_option (removeAll x) (map_option (removeAll x) o') = map_option (removeAll x) o'" for x :: string and o'
    by (cases o') (simp_all add: removeAll_filter_not_eq)
  ultimately show ?case
    using m1(1,3) m2 by (intro exI[of _ m2]) (auto simp: m1(4) twice)
qed

text \<open>
  C24: Freeing a request leaves nothing behind: in every reachable state \<open>free\<close> returns, after it no
  cached output is referenced by the request and no input is registered for it, and what other
  requests reference is unchanged.
\<close>

theorem free_leaves_no_reference:
  assumes "enc_reach feats sz capacity m" and "mm_features r = feats (request_id r)"
    and "\<forall>f\<in>set (mm_features r). get_num_embeds (mm_position f) = sz (mm_identifier f) \<and> 0 \<le> sz (mm_identifier f)"
  shows "\<exists>m'. free_encoder r m = Inr m' \<and> get_cached_input_ids r m' = [] \<and>
    (\<forall>h refs. cached m' h = Some refs \<longrightarrow> request_id r \<notin> set refs) \<and>
    (\<forall>h. cached m' h = None \<longleftrightarrow> cached m h = None) \<and>
    (\<forall>h refs. cached m h = Some refs \<longrightarrow>
       (\<exists>refs'. cached m' h = Some refs' \<and> set refs' = set refs - {request_id r}))"
proof -
  have ok: "enc_ok sz m" "refs_ok feats m" using enc_reach_ok[OF assms(1)] by auto
  let ?is = "get_cached_input_ids r m"
  have inp: "input_ok feats sz r i" if "i \<in> set ?is" for i
    using that refs_okD(1)[OF ok(2), of "request_id r"] assms(2,3)
    by (cases "request_cached_ids m (request_id r)") (auto simp: input_ok_def get_cached_input_ids_def)
  from free_request_loop[OF _ ok(1), of ?is feats r] inp obtain m' where
    m': "free_encoder r m = Inr m'" "set (get_cached_input_ids r m') = {}"
      "\<forall>h. cached m' h = (if h \<in> hash_at (feats (request_id r)) ` set ?is
                        then map_option (removeAll (request_id r)) (cached m h) else cached m h)"
    unfolding free_encoder_def by auto
  have free: "request_id r \<notin> set refs" if "cached m h = Some refs" "h \<notin> hash_at (feats (request_id r)) ` set ?is" for h refs
    using refs_okD(2)[OF ok(2) that(1), of "request_id r"] that(2) by (auto simp: get_cached_input_ids_def)
  have some: "\<exists>refs'. cached m' h = Some refs' \<and> set refs' = set refs - {request_id r}" if "cached m h = Some refs" for h refs
    using m'(3) that free[OF that] by (cases "h \<in> hash_at (feats (request_id r)) ` set ?is") auto
  have none: "cached m' h = None \<longleftrightarrow> cached m h = None" for h
    using m'(3) by simp
  have "request_id r \<notin> set refs" if h: "cached m' h = Some refs" for h refs
  proof -
    obtain refs0 where "cached m h = Some refs0" using none[of h] h by (cases "cached m h") auto
    then show ?thesis using some[of h refs0] h by auto
  qed
  then show ?thesis
    using m'(1,2) some none by (intro exI[of _ m']) simp
qed

section \<open>A sample run\<close>

definition sample_image :: mm_feature where
  "sample_image = \<lparr>mm_identifier = ''img'', mm_position = \<lparr>offset = 1, plen = 4, is_embed = None\<rparr>\<rparr>"

definition image_request :: request where
  "image_request = (text_request ''r'' 0 [1, 0, 0, 0, 0, 2])\<lparr>mm_features := [sample_image], num_computed_tokens := 1\<rparr>"

lemma image_request_simps [simp]:
  "mm_features image_request = [sample_image]" "request_id image_request = ''r''" "num_computed_tokens image_request = 1"
  "mm_identifier sample_image = ''img''" "get_num_embeds (mm_position sample_image) = 4"
  by (simp_all add: image_request_def sample_image_def get_num_embeds_def embeds_cumsum_def)

lemma image_input_ok: "input_ok (\<lambda>_. [sample_image]) (\<lambda>_. 4) image_request 0"
  by (simp add: input_ok_def)

definition one_image_cached :: encoder_cache_manager where
  "one_image_cached = \<lparr>cache_size = 10, num_free_slots = 6, num_freeable_slots = 6, cached = [''img'' \<mapsto> [''r'']],
     request_cached_ids = [''r'' \<mapsto> [0]], freeable = [], freed = []\<rparr>"

lemma one_image_reachable: "enc_reach (\<lambda>_. [sample_image]) (\<lambda>_. 4) 10 one_image_cached"
proof (rule enc_more[OF enc_init])
  show "enc_step (\<lambda>_. [sample_image]) (\<lambda>_. 4) (init_encoder_cache 10) one_image_cached"
  proof (rule enc_alloc[OF image_input_ok])
    show "allocate_encoder image_request 0 (init_encoder_cache 10) = Inr one_image_cached"
      by (simp add: allocate_encoder_def init_encoder_cache_def mm_hash_of_def get_num_encoder_embeds_def py_nth_def
          add_reference_def set_add_def one_image_cached_def)
  qed (simp add: init_encoder_cache_def)
qed simp

theorem encoder_slots_accounted_witness:
  "\<exists>m. enc_reach (\<lambda>_. [sample_image]) (\<lambda>_. 4) 10 m \<and> cached m ''img'' = Some [''r''] \<and>
     num_free_slots m = 10 - (\<Sum>h\<in>dom (cached m). 4)"
  using encoder_slots_accounted[OF one_image_reachable] one_image_reachable
  by (intro exI[of _ one_image_cached]) (simp add: one_image_cached_def)


theorem free_leaves_no_reference_witness:
  "\<exists>m'. free_encoder image_request one_image_cached = Inr m' \<and>
     (\<exists>refs. cached m' ''img'' = Some refs \<and> set refs = {})"
proof -
  obtain m' where m': "free_encoder image_request one_image_cached = Inr m'"
    "\<forall>h refs. cached one_image_cached h = Some refs \<longrightarrow>
       (\<exists>refs'. cached m' h = Some refs' \<and> set refs' = set refs - {''r''})"
    using free_leaves_no_reference[OF one_image_reachable, of image_request] by auto
  from m'(2)[rule_format, of "''img''" "[''r'']"] m'(1) show ?thesis
    by (simp add: one_image_cached_def)
qed

text \<open>
  C27: For encoder-decoder models the slot count does not stay within the capacity.  The manager reports
  every input of a request as cached at all times, so once a token has been computed each round of the
  scheduler's release frees all of them again: after \<open>k\<close> rounds the manager counts \<open>k\<close> times the size
  of the request's inputs as free, however often they were allocated.
\<close>

theorem encdec_release_repeats:
  assumes "0 < num_computed_tokens r"
  shows "rfold (\<lambda>_. ed_free_encoder_inputs use_eagle r) [0..<k] m =
    Inr (m\<lparr>ed_num_free_slots := ed_num_free_slots m + int k * sum_list (map (\<lambda>f. get_num_embeds (mm_position f)) (mm_features r))\<rparr>)"
proof (induction k arbitrary: m)
  case 0
  then show ?case by simp
next
  case (Suc k)
  have loop: "rfold (\<lambda>input_id m. rbind (py_nth (mm_features r) input_id) (\<lambda>f.
              if input_consumed True use_eagle r f then ed_free_encoder_input r input_id m else Inr m))
       (map int [0..<n]) m =
     Inr (m\<lparr>ed_num_free_slots := ed_num_free_slots m + sum_list (map (\<lambda>f. get_num_embeds (mm_position f)) (take n (mm_features r)))\<rparr>)"
    if "n \<le> length (mm_features r)" for n m
    using that
  proof (induction n)
    case (Suc n)
    then show ?case
      using assms by (simp add: rfold_append input_consumed_def ed_free_encoder_input_def get_num_encoder_embeds_def
          take_Suc_conv_app_nth)
  qed simp
  then have "ed_free_encoder_inputs use_eagle r m =
      Inr (m\<lparr>ed_num_free_slots := ed_num_free_slots m + sum_list (map (\<lambda>f. get_num_embeds (mm_position f)) (mm_features r))\<rparr>)" for m
    using loop[of "length (mm_features r)" m] by (simp add: ed_free_encoder_inputs_def ed_get_cached_input_ids_def)
  then show ?case
    using Suc[of m] by (simp add: rfold_append algebra_simps)
qed

theorem encdec_release_repeats_witness:
  "\<exists>m m'. ed_allocate image_request 0 (init_encdec_cache 10) = Inr m \<and> ed_num_free_slots m = 6 \<and>
     rfold (\<lambda>_. ed_free_encoder_inputs False image_request) [0..<3] m = Inr m' \<and> ed_num_free_slots m' > ed_cache_size m'"
proof -
  let ?m = "\<lparr>ed_cache_size = 10, ed_num_free_slots = 6, ed_allocated = [''img''], ed_to_free = []\<rparr>"
  have "ed_allocate image_request 0 (init_encdec_cache 10) = Inr ?m"
    by (simp add: ed_allocate_def init_encdec_cache_def get_num_encoder_embeds_def mm_hash_of_def py_nth_def)
  then show ?thesis
    using encdec_release_repeats[of image_request False 3 ?m] by auto
qed

end
