(* ===== verification/KV_Spec.thy ===== *)
theory KV_Spec
  imports Prelude
begin

text \<open>
  The KV-cache specifications of \<^verbatim>\<open>src/vllm/v1/kv_cache_interface.py\<close>, as far as the cache managers
  read them: the class, the block size and the window, chunk or state parameters.  The classes with
  another page layout only (\<^verbatim>\<open>MLAAttentionSpec\<close>, \<^verbatim>\<open>TQFullAttentionSpec\<close>, \<^verbatim>\<open>HiddenStateCacheSpec\<close> and
  \<^verbatim>\<open>SlidingWindowMLASpec\<close>) have the manager of their superclass and are written as it.
\<close>

section \<open>Specifications\<close>

datatype kv_cache_spec =
    FullAttentionSpec int
  | RSWASpec int int
  | SinkFullAttentionSpec int "int option"
  | SlidingWindowSpec int int
  | ChunkedLocalAttentionSpec int int
  | MambaSpec int string int
  | CrossAttentionSpec int
  | EncoderOnlyAttentionSpec int

fun spec_block_size :: "kv_cache_spec \<Rightarrow> int" where
  "spec_block_size (FullAttentionSpec bs) = bs"
| "spec_block_size (RSWASpec bs _) = bs"
| "spec_block_size (SinkFullAttentionSpec bs _) = bs"
| "spec_block_size (SlidingWindowSpec bs _) = bs"
| "spec_block_size (ChunkedLocalAttentionSpec bs _) = bs"
| "spec_block_size (MambaSpec bs _ _) = bs"
| "spec_block_size (CrossAttentionSpec bs) = bs"
| "spec_block_size (EncoderOnlyAttentionSpec bs) = bs"

text \<open>The class tests.\<close>

fun is_full_attention :: "kv_cache_spec \<Rightarrow> bool" where
  "is_full_attention (FullAttentionSpec _) = True"
| "is_full_attention (RSWASpec _ _) = True"
| "is_full_attention (SinkFullAttentionSpec _ _) = True"
| "is_full_attention _ = False"

fun is_sliding_window :: "kv_cache_spec \<Rightarrow> bool" where
  "is_sliding_window (SlidingWindowSpec _ _) = True"
| "is_sliding_window _ = False"

fun is_chunked_local :: "kv_cache_spec \<Rightarrow> bool" where
  "is_chunked_local (ChunkedLocalAttentionSpec _ _) = True"
| "is_chunked_local _ = False"

fun is_mamba :: "kv_cache_spec \<Rightarrow> bool" where
  "is_mamba (MambaSpec _ _ _) = True"
| "is_mamba _ = False"

fun is_cross_attention :: "kv_cache_spec \<Rightarrow> bool" where
  "is_cross_attention (CrossAttentionSpec _) = True"
| "is_cross_attention _ = False"

section \<open>Bounds on the blocks of one request\<close>

definition swa_max_admission_blocks_per_request :: "int \<Rightarrow> int \<Rightarrow> int \<Rightarrow> int \<Rightarrow> int" where
  "swa_max_admission_blocks_per_request block_size sliding_window max_in_flight_tokens max_model_len =
     cdiv (min (sliding_window - 1 + max_in_flight_tokens) max_model_len) block_size + 1"

definition chunked_max_admission_blocks_per_request :: "int \<Rightarrow> int \<Rightarrow> int \<Rightarrow> int \<Rightarrow> int" where
  "chunked_max_admission_blocks_per_request block_size attention_chunk_size max_in_flight_tokens max_model_len =
     cdiv (min (attention_chunk_size + max_in_flight_tokens) max_model_len) block_size"

fun max_admission_blocks_per_request :: "kv_cache_spec \<Rightarrow> int \<Rightarrow> int \<Rightarrow> int option" where
  "max_admission_blocks_per_request (SlidingWindowSpec bs w) in_flight max_len =
     Some (swa_max_admission_blocks_per_request bs w in_flight max_len)"
| "max_admission_blocks_per_request (ChunkedLocalAttentionSpec bs cs) in_flight max_len =
     Some (chunked_max_admission_blocks_per_request bs cs in_flight max_len)"
| "max_admission_blocks_per_request _ in_flight max_len = None"

section \<open>Tokens outside the attention window\<close>

text \<open>\<^verbatim>\<open>get_num_skipped_tokens\<close> of the managers.\<close>

definition swa_get_num_skipped_tokens :: "int \<Rightarrow> int \<Rightarrow> int" where [simp]:
  "swa_get_num_skipped_tokens sliding_window num_computed_tokens = max 0 (num_computed_tokens - sliding_window + 1)"

definition chunked_get_num_skipped_tokens :: "int \<Rightarrow> int \<Rightarrow> int" where [simp]:
  "chunked_get_num_skipped_tokens attention_chunk_size num_computed_tokens =
     num_computed_tokens div attention_chunk_size * attention_chunk_size"

definition mamba_get_num_skipped_tokens :: "int \<Rightarrow> int" where [simp]:
  "mamba_get_num_skipped_tokens num_computed_tokens = num_computed_tokens - 1"

fun get_num_skipped_tokens :: "kv_cache_spec \<Rightarrow> int \<Rightarrow> int" where
  "get_num_skipped_tokens (SlidingWindowSpec _ w) n = swa_get_num_skipped_tokens w n"
| "get_num_skipped_tokens (ChunkedLocalAttentionSpec _ cs) n = chunked_get_num_skipped_tokens cs n"
| "get_num_skipped_tokens (MambaSpec _ _ _) n = mamba_get_num_skipped_tokens n"
| "get_num_skipped_tokens _ n = 0"

lemma cdiv_diff_skip:
  fixes slots skip bs :: int
  assumes "0 < bs"
  shows "cdiv slots bs - skip div bs \<le> cdiv (slots - skip) bs + 1"
proof -
  have "slots \<le> (cdiv (slots - skip) bs + skip div bs + 1) * bs"
  proof -
    have "slots - skip \<le> cdiv (slots - skip) bs * bs" by (rule cdiv_upper[OF assms])
    moreover have "skip \<le> skip div bs * bs + bs"
      using assms by (smt (verit) pos_mod_bound div_mult_mod_eq)
    ultimately show ?thesis by (simp add: distrib_right)
  qed
  then have "cdiv slots bs \<le> cdiv (slots - skip) bs + skip div bs + 1"
    using cdiv_le_iff[OF assms] by blast
  then show ?thesis by simp
qed

text \<open>
  C29: A request never holds more blocks than the admission cap.  For sliding-window attention, and for
  chunked local attention with a chunk size that is a multiple of the block size, a request with
  \<open>processed\<close> settled tokens and slots for \<open>slots\<close> tokens, of which at most \<open>in_flight\<close> are not
  settled, needs no more blocks behind the skipped ones than \<open>max_admission_blocks_per_request\<close>.
\<close>

theorem held_blocks_within_cap:
  assumes "0 < spec_block_size spec" and "0 \<le> processed" and "processed \<le> slots" and "slots \<le> max_len"
    and "slots - processed \<le> in_flight" and "max_admission_blocks_per_request spec in_flight max_len = Some cap"
    and "\<And>bs cs. spec = ChunkedLocalAttentionSpec bs cs \<Longrightarrow> 0 < cs \<and> bs dvd cs"
    and "\<And>bs w. spec = SlidingWindowSpec bs w \<Longrightarrow> 0 < w"
  shows "cdiv slots (spec_block_size spec) - get_num_skipped_tokens spec processed div spec_block_size spec \<le> cap"
proof (cases spec)
  case (SlidingWindowSpec bs w)
  let ?skip = "max 0 (processed - w + 1)"
  have bs: "0 < bs" and w: "0 < w" using assms(1,8) SlidingWindowSpec by auto
  have "slots - ?skip \<le> min (w - 1 + in_flight) max_len"
    using assms(2-5) w by auto
  then have "cdiv (slots - ?skip) bs \<le> cdiv (min (w - 1 + in_flight) max_len) bs"
    by (rule cdiv_mono[OF bs])
  with cdiv_diff_skip[OF bs, of slots ?skip] show ?thesis
    using assms(6) by (auto simp: SlidingWindowSpec swa_max_admission_blocks_per_request_def)
next
  case (ChunkedLocalAttentionSpec bs cs)
  let ?skip = "processed div cs * cs"
  have bs: "0 < bs" and cs: "0 < cs" "bs dvd cs" using assms(1,7) ChunkedLocalAttentionSpec by auto
  have dvd: "bs dvd ?skip" using cs(2) by simp
  then obtain k where k: "?skip = k * bs" by (metis dvd_def mult.commute)
  have "processed < ?skip + cs"
    using cs(1) by (smt (verit) pos_mod_bound div_mult_mod_eq)
  moreover have "0 \<le> ?skip" using assms(2) cs(1) by (simp add: pos_imp_zdiv_nonneg_iff)
  ultimately have le: "slots - ?skip \<le> min (cs + in_flight) max_len" using assms(3-5) by linarith
  have "slots \<le> (cdiv (min (cs + in_flight) max_len) bs + k) * bs"
    using cdiv_upper[OF bs, of "min (cs + in_flight) max_len"] le
    unfolding k distrib_right by linarith
  then have "cdiv slots bs \<le> cdiv (min (cs + in_flight) max_len) bs + k"
    using cdiv_le_iff[OF bs] by blast
  moreover have "?skip div bs = k" using k bs by simp
  ultimately show ?thesis
    using assms(6) by (auto simp: ChunkedLocalAttentionSpec chunked_max_admission_blocks_per_request_def)
qed (use assms(6) in simp_all)

theorem held_blocks_within_cap_witness:
  "cdiv 40 4 - get_num_skipped_tokens (SlidingWindowSpec 4 8) 36 div 4 \<le> 4 \<and>
   max_admission_blocks_per_request (SlidingWindowSpec 4 8) 4 100 = Some 4"
proof -
  have "max_admission_blocks_per_request (SlidingWindowSpec 4 8) 4 100 = Some 4"
    by (simp add: swa_max_admission_blocks_per_request_def cdiv_def)
  then show ?thesis
    using held_blocks_within_cap[of "SlidingWindowSpec 4 8" 36 40 100 4 4] by simp
qed

end
