(* ===== verification/Cache_Lookup.thy ===== *)
theory Cache_Lookup
  imports Prefix_Cache KV_Spec
begin

text \<open>
  The class methods of \<^verbatim>\<open>src/vllm/v1/core/single_type_kv_cache_manager.py\<close> that look prefixes up in the
  block pool: \<^verbatim>\<open>find_longest_cache_hit\<close> of the full-attention, sliding-window, chunked-local and Mamba
  managers, and \<^verbatim>\<open>reachable_block_mask\<close>, which says what blocks a later lookup can use.

  The tuple of computed blocks is a list with one list of blocks for each group.  Lookups do not change the
  pool.  Prefill context parallelism is always 1 in the callers and left out.
\<close>

section \<open>Loops over hashes\<close>

text \<open>\<open>if cached_block := ...\<close>: neither \<open>None\<close> nor the empty list counts.\<close>

definition truthy :: "'a list option \<Rightarrow> 'a list option" where
  "truthy r = (case r of Some [] \<Rightarrow> None | _ \<Rightarrow> r)"

text \<open>\<open>for computed, cached in zip(...)\<close> with \<open>append\<close> and with \<open>computed[i] = cached\<close>.\<close>

fun append_each :: "'a list list \<Rightarrow> 'a list \<Rightarrow> 'a list list" where
  "append_each (c # cs) (b # bs) = (c @ [b]) # append_each cs bs"
| "append_each cs _ = cs"

fun set_each :: "nat \<Rightarrow> 'a list list \<Rightarrow> 'a list \<Rightarrow> 'a list list" where
  "set_each i (c # cs) (b # bs) = c[i := b] # set_each i cs bs"
| "set_each i cs _ = cs"

text \<open>Append the cached blocks of the hashes until one misses.\<close>

fun append_while_cached ::
  "bytes result list \<Rightarrow> int list \<Rightarrow> block_pool \<Rightarrow> block_ref list list \<Rightarrow> block_ref list list result" where
  "append_while_cached [] gids p computed = Inr computed"
| "append_while_cached (h # hs) gids p computed =
     rbind h (\<lambda>block_hash.
     rbind (get_cached_block block_hash gids p) (\<lambda>r.
       case truthy r of
         None \<Rightarrow> Inr computed
       | Some cached \<Rightarrow> append_while_cached hs gids p (append_each computed cached)))"

text \<open>The first of some positions, in the order given, that is cached and accepted.\<close>

fun first_cached ::
  "(int \<Rightarrow> bytes result) \<Rightarrow> int list \<Rightarrow> block_pool \<Rightarrow> (int \<Rightarrow> bool) \<Rightarrow> int list \<Rightarrow> (int \<times> block_ref list) option result" where
  "first_cached hash_at gids p ok [] = Inr None"
| "first_cached hash_at gids p ok (i # is) =
     rbind (hash_at i) (\<lambda>block_hash.
     rbind (get_cached_block block_hash gids p) (\<lambda>r.
       case truthy r of
         None \<Rightarrow> first_cached hash_at gids p ok is
       | Some cached \<Rightarrow> if ok i then Inr (Some (i, cached)) else first_cached hash_at gids p ok is))"

text \<open>\<open>itertools.islice\<close>, which refuses a negative stop.\<close>

definition islice_hashes :: "block_hash_list \<Rightarrow> int \<Rightarrow> bytes list result" where
  "islice_hashes v stop =
     (if stop < 0 then Inl ValueError else rbind (view_iter v) (\<lambda>hs. Inr (take (nat stop) hs)))"

section \<open>Full attention\<close>

definition fine_grained_lookup :: "int \<Rightarrow> int \<Rightarrow> bool" where
  "fine_grained_lookup alignment_tokens block_size \<longleftrightarrow>
     alignment_tokens < block_size \<and> block_size mod alignment_tokens = 0"

definition raw_sequence :: "block_hash_list \<Rightarrow> bytes list result" where
  "raw_sequence v = (case v of Raw_hashes hs \<Rightarrow> Inr hs | Hash_view _ _ \<Rightarrow> Inl AssertionError)"

text \<open>Phase 2: the interior hash boundaries of the first block that is not full.\<close>

definition full_partial_tail ::
  "bytes list \<Rightarrow> int \<Rightarrow> int list \<Rightarrow> block_pool \<Rightarrow> int \<Rightarrow> int \<Rightarrow> block_ref list list \<Rightarrow> int \<Rightarrow> (block_ref list list \<times> int) result" where
  "full_partial_tail hs max_length gids p alignment_tokens block_size computed hit_length =
     (let scale_factor = block_size div alignment_tokens;
          first_partial_idx = int (length (computed ! 0)) * scale_factor;
          max_partial_idx = min (min (first_partial_idx + scale_factor - 1) (max_length div alignment_tokens)) (int (length hs))
      in rbind (first_cached (py_nth hs) gids p (\<lambda>_. True) (rev [first_partial_idx..max_partial_idx - 1])) (\<lambda>r.
           case r of
             None \<Rightarrow> Inr (computed, hit_length)
           | Some (fine_idx, cached) \<Rightarrow> Inr (append_each computed cached, (fine_idx + 1) * alignment_tokens)))"

text \<open>The eagle drop, the rounding to the alignment and the trimming at the end.\<close>

definition full_finish :: "bool \<Rightarrow> int \<Rightarrow> int \<Rightarrow> 'a list list \<Rightarrow> int \<Rightarrow> 'a list list \<times> int" where
  "full_finish drop_eagle_block alignment_tokens block_size computed hit_length =
     (let dropped = (if drop_eagle_block \<and> hit_length > 0 then hit_length - min alignment_tokens block_size else hit_length);
          aligned = dropped - dropped mod alignment_tokens
      in (map (\<lambda>c. py_take c (cdiv aligned block_size)) computed, aligned))"

definition full_find_longest_cache_hit ::
  "block_hash_list \<Rightarrow> int \<Rightarrow> int list \<Rightarrow> block_pool \<Rightarrow> kv_cache_spec \<Rightarrow> bool \<Rightarrow> int \<Rightarrow> int \<Rightarrow> (block_ref list list \<times> int) result" where
  "full_find_longest_cache_hit hashes max_length gids p spec drop_eagle_block alignment_tokens dcp_world_size =
     py_assert (is_full_attention spec \<or> is_chunked_local spec)
       (let block_size = (if dcp_world_size > 1 then spec_block_size spec * dcp_world_size else spec_block_size spec);
            fine = fine_grained_lookup alignment_tokens block_size
        in rbind (resolve_block_hashes hashes (hash_block_size p) block_size True (Some alignment_tokens)) (\<lambda>resolved.
           rbind (if fine then rbind (raw_sequence resolved) (\<lambda>hs. new_hash_view hs alignment_tokens block_size)
                  else Inr resolved) (\<lambda>full_block_hashes.
           rbind (islice_hashes full_block_hashes (max_length div block_size)) (\<lambda>full_hashes.
           rbind (append_while_cached (map Inr full_hashes) gids p (replicate (length gids) [])) (\<lambda>computed.
           rbind (py_nth computed 0) (\<lambda>first.
             let hit_length = int (length first) * block_size
             in rbind (if fine then rbind (raw_sequence resolved) (\<lambda>hs.
                         full_partial_tail hs max_length gids p alignment_tokens block_size computed hit_length)
                       else Inr (computed, hit_length)) (\<lambda>(computed', hit').
                  Inr (full_finish drop_eagle_block alignment_tokens block_size computed' hit'))))))))"

section \<open>Sliding window\<close>

definition contiguous_blocks_for_hit :: "int \<Rightarrow> int \<Rightarrow> bool \<Rightarrow> int" where
  "contiguous_blocks_for_hit window_size block_size use_eagle =
     cdiv (window_size - 1) block_size + (if use_eagle then 1 else 0)"

text \<open>The search from right to left; the last component is \<open>match_found\<close>.\<close>

fun swa_loop ::
  "block_hash_list \<Rightarrow> int list \<Rightarrow> block_pool \<Rightarrow> int \<Rightarrow> int \<Rightarrow> int \<Rightarrow> bool \<Rightarrow> int list \<Rightarrow> block_ref list list \<Rightarrow> int \<Rightarrow>
   (block_ref list list \<times> int \<times> bool) result" where
  "swa_loop v gids p need block_size alignment_tokens drop_eagle [] computed num_contiguous =
     Inr (computed, num_contiguous, False)"
| "swa_loop v gids p need block_size alignment_tokens drop_eagle (i # is) computed num_contiguous =
     rbind (view_get v i) (\<lambda>block_hash.
     rbind (get_cached_block block_hash gids p) (\<lambda>r.
       case truthy r of
         None \<Rightarrow> swa_loop v gids p need block_size alignment_tokens drop_eagle is computed 0
       | Some cached \<Rightarrow>
           if num_contiguous = 0 \<and> block_size \<noteq> alignment_tokens \<and>
              ((if drop_eagle then i else i + 1) * block_size) mod alignment_tokens \<noteq> 0
           then swa_loop v gids p need block_size alignment_tokens drop_eagle is computed num_contiguous
           else let computed' = set_each (nat i) computed cached
                in if num_contiguous + 1 \<ge> need
                   then Inr (map (\<lambda>c. py_take c (i + (num_contiguous + 1))) computed', num_contiguous + 1, True)
                   else swa_loop v gids p need block_size alignment_tokens drop_eagle is computed' (num_contiguous + 1)))"

text \<open>The loops that pop a block of each list until the length is aligned; popping an empty list raises.\<close>

function pop_until_aligned :: "int \<Rightarrow> int \<Rightarrow> 'a list list \<Rightarrow> 'a list list result" where
  "pop_until_aligned block_size alignment_tokens [] = Inl IndexError"
| "pop_until_aligned block_size alignment_tokens (c # cs) =
     (if block_size \<noteq> alignment_tokens \<and> int (length c) * block_size mod alignment_tokens \<noteq> 0
      then if [] \<in> set cs then Inl IndexError
           else pop_until_aligned block_size alignment_tokens (map butlast (c # cs))
      else Inr (c # cs))"
  by pat_completeness auto
termination
proof (relation "measure (\<lambda>(_, _, cs). length (hd cs))")
  fix block_size alignment_tokens :: int and c :: "'a list" and cs
  assume "block_size \<noteq> alignment_tokens \<and> int (length c) * block_size mod alignment_tokens \<noteq> 0"
  then have "c \<noteq> []" by auto
  then show "((block_size, alignment_tokens, map butlast (c # cs)), block_size, alignment_tokens, c # cs)
      \<in> measure (\<lambda>(_, _, cs). length (hd cs))" by simp
qed simp

definition swa_find_longest_cache_hit ::
  "block_hash_list \<Rightarrow> int \<Rightarrow> int list \<Rightarrow> block_pool \<Rightarrow> kv_cache_spec \<Rightarrow> bool \<Rightarrow> int \<Rightarrow> int \<Rightarrow> (block_ref list list \<times> int) result" where
  "swa_find_longest_cache_hit hashes max_length gids p spec drop_eagle_block alignment_tokens dcp_world_size =
     (case spec of
        SlidingWindowSpec block_size sliding_window \<Rightarrow>
          py_assert (dcp_world_size = 1) (py_assert (alignment_tokens mod block_size = 0)
            (rbind (resolve_block_hashes hashes (hash_block_size p) block_size False (Some alignment_tokens)) (\<lambda>v.
               let need = contiguous_blocks_for_hit sliding_window block_size drop_eagle_block;
                   max_num_blocks = max_length div block_size;
                   start = replicate (length gids) (replicate (nat max_num_blocks) (null_block p))
               in rbind (swa_loop v gids p need block_size alignment_tokens drop_eagle_block (rev [0..max_num_blocks - 1]) start 0)
                    (\<lambda>(computed, num_contiguous, match_found).
                  rbind (if match_found then Inr computed
                         else pop_until_aligned block_size alignment_tokens (map (\<lambda>c. py_take c num_contiguous) computed))
                    (\<lambda>matched.
                  rbind (py_nth matched 0) (\<lambda>first.
                  rbind (if drop_eagle_block \<and> first \<noteq> []
                         then if [] \<in> set matched then Inl IndexError
                              else pop_until_aligned block_size alignment_tokens (map butlast matched)
                         else Inr matched) (\<lambda>result.
                  rbind (py_nth result 0) (\<lambda>first'.
                    Inr (result, int (length first') * block_size)))))))))
      | _ \<Rightarrow> Inl AssertionError)"

section \<open>Chunked local attention\<close>

definition chunked_find_longest_cache_hit ::
  "block_hash_list \<Rightarrow> int \<Rightarrow> int list \<Rightarrow> block_pool \<Rightarrow> kv_cache_spec \<Rightarrow> bool \<Rightarrow> int \<Rightarrow> int \<Rightarrow> (block_ref list list \<times> int) result" where
  "chunked_find_longest_cache_hit hashes max_length gids p spec drop_eagle_block alignment_tokens dcp_world_size =
     (case spec of
        ChunkedLocalAttentionSpec block_size attention_chunk_size \<Rightarrow>
          py_assert (\<not> drop_eagle_block \<and> dcp_world_size = 1 \<and> block_size = alignment_tokens)
            (rbind (resolve_block_hashes hashes (hash_block_size p) block_size False (Some alignment_tokens)) (\<lambda>v.
               let max_num_blocks = max_length div block_size;
                   local_attention_start_idx =
                     (if max_length > 0 then max_length div attention_chunk_size * attention_chunk_size else 0);
                   local_attention_start_block_idx = local_attention_start_idx div block_size;
                   start = replicate (length gids) (replicate (nat local_attention_start_block_idx) (null_block p))
               in rbind (append_while_cached (map (view_get v) [local_attention_start_block_idx..max_num_blocks - 1]) gids p start) (\<lambda>computed.
                  rbind (py_nth computed 0) (\<lambda>first.
                    Inr (computed, int (length first) * block_size)))))
      | _ \<Rightarrow> Inl AssertionError)"

section \<open>Mamba\<close>

text \<open>\<open>computed.extend([null] * n)\<close> and \<open>computed.append(cached)\<close> on the empty lists.\<close>

definition null_padded :: "block_pool \<Rightarrow> int \<Rightarrow> block_ref list list \<Rightarrow> block_ref list \<Rightarrow> block_ref list list" where
  "null_padded p n computed cached =
     map2 (\<lambda>c b. c @ replicate (nat n) (null_block p) @ [b]) computed cached @ drop (length cached) computed"

definition mamba_find_longest_cache_hit ::
  "block_hash_list \<Rightarrow> int \<Rightarrow> int list \<Rightarrow> block_pool \<Rightarrow> kv_cache_spec \<Rightarrow> bool \<Rightarrow> int \<Rightarrow> int \<Rightarrow> (block_ref list list \<times> int) result" where
  "mamba_find_longest_cache_hit hashes max_length gids p spec drop_eagle_block alignment_tokens dcp_world_size =
     py_assert (is_mamba spec \<and> dcp_world_size = 1)
       (let block_size = spec_block_size spec; none_found = replicate (length gids) []
        in rbind (resolve_block_hashes hashes (hash_block_size p) block_size True (Some alignment_tokens)) (\<lambda>v.
           if fine_grained_lookup alignment_tokens block_size
           then rbind (raw_sequence v) (\<lambda>hs.
                let scale_factor = block_size div alignment_tokens;
                    max_num_partial_units = min (max_length div alignment_tokens) (int (length hs))
                in rbind (first_cached (py_nth hs) gids p (\<lambda>_. True) (rev [0..max_num_partial_units - 1])) (\<lambda>r.
                     Inr (case r of
                            None \<Rightarrow> (none_found, 0)
                          | Some (fine_idx, cached) \<Rightarrow>
                              (null_padded p (fine_idx div scale_factor) none_found cached, (fine_idx + 1) * alignment_tokens))))
           else rbind (first_cached (view_get v) gids p
                         (\<lambda>i. \<not> (block_size \<noteq> alignment_tokens \<and> (i + 1) * block_size mod alignment_tokens \<noteq> 0))
                         (rev [0..max_length div block_size - 1])) (\<lambda>r.
                  Inr (case r of
                         None \<Rightarrow> (none_found, 0)
                       | Some (i, cached) \<Rightarrow> (null_padded p i none_found cached, (i + 1) * block_size)))))"

section \<open>The class method of a specification\<close>

text \<open>The manager class that the registry gives for a specification, by its lookup.\<close>

definition find_longest_cache_hit ::
  "block_hash_list \<Rightarrow> int \<Rightarrow> int list \<Rightarrow> block_pool \<Rightarrow> kv_cache_spec \<Rightarrow> bool \<Rightarrow> int \<Rightarrow> int \<Rightarrow> (block_ref list list \<times> int) result" where
  "find_longest_cache_hit hs max_length gids p spec drop_eagle_block alignment_tokens dcp_world_size =
     (case spec of
        SlidingWindowSpec _ _ \<Rightarrow> swa_find_longest_cache_hit hs max_length gids p spec drop_eagle_block alignment_tokens dcp_world_size
      | ChunkedLocalAttentionSpec _ _ \<Rightarrow> chunked_find_longest_cache_hit hs max_length gids p spec drop_eagle_block alignment_tokens dcp_world_size
      | MambaSpec _ _ _ \<Rightarrow> mamba_find_longest_cache_hit hs max_length gids p spec drop_eagle_block alignment_tokens dcp_world_size
      | CrossAttentionSpec _ \<Rightarrow> Inl NotImplementedError
      | EncoderOnlyAttentionSpec _ \<Rightarrow> Inl AssertionError
      | _ \<Rightarrow> full_find_longest_cache_hit hs max_length gids p spec drop_eagle_block alignment_tokens dcp_world_size)"

section \<open>Blocks that a later lookup can use\<close>

definition mark_range :: "int \<Rightarrow> int \<Rightarrow> int \<Rightarrow> bool list \<Rightarrow> bool list" where
  "mark_range start_block a b marks = fold (\<lambda>j m. m[nat (j - start_block) := True]) [a..b - 1] marks"

definition swa_mark_boundary ::
  "int \<Rightarrow> int \<Rightarrow> int \<Rightarrow> int \<Rightarrow> int \<Rightarrow> int \<Rightarrow> int \<Rightarrow> bool list \<Rightarrow> bool list" where
  "swa_mark_boundary start_block end_block alignment_tokens block_size need shift boundary_tokens marks =
     (let aligned = boundary_tokens div alignment_tokens * alignment_tokens;
          stop = aligned div block_size + shift
      in mark_range start_block (max start_block (stop - need)) (min end_block stop) marks)"

definition swa_reachable_block_mask ::
  "int \<Rightarrow> int \<Rightarrow> int option \<Rightarrow> kv_cache_spec \<Rightarrow> bool \<Rightarrow> int option \<Rightarrow> int list \<Rightarrow> bool list option result" where
  "swa_reachable_block_mask start_block end_block alignment spec use_eagle retention_interval reachable_boundaries =
     (case spec of
        SlidingWindowSpec block_size sliding_window \<Rightarrow>
          (case alignment of
             None \<Rightarrow> Inr None
           | Some alignment_tokens \<Rightarrow> py_assert (alignment_tokens mod block_size = 0)
               (let need = contiguous_blocks_for_hit sliding_window block_size use_eagle;
                    shift = (if use_eagle then 1 else 0);
                    blank = replicate (nat (end_block - start_block)) False;
                    segment_tokens = (case retention_interval of None \<Rightarrow> Some alignment_tokens
                                      | Some r \<Rightarrow> if r = 0 then None else Some r);
                    boundaries = (\<lambda>marks. if retention_interval = None then marks
                      else fold (swa_mark_boundary start_block end_block alignment_tokens block_size need shift) reachable_boundaries marks)
                in case segment_tokens of
                     None \<Rightarrow> Inr (Some (boundaries blank))
                   | Some seg \<Rightarrow>
                       (let per_segment = seg div block_size
                        in if need \<ge> per_segment then Inr None
                           else Inr (Some (boundaries (map (\<lambda>i. i \<ge> shift \<and> (i - shift) mod per_segment \<ge> per_segment - need)
                                                           [start_block..end_block - 1]))))))
      | _ \<Rightarrow> Inl AssertionError)"

definition mamba_mark_boundary :: "int \<Rightarrow> int \<Rightarrow> int \<Rightarrow> int \<Rightarrow> int \<Rightarrow> bool list \<Rightarrow> bool list" where
  "mamba_mark_boundary start_block end_block alignment_tokens block_size boundary_tokens marks =
     (let aligned = boundary_tokens div alignment_tokens * alignment_tokens;
          boundary_block = aligned div block_size - 1
      in if start_block \<le> boundary_block \<and> boundary_block < end_block
         then marks[nat (boundary_block - start_block) := True] else marks)"

definition mamba_reachable_block_mask ::
  "int \<Rightarrow> int \<Rightarrow> int option \<Rightarrow> kv_cache_spec \<Rightarrow> bool \<Rightarrow> int option \<Rightarrow> int list \<Rightarrow> bool list option result" where
  "mamba_reachable_block_mask start_block end_block alignment spec use_eagle retention_interval reachable_boundaries =
     (case (retention_interval, alignment) of
        (Some r, Some alignment_tokens) \<Rightarrow> py_assert (is_mamba spec)
          (let block_size = spec_block_size spec;
               blank = replicate (nat (end_block - start_block)) False;
               boundaries = fold (mamba_mark_boundary start_block end_block alignment_tokens block_size) reachable_boundaries
           in if r = 0 then Inr (Some (boundaries blank))
              else (let per_segment = r div block_size
                    in if per_segment \<le> 1 then Inr None
                       else (let first_boundary = (start_block + per_segment) div per_segment * per_segment - 1;
                                 first = first_boundary - start_block
                             in Inr (Some (boundaries
                                  (fold (\<lambda>i m. m[nat i := True])
                                     (filter (\<lambda>i. (i - first) mod per_segment = 0) [first..int (length blank) - 1]) blank))))))
      | _ \<Rightarrow> Inr None)"

definition reachable_block_mask ::
  "int \<Rightarrow> int \<Rightarrow> int option \<Rightarrow> kv_cache_spec \<Rightarrow> bool \<Rightarrow> int option \<Rightarrow> int list \<Rightarrow> bool list option result" where
  "reachable_block_mask start_block end_block alignment spec use_eagle retention_interval reachable_boundaries =
     (case spec of
        SlidingWindowSpec _ _ \<Rightarrow> swa_reachable_block_mask start_block end_block alignment spec use_eagle retention_interval reachable_boundaries
      | MambaSpec _ _ _ \<Rightarrow> mamba_reachable_block_mask start_block end_block alignment spec use_eagle retention_interval reachable_boundaries
      | _ \<Rightarrow> Inr None)"


section \<open>What the loops find\<close>

text \<open>A pool whose index is consistent, looked up for group ids that fit a key.\<close>

definition lookup_ok :: "block_pool \<Rightarrow> int list \<Rightarrow> bool" where
  "lookup_ok p gids \<longleftrightarrow> index_ok p \<and> gids \<noteq> [] \<and> (\<forall>g\<in>set gids. 0 \<le> g \<and> g < 2 ^ 32)"

definition cached_for :: "block_pool \<Rightarrow> int list \<Rightarrow> bytes \<Rightarrow> bool" where
  "cached_for p gids h \<longleftrightarrow> (\<forall>g\<in>set gids. \<exists>b. holds_key p h g b)"

lemma get_cached_cases:
  assumes "lookup_ok p gids"
  obtains (hit) r bs where "get_cached_block h gids p = Inr r" "truthy r = Some bs" "list_all2 (holds_key p h) gids bs" "cached_for p gids h"
  | (miss) r where "get_cached_block h gids p = Inr r" "truthy r = None" "\<not> cached_for p gids h"
proof -
  have ok: "index_ok p" "\<forall>g\<in>set gids. 0 \<le> g \<and> g < 2 ^ 32" "gids \<noteq> []"
    using assms by (auto simp: lookup_ok_def)
  from get_cached_block_spec[OF ok(1,2), of h] show ?thesis
  proof (elim disjE exE conjE)
    fix bs assume bs: "get_cached_block h gids p = Inr (Some bs)" "list_all2 (holds_key p h) gids bs"
    then have "bs \<noteq> []" using ok(3) by auto
    moreover have "cached_for p gids h"
      using bs(2) unfolding cached_for_def by (force simp: list_all2_conv_all_nth in_set_conv_nth)
    ultimately show ?thesis
      using bs by (intro hit[of "Some bs" bs]) (auto simp: truthy_def split: list.splits)
  next
    assume "get_cached_block h gids p = Inr None" "\<exists>g\<in>set gids. \<forall>b. \<not> holds_key p h g b"
    then show ?thesis
      by (intro miss[of None]) (auto simp: truthy_def cached_for_def)
  qed
qed

text \<open>Rows of blocks that hold given hashes for the groups.\<close>

definition rows_hold :: "block_pool \<Rightarrow> int list \<Rightarrow> (nat \<Rightarrow> bytes) \<Rightarrow> nat set \<Rightarrow> block_ref list list \<Rightarrow> bool" where
  "rows_hold p gids h J rows \<longleftrightarrow> length rows = length gids \<and>
     (\<forall>g < length gids. \<forall>j\<in>J. j < length (rows ! g) \<and> holds_key p (h j) (gids ! g) (rows ! g ! j))"

definition rows_len :: "nat \<Rightarrow> nat \<Rightarrow> 'a list list \<Rightarrow> bool" where
  "rows_len n k rows \<longleftrightarrow> length rows = n \<and> (\<forall>r\<in>set rows. length r = k)"

lemma rows_lenI: "length rows = n \<Longrightarrow> (\<And>r. r \<in> set rows \<Longrightarrow> length r = k) \<Longrightarrow> rows_len n k rows"
  by (simp add: rows_len_def)

lemma rows_len_nth: "rows_len n k rows \<Longrightarrow> g < n \<Longrightarrow> length (rows ! g) = k"
  by (simp add: rows_len_def)

lemma rows_len_replicate [simp]: "rows_len n k (replicate n (replicate k x))" "rows_len n 0 (replicate n [])"
  by (auto simp: rows_len_def)

lemma append_each_length [simp]: "length (append_each cs bs) = length cs"
  by (induction cs bs rule: append_each.induct) auto

lemma append_each_nth: "length bs = length cs \<Longrightarrow> g < length cs \<Longrightarrow> append_each cs bs ! g = cs ! g @ [bs ! g]"
  by (induction cs bs arbitrary: g rule: append_each.induct) (auto simp: nth_Cons split: nat.splits)

lemma set_each_length [simp]: "length (set_each i cs bs) = length cs"
  by (induction i cs bs rule: set_each.induct) auto

lemma set_each_nth: "length bs = length cs \<Longrightarrow> g < length cs \<Longrightarrow> set_each i cs bs ! g = (cs ! g)[i := bs ! g]"
  by (induction i cs bs arbitrary: g rule: set_each.induct) (auto simp: nth_Cons split: nat.splits)

lemma rows_len_append_each: "rows_len n k cs \<Longrightarrow> length bs = n \<Longrightarrow> rows_len n (Suc k) (append_each cs bs)"
  by (auto simp: rows_len_def in_set_conv_nth[of _ "append_each cs bs"] append_each_nth)

lemma rows_len_set_each: "rows_len n k cs \<Longrightarrow> length bs = n \<Longrightarrow> rows_len n k (set_each i cs bs)"
  by (auto simp: rows_len_def in_set_conv_nth[of _ "set_each i cs bs"] set_each_nth)

lemma rows_hold_append_each:
  assumes "rows_hold p gids h J cs" and "rows_len (length gids) k cs" and "list_all2 (holds_key p (h k)) gids bs" and "J \<subseteq> {..<k}"
  shows "rows_hold p gids h (insert k J) (append_each cs bs)"
  using assms unfolding rows_hold_def
  by (auto simp: append_each_nth rows_len_nth nth_append list_all2_conv_all_nth subset_iff)

lemma rows_hold_set_each:
  assumes "rows_hold p gids h J cs" and "rows_len (length gids) n cs" and "list_all2 (holds_key p (h k)) gids bs" and "k < n"
  shows "rows_hold p gids h (insert k J) (set_each k cs bs)"
  using assms unfolding rows_hold_def
  by (auto simp: set_each_nth rows_len_nth nth_list_update list_all2_conv_all_nth)

text \<open>
  \<open>append_while_cached\<close> adds a row entry for each hash up to the first miss.  The rows start with \<open>a\<close>
  entries, and \<open>h (a + j)\<close> is the \<open>j\<close>th hash.
\<close>

lemma append_while_cached_spec:
  assumes lo: "lookup_ok p gids"
  shows "(\<And>j. j < length hs \<Longrightarrow> hs ! j = Inr (h (a + j))) \<Longrightarrow> rows_len (length gids) a acc \<Longrightarrow>
    rows_hold p gids h J acc \<Longrightarrow> J \<subseteq> {..<a} \<Longrightarrow>
    \<exists>rows k. append_while_cached hs gids p acc = Inr rows \<and> k \<le> length hs \<and> rows_len (length gids) (a + k) rows \<and>
      rows_hold p gids h (J \<union> {a..<a + k}) rows \<and> (\<forall>g < length gids. take a (rows ! g) = acc ! g) \<and>
      (\<forall>j < k. cached_for p gids (h (a + j))) \<and> (k < length hs \<longrightarrow> \<not> cached_for p gids (h (a + k)))"
proof (induction hs arbitrary: a acc J)
  case Nil
  then show ?case
    by (intro exI[of _ acc] exI[of _ 0]) (auto simp: rows_len_def)
next
  case (Cons x hs)
  have x: "x = Inr (h a)" using Cons.prems(1)[of 0] by simp
  show ?case
  proof (cases rule: get_cached_cases[OF lo, of "h a", case_names hit miss])
    case (hit r bs)
    have len: "length bs = length gids" using hit(3) by (simp add: list_all2_lengthD)
    have "\<exists>rows k. append_while_cached hs gids p (append_each acc bs) = Inr rows \<and> k \<le> length hs \<and>
      rows_len (length gids) (Suc a + k) rows \<and> rows_hold p gids h (insert a J \<union> {Suc a..<Suc a + k}) rows \<and>
      (\<forall>g < length gids. take (Suc a) (rows ! g) = append_each acc bs ! g) \<and>
      (\<forall>j < k. cached_for p gids (h (Suc a + j))) \<and> (k < length hs \<longrightarrow> \<not> cached_for p gids (h (Suc a + k)))"
    proof (rule Cons.IH)
      show "hs ! j = Inr (h (Suc a + j))" if "j < length hs" for j
        using Cons.prems(1)[of "Suc j"] that by simp
    qed (use Cons.prems(4) rows_len_append_each[OF Cons.prems(2) len] rows_hold_append_each[OF Cons.prems(3,2) hit(3) Cons.prems(4)] in auto)
    then obtain rows k where r: "append_while_cached hs gids p (append_each acc bs) = Inr rows" "k \<le> length hs"
      "rows_len (length gids) (Suc a + k) rows" "rows_hold p gids h (insert a J \<union> {Suc a..<Suc a + k}) rows"
      "\<forall>g < length gids. take (Suc a) (rows ! g) = append_each acc bs ! g"
      "\<forall>j < k. cached_for p gids (h (Suc a + j))" "k < length hs \<longrightarrow> \<not> cached_for p gids (h (Suc a + k))"
      by blast
    have step: "append_while_cached (x # hs) gids p acc = Inr rows"
      using x hit(1,2) r(1) by simp
    have set: "insert a J \<union> {Suc a..<Suc a + k} = J \<union> {a..<a + Suc k}" by auto
    have cached: "\<forall>j < Suc k. cached_for p gids (h (a + j))"
      using hit(4) r(6) by (auto simp: less_Suc_eq_0_disj)
    have "take a (rows ! g) = acc ! g" if "g < length gids" for g
    proof -
      have "take a (rows ! g) = take a (take (Suc a) (rows ! g))" by simp
      also have "\<dots> = take a (acc ! g @ [bs ! g])"
        using r(5) that len Cons.prems(2) by (simp add: append_each_nth rows_len_def)
      also have "\<dots> = acc ! g" using Cons.prems(2) that by (simp add: rows_len_nth)
      finally show ?thesis .
    qed
    then show ?thesis
      using step r(2,3,4,7) cached unfolding set by (intro exI[of _ rows] exI[of _ "Suc k"]) simp
  next
    case (miss r)
    then have "append_while_cached (x # hs) gids p acc = Inr acc" using x by simp
    then show ?thesis
      using miss(3) Cons.prems by (intro exI[of _ acc] exI[of _ 0]) (auto simp: rows_len_def)
  qed
qed

text \<open>\<open>first_cached\<close> gives the first accepted position that is cached.\<close>

lemma first_cached_spec:
  assumes lo: "lookup_ok p gids" and "\<forall>i\<in>set is. hash_at i = Inr (h i)"
  shows "(first_cached hash_at gids p ok is = Inr None \<and> (\<forall>i\<in>set is. ok i \<longrightarrow> \<not> cached_for p gids (h i))) \<or>
    (\<exists>pre i post bs. is = pre @ i # post \<and> first_cached hash_at gids p ok is = Inr (Some (i, bs)) \<and> ok i \<and>
       cached_for p gids (h i) \<and> list_all2 (holds_key p (h i)) gids bs \<and> (\<forall>j\<in>set pre. ok j \<longrightarrow> \<not> cached_for p gids (h j)))"
  using assms(2)
proof (induction "is")
  case Nil
  then show ?case by simp
next
  case (Cons i "is")
  have i: "hash_at i = Inr (h i)" using Cons.prems by simp
  have skip: ?case if eq: "first_cached hash_at gids p ok (i # is) = first_cached hash_at gids p ok is"
    and no: "ok i \<longrightarrow> \<not> cached_for p gids (h i)"
    using Cons.IH[OF Cons.prems[unfolded list.set ball_simps, THEN conjunct2]]
  proof (elim disjE exE conjE)
    fix pre k post bs
    assume "is = pre @ k # post" "first_cached hash_at gids p ok is = Inr (Some (k, bs))" "ok k" "cached_for p gids (h k)"
      "list_all2 (holds_key p (h k)) gids bs" "\<forall>j\<in>set pre. ok j \<longrightarrow> \<not> cached_for p gids (h j)"
    then show ?thesis
      using eq no by (intro disjI2 exI[of _ "i # pre"] exI[of _ k] exI[of _ post] exI[of _ bs]) auto
  qed (use eq no in auto)
  show ?case
  proof (cases rule: get_cached_cases[OF lo, of "h i", case_names hit miss])
    case (hit r bs)
    show ?thesis
    proof (cases "ok i")
      case True
      then show ?thesis
        using i hit by (intro disjI2 exI[of _ "[]"] exI[of _ i] exI[of _ "is"] exI[of _ bs]) auto
    qed (use i hit skip in auto)
  qed (use i skip in auto)
qed

lemma first_cached_down:
  fixes a b :: int
  assumes lo: "lookup_ok p gids" and hash: "\<forall>i. a \<le> i \<and> i < b \<longrightarrow> hash_at i = Inr (h i)"
  shows "(first_cached hash_at gids p ok (rev [a..b - 1]) = Inr None \<and> (\<forall>i. a \<le> i \<and> i < b \<and> ok i \<longrightarrow> \<not> cached_for p gids (h i))) \<or>
    (\<exists>i bs. a \<le> i \<and> i < b \<and> first_cached hash_at gids p ok (rev [a..b - 1]) = Inr (Some (i, bs)) \<and> ok i \<and>
       cached_for p gids (h i) \<and> list_all2 (holds_key p (h i)) gids bs \<and>
       (\<forall>j. i < j \<and> j < b \<and> ok j \<longrightarrow> \<not> cached_for p gids (h j)))"
proof -
  have "\<forall>i\<in>set (rev [a..b - 1]). hash_at i = Inr (h i)" using hash by simp
  from first_cached_spec[OF lo this, of ok] show ?thesis
  proof (elim disjE exE conjE)
    fix pre i post bs
    assume split: "rev [a..b - 1] = pre @ i # post" and r: "first_cached hash_at gids p ok (rev [a..b - 1]) = Inr (Some (i, bs))" "ok i"
      "cached_for p gids (h i)" "list_all2 (holds_key p (h i)) gids bs" and pre: "\<forall>j\<in>set pre. ok j \<longrightarrow> \<not> cached_for p gids (h j)"
    have all: "[a..b - 1] = rev post @ i # rev pre" using arg_cong[OF split, of rev] by simp
    have "i \<in> set [a..b - 1]" unfolding all by simp
    then have range: "a \<le> i" "i < b" by simp_all
    have "sorted [a..b - 1]" by (simp add: sorted_upto)
    then have below: "\<forall>x\<in>set (rev post). x \<le> i" unfolding all by (simp add: sorted_append)
    have "j \<in> set pre" if "i < j" "j < b" for j
    proof -
      have "j \<in> set [a..b - 1]" using that range by simp
      then have "j \<in> set post \<or> j = i \<or> j \<in> set pre" unfolding all by auto
      then show ?thesis using below that by auto
    qed
    then show ?thesis using range r pre by blast
  next
    assume "first_cached hash_at gids p ok (rev [a..b - 1]) = Inr None"
      "\<forall>i\<in>set (rev [a..b - 1]). ok i \<longrightarrow> \<not> cached_for p gids (h i)"
    then show ?thesis by (intro disjI1) auto
  qed
qed


section \<open>The longest hit of full attention\<close>

text \<open>The hash of the prefix of \<open>t\<close> tokens, and that it is cached for all groups.\<close>

definition boundary_hash :: "block_pool \<Rightarrow> bytes list \<Rightarrow> int \<Rightarrow> bytes" where
  "boundary_hash p hs t = hs ! (nat (t div hash_block_size p) - 1)"

definition cached_to :: "block_pool \<Rightarrow> int list \<Rightarrow> bytes list \<Rightarrow> int \<Rightarrow> bool" where
  "cached_to p gids hs t \<longleftrightarrow> 0 < t \<and> hash_block_size p dvd t \<and> t div hash_block_size p \<le> int (length hs) \<and>
     cached_for p gids (boundary_hash p hs t)"

text \<open>
  The prefix of \<open>t\<close> tokens is covered: each full block of it is cached, and the partial block at its end.
\<close>

definition prefix_cached :: "block_pool \<Rightarrow> int list \<Rightarrow> bytes list \<Rightarrow> int \<Rightarrow> int \<Rightarrow> bool" where
  "prefix_cached p gids hs block_size t \<longleftrightarrow>
     (\<forall>j. 0 < j \<and> j * block_size \<le> t \<longrightarrow> cached_to p gids hs (j * block_size)) \<and>
     (\<not> block_size dvd t \<longrightarrow> cached_to p gids hs t)"

definition is_longest :: "(int \<Rightarrow> bool) \<Rightarrow> int \<Rightarrow> int \<Rightarrow> int \<Rightarrow> bool" where
  "is_longest P max_length step m \<longleftrightarrow> 0 \<le> m \<and> m \<le> max_length \<and> step dvd m \<and> P m \<and>
     (\<forall>t. 0 \<le> t \<and> t \<le> max_length \<and> step dvd t \<and> P t \<longrightarrow> t \<le> m)"

lemma is_longest_max: "is_longest P n step m \<Longrightarrow> 0 \<le> n \<Longrightarrow> step dvd n \<Longrightarrow> P n \<Longrightarrow> m = n"
  by (auto simp: is_longest_def intro: antisym)

lemma full_view:
  assumes "0 < k"
  shows "view_iter (if k = 1 then Raw_hashes hs else Hash_view hs (int k)) =
    Inr (map (\<lambda>i. hs ! (Suc i * k - 1)) [0..<length hs div k])"
proof (cases "k = 1")
  case True
  then show ?thesis by (simp add: view_iter_def map_nth)
next
  case False
  then show ?thesis using view_iter_eq[OF assms, of hs] by simp
qed

lemma full_hashes:
  assumes bs: "bs = hash_block_size p * int k" and k: "0 < k" and hbs: "0 < hash_block_size p"
    and fine: "fine_grained_lookup al bs \<Longrightarrow> al = hash_block_size p"
  obtains resolved full where
    "resolve_block_hashes (Raw_hashes hs) (hash_block_size p) bs True (Some al) = Inr resolved"
    "(if fine_grained_lookup al bs then rbind (raw_sequence resolved) (\<lambda>hs. new_hash_view hs al bs) else Inr resolved) = Inr full"
    "\<And>n. 0 \<le> n \<Longrightarrow> islice_hashes full n = Inr (map (\<lambda>j. boundary_hash p hs (int (Suc j) * bs)) [0..<min (nat n) (length hs div k)])"
    "fine_grained_lookup al bs \<Longrightarrow> raw_sequence resolved = Inr hs"
proof -
  let ?full = "if k = 1 then Raw_hashes hs else Hash_view hs (int k)"
  let ?resolved = "if fine_grained_lookup al bs then Raw_hashes hs else ?full"
  have eq: "bs = hash_block_size p \<longleftrightarrow> k = 1" using bs hbs by auto
  have fine1: "k \<noteq> 1" if "fine_grained_lookup al bs"
    using that fine[OF that] eq by (auto simp: fine_grained_lookup_def)
  have dk: "bs div hash_block_size p = int k" "bs mod hash_block_size p = 0" using bs hbs by simp_all
  have a: "resolve_block_hashes (Raw_hashes hs) (hash_block_size p) bs True (Some al) = Inr ?resolved"
    using fine1 dk unfolding resolve_block_hashes_def eq
    by (auto simp: fine_grained_lookup_def new_hash_view_def)
  have b: "(if fine_grained_lookup al bs then rbind (raw_sequence ?resolved) (\<lambda>hs. new_hash_view hs al bs) else Inr ?resolved) = Inr ?full"
    using fine fine1 dk by (auto simp: raw_sequence_def new_hash_view_def)
  have h: "boundary_hash p hs (int (Suc j) * bs) = hs ! (Suc j * k - 1)" for j
  proof -
    have "int (Suc j) * bs div hash_block_size p = int (Suc j * k)"
      using hbs by (simp add: bs distrib_right)
    then show ?thesis by (simp only: boundary_hash_def nat_int)
  qed
  have c: "islice_hashes ?full n = Inr (map (\<lambda>j. boundary_hash p hs (int (Suc j) * bs)) [0..<min (nat n) (length hs div k)])"
    if "0 \<le> n" for n
    unfolding h islice_hashes_def full_view[OF k] using that
    by (cases "nat n \<le> length hs div k") (simp_all add: take_map take_upt min_def)
  show thesis
    by (rule that[OF a b c]) (simp_all add: raw_sequence_def)
qed

text \<open>No covered prefix reaches past the first full block that misses.\<close>

lemma covered_below_miss:
  assumes bs: "bs = hash_block_size p * int k" and k: "0 < k" and hbs: "0 < hash_block_size p"
    and miss: "kk < min (nat (max_length div bs)) (length hs div k) \<Longrightarrow>
      \<not> cached_for p gids (boundary_hash p hs (int (Suc kk) * bs))"
    and t: "prefix_cached p gids hs bs t" "t \<le> max_length"
  shows "t < int (Suc kk) * bs"
proof (rule ccontr)
  assume "\<not> ?thesis"
  then have ge: "int (Suc kk) * bs \<le> t" by simp
  have bs0: "0 < bs" using bs k hbs by simp
  have c: "cached_to p gids hs (int (Suc kk) * bs)"
    using t(1) ge unfolding prefix_cached_def by (metis of_nat_0_less_iff zero_less_Suc)
  have "int (Suc kk) * bs div hash_block_size p = int (Suc kk * k)"
    using hbs by (simp add: bs distrib_right)
  then have "int (Suc kk * k) \<le> int (length hs)" using c by (simp add: cached_to_def)
  then have "Suc kk \<le> length hs div k" using k by (simp only: of_nat_le_iff less_eq_div_iff_mult_less_eq)
  moreover have "int (Suc kk) \<le> max_length div bs"
    using ge t(2) le_div_iff_int[OF bs0] by fastforce
  ultimately have "kk < min (nat (max_length div bs)) (length hs div k)" by linarith
  with miss c show False by (simp add: cached_to_def)
qed

lemma prefix_cached_full:
  assumes bs: "bs = hash_block_size p * int k" and k: "0 < k" and hbs: "0 < hash_block_size p"
    and kk: "kk \<le> length hs div k" and c: "\<forall>j<kk. cached_for p gids (boundary_hash p hs (int (Suc j) * bs))"
    and j: "0 < j" "j \<le> int kk"
  shows "cached_to p gids hs (j * bs)"
proof -
  obtain i where i: "j = int (Suc i)" "i < kk" using j by (metis Suc_le_eq Suc_pred' int_nat_eq less_eq_int_code(1) of_nat_le_iff order_less_imp_le zero_less_nat_eq pos_int_cases)
  have "j * bs div hash_block_size p = int (Suc i * k)"
    using hbs i by (simp add: bs distrib_right)
  moreover have "Suc i * k \<le> length hs"
    using i(2) kk k by (meson Suc_leI dual_order.trans less_eq_div_iff_mult_less_eq)
  moreover have "0 < j * bs" using bs k hbs j(1) by simp
  moreover have "hash_block_size p dvd j * bs" by (simp add: bs)
  ultimately show ?thesis
    using c i by (simp only: cached_to_def of_nat_le_iff simp_thms)
qed


lemma full_prefix_longest:
  assumes bs: "bs = hash_block_size p * int k" and k: "0 < k" and hbs: "0 < hash_block_size p"
    and kk: "kk \<le> min (nat (max_length div bs)) (length hs div k)"
    and c: "\<forall>j<kk. cached_for p gids (boundary_hash p hs (int (Suc j) * bs))"
    and miss: "kk < min (nat (max_length div bs)) (length hs div k) \<Longrightarrow>
      \<not> cached_for p gids (boundary_hash p hs (int (Suc kk) * bs))"
    and m: "int kk * bs \<le> m" "m < int (Suc kk) * bs" "m \<le> max_length" "step dvd m" "bs dvd m \<or> cached_to p gids hs m"
    and above: "\<And>t. m < t \<Longrightarrow> t < int (Suc kk) * bs \<Longrightarrow> t \<le> max_length \<Longrightarrow> step dvd t \<Longrightarrow> bs dvd t \<or> cached_to p gids hs t \<Longrightarrow> False"
  shows "is_longest (prefix_cached p gids hs bs) max_length step m"
proof -
  have bs0: "0 < bs" using bs k hbs by simp
  have "j \<le> int kk" if "j * bs \<le> m" for j
  proof -
    have "j * bs < int (Suc kk) * bs" using that m(2) by linarith
    then have "j < int (Suc kk)" using bs0 by (simp only: mult_less_cancel_right)
    then show ?thesis by simp
  qed
  then have "prefix_cached p gids hs bs m"
    using m(5) prefix_cached_full[OF bs k hbs _ c] kk unfolding prefix_cached_def by (meson min.boundedE)
  moreover have "t \<le> m" if "t \<le> max_length" "step dvd t" "prefix_cached p gids hs bs t" for t
    using above[of t] covered_below_miss[OF bs k hbs miss that(3,1)] that unfolding prefix_cached_def by (meson not_le)
  moreover have "0 \<le> m" using m(1) bs0 by (meson mult_nonneg_nonneg of_nat_0_le_iff order_less_imp_le order_trans)
  ultimately show ?thesis using m(3,4) by (simp add: is_longest_def)
qed

lemma between_not_dvd:
  fixes bs t :: int
  assumes "0 < bs" and "n * bs < t" and "t < (n + 1) * bs"
  shows "\<not> bs dvd t"
proof
  assume "bs dvd t"
  then obtain q where "t = q * bs" by (metis dvd_def mult.commute)
  then have "n < q" "q < n + 1" using assms by (simp_all add: mult_less_cancel_right)
  then show False by simp
qed

lemma blocks_within:
  assumes "0 < bs" and "0 \<le> max_length" and "kk \<le> nat (max_length div bs)"
  shows "int kk * bs \<le> max_length"
proof -
  have "0 \<le> max_length div bs" using assms(1,2) by (simp add: pos_imp_zdiv_nonneg_iff)
  then have "int kk \<le> max_length div bs" using assms(3) by linarith
  then show ?thesis using le_div_iff_int[OF assms(1)] by blast
qed

text \<open>Phase 2, on rows with the blocks of the longest run of \<open>kk\<close> full blocks.\<close>

lemma full_partial_tail_spec:
  assumes lo: "lookup_ok p gids" and bs: "bs = hash_block_size p * int k" and k: "1 < k" and hbs: "0 < hash_block_size p"
    and max: "0 \<le> max_length" and kk: "kk \<le> min (nat (max_length div bs)) (length hs div k)"
    and c: "\<forall>j<kk. cached_for p gids (boundary_hash p hs (int (Suc j) * bs))"
    and miss: "kk < min (nat (max_length div bs)) (length hs div k) \<Longrightarrow>
      \<not> cached_for p gids (boundary_hash p hs (int (Suc kk) * bs))"
    and rows: "rows_len (length gids) kk rows" "rows_hold p gids (\<lambda>j. boundary_hash p hs (int (Suc j) * bs)) {..<kk} rows"
  shows "\<exists>rows' m. full_partial_tail hs max_length gids p (hash_block_size p) bs rows (int kk * bs) = Inr (rows', m) \<and>
    is_longest (prefix_cached p gids hs bs) max_length (hash_block_size p) m \<and> rows_len (length gids) (nat (cdiv m bs)) rows' \<and>
    rows_hold p gids (\<lambda>j. boundary_hash p hs (min (int (Suc j) * bs) m)) {..<nat (cdiv m bs)} rows'"
proof -
  let ?al = "hash_block_size p" and ?first = "int kk * int k"
  let ?top = "min (min (?first + int k - 1) (max_length div ?al)) (int (length hs))"
  let ?h = "\<lambda>i::int. boundary_hash p hs ((i + 1) * ?al)"
  have bs0: "0 < bs" using bs k hbs by simp
  have k0: "0 < k" using k by simp
  have scale: "bs div ?al = int k" using bs hbs by simp
  have len: "length (rows ! 0) = kk" using rows(1) lo by (simp add: rows_len_def lookup_ok_def)
  have hash: "py_nth hs i = Inr (?h i)" if "?first \<le> i" "i < ?top" for i
  proof -
    have "0 \<le> ?first" by simp
    then have i0: "0 \<le> i" using that(1) by linarith
    have "(i + 1) * ?al div ?al = i + 1" using hbs by simp
    then have "nat ((i + 1) * ?al div ?al) - 1 = nat i" using i0 by (simp only: nat_add_distrib)
    then show ?thesis using i0 that(2) by (simp only: py_nth_def boundary_hash_def) auto
  qed
  have kkmax: "int kk * bs \<le> max_length"
    using kk by (intro blocks_within[OF bs0 max]) simp
  have fb: "?first * ?al = int kk * bs" "(?first + int k) * ?al = int (Suc kk) * bs" by (simp_all add: bs algebra_simps)
  have below: "i + 1 < ?first + int k" if "i < ?top" for i using that by linarith
  have inside: "\<exists>i. t = (i + 1) * ?al \<and> ?first \<le> i \<and> i < ?top"
    if t: "int kk * bs < t" "t < int (Suc kk) * bs" "t \<le> max_length" "?al dvd t" "cached_to p gids hs t" for t
  proof -
    obtain q where q: "t = q * ?al" using t(4) by (metis dvd_def mult.commute)
    have 1: "?first < q" "q < ?first + int k"
      using t(1,2) unfolding q fb[symmetric] using hbs by (simp_all add: mult_less_cancel_right)
    have 2: "q \<le> max_length div ?al" using t(3) le_div_iff_int[OF hbs] q by blast
    have 3: "q \<le> int (length hs)" using t(5) hbs unfolding q cached_to_def by simp
    show ?thesis using 1 2 3 q by (intro exI[of _ "q - 1"]) auto
  qed
  have ct: "cached_to p gids hs ((i + 1) * ?al) \<longleftrightarrow> cached_for p gids (?h i)" if "?first \<le> i" "i < ?top" for i
  proof -
    have "0 \<le> ?first" by simp
    then have "0 < i + 1" using that(1) by linarith
    then have "0 < (i + 1) * ?al" using hbs by simp
    moreover have "(i + 1) * ?al div ?al \<le> int (length hs)" using hbs that(2) by simp
    ultimately show ?thesis by (simp add: cached_to_def)
  qed
  have call: "full_partial_tail hs max_length gids p ?al bs rows (int kk * bs) =
      rbind (first_cached (py_nth hs) gids p (\<lambda>_. True) (rev [?first..?top - 1])) (\<lambda>r.
        case r of None \<Rightarrow> Inr (rows, int kk * bs) | Some (fine_idx, cached) \<Rightarrow> Inr (append_each rows cached, (fine_idx + 1) * ?al))"
    unfolding full_partial_tail_def Let_def scale len by (rule refl)
  have "\<forall>i. ?first \<le> i \<and> i < ?top \<longrightarrow> py_nth hs i = Inr (?h i)" using hash by blast
  from first_cached_down[OF lo this, of "\<lambda>_. True"] show ?thesis
  proof (elim disjE exE conjE)
    assume none: "first_cached (py_nth hs) gids p (\<lambda>_. True) (rev [?first..?top - 1]) = Inr None"
      and all: "\<forall>i. ?first \<le> i \<and> i < ?top \<and> True \<longrightarrow> \<not> cached_for p gids (?h i)"
    have "is_longest (prefix_cached p gids hs bs) max_length ?al (int kk * bs)"
    proof (rule full_prefix_longest[OF bs k0 hbs kk c miss])
      show False if t: "int kk * bs < t" "t < int (Suc kk) * bs" "t \<le> max_length" "?al dvd t" "bs dvd t \<or> cached_to p gids hs t" for t
      proof -
        have "\<not> bs dvd t" using between_not_dvd[OF bs0 t(1)] t(2) by (simp add: add.commute)
        with t(5) have ctt: "cached_to p gids hs t" by simp
        from inside[OF t(1-4) ctt] obtain i where i: "t = (i + 1) * ?al" "?first \<le> i" "i < ?top" by blast
        then show False using all ct[OF i(2,3)] ctt by blast
      qed
    qed (use kkmax bs0 in \<open>simp_all add: distrib_right, simp add: bs\<close>)
    moreover have "rows_hold p gids (\<lambda>j. boundary_hash p hs (min (int (Suc j) * bs) (int kk * bs))) {..<kk} rows"
      using rows(2) bs0 unfolding rows_hold_def by (simp add: min_def mult_le_cancel_right)
    ultimately show ?thesis
      using none call rows(1) bs0 by (intro exI[of _ rows] exI[of _ "int kk * bs"]) simp
  next
    fix i cached
    assume i: "?first \<le> i" "i < ?top" and some: "first_cached (py_nth hs) gids p (\<lambda>_. True) (rev [?first..?top - 1]) = Inr (Some (i, cached))"
      and hit: "cached_for p gids (?h i)" "list_all2 (holds_key p (?h i)) gids cached"
      and all: "\<forall>j. i < j \<and> j < ?top \<and> True \<longrightarrow> \<not> cached_for p gids (?h j)"
    let ?m = "(i + 1) * ?al"
    have m: "int kk * bs < ?m" "?m < int (Suc kk) * bs"
      using i(1) below[OF i(2)] hbs unfolding fb[symmetric] by (simp_all add: mult_less_cancel_right)
    have mmax: "?m \<le> max_length" using i(2) le_div_iff_int[OF hbs, of "i + 1" max_length] by linarith
    have "is_longest (prefix_cached p gids hs bs) max_length ?al ?m"
    proof (rule full_prefix_longest[OF bs k0 hbs kk c miss])
      show False if t: "?m < t" "t < int (Suc kk) * bs" "t \<le> max_length" "?al dvd t" "bs dvd t \<or> cached_to p gids hs t" for t
      proof -
        have t1: "int kk * bs < t" using m(1) t(1) by linarith
        have "\<not> bs dvd t" using between_not_dvd[OF bs0 t1] t(2) by (simp add: add.commute)
        with t(5) have ctt: "cached_to p gids hs t" by simp
        from inside[OF t1 t(2-4) ctt] obtain j where j: "t = (j + 1) * ?al" "?first \<le> j" "j < ?top" by blast
        have "i < j" using t(1) hbs unfolding j(1) by (simp add: mult_less_cancel_right)
        then show False using all ct[OF j(2,3)] ctt j by blast
      qed
    qed (use m mmax ct[OF i] hit(1) in auto)
    moreover have "nat (cdiv ?m bs) = Suc kk"
      using less_cdiv_iff[OF bs0, of "int kk" ?m] cdiv_le_iff[OF bs0, of ?m "int (Suc kk)"] m by linarith
    moreover have "rows_hold p gids (\<lambda>j. boundary_hash p hs (min (int (Suc j) * bs) ?m)) (insert kk {..<kk}) (append_each rows cached)"
    proof (rule rows_hold_append_each[OF _ rows(1)])
      have "min (int (Suc j) * bs) ?m = int (Suc j) * bs" if "j < kk" for j
      proof -
        have "int (Suc j) * bs \<le> int kk * bs" using that bs0 by (simp add: mult_le_cancel_right)
        then show ?thesis using m(1) by simp
      qed
      then show "rows_hold p gids (\<lambda>j. boundary_hash p hs (min (int (Suc j) * bs) ?m)) {..<kk} rows"
        using rows(2) unfolding rows_hold_def by simp
      show "list_all2 (holds_key p (boundary_hash p hs (min (int (Suc kk) * bs) ?m))) gids cached"
        using hit(2) m(2) by (simp add: min_def)
    qed simp
    moreover have "insert kk {..<kk} = {..<Suc kk}" by auto
    ultimately show ?thesis
      using some call rows_len_append_each[OF rows(1), of cached] hit(2)
      by (intro exI[of _ "append_each rows cached"] exI[of _ ?m]) (simp add: list_all2_lengthD)
  qed
qed


lemma full_finish_rows:
  assumes "rows_len n (nat (cdiv m bs)) rows" and "rows_hold p gids h {..<nat (cdiv m bs)} rows"
    and "full_finish eagle al bs rows m = (rows', l)" and "0 < bs" and "0 < al" and "0 \<le> m" and "eagle \<and> 0 < m \<longrightarrow> min al bs \<le> m"
  shows "l = round_down (if eagle \<and> 0 < m then m - min al bs else m) al \<and> 0 \<le> l \<and> l \<le> m \<and>
    rows_len n (nat (cdiv l bs)) rows' \<and> rows_hold p gids h {..<nat (cdiv l bs)} rows'"
proof -
  let ?d = "if eagle \<and> m > 0 then m - min al bs else m"
  have l: "l = round_down ?d al" and rows': "rows' = map (\<lambda>c. py_take c (cdiv l bs)) rows"
    using assms(3) by (auto simp: full_finish_def Let_def round_down_def minus_mod_eq_div_mult)
  have d: "0 \<le> ?d" "?d \<le> m" using assms(4-7) by (auto simp: min_def)
  have le: "l \<le> m" using round_down_le[OF assms(5), of ?d] d(2) unfolding l by linarith
  have l0: "0 \<le> l" using d(1) assms(5) unfolding l round_down_def by (simp add: pos_imp_zdiv_nonneg_iff)
  have c: "0 \<le> cdiv l bs" "cdiv l bs \<le> cdiv m bs"
    using cdiv_nonneg[OF assms(4) l0] cdiv_mono[OF assms(4) le] by simp_all
  have "py_take r (cdiv l bs) = take (nat (cdiv l bs)) r" if "r \<in> set rows" for r
    using that assms(1) c by (simp add: py_take_def slice_bound_def rows_len_def)
  then have rows'': "rows' = map (take (nat (cdiv l bs))) rows" unfolding rows' by simp
  have "rows_len n (nat (cdiv l bs)) rows'"
    using assms(1) c unfolding rows'' by (auto simp: rows_len_def)
  moreover have "rows_hold p gids h {..<nat (cdiv l bs)} rows'"
    using assms(1,2) c unfolding rows'' by (auto simp: rows_hold_def rows_len_def)
  ultimately show ?thesis using l l0 le by blast
qed

lemma full_hit:
  assumes lo: "lookup_ok p gids" and spec: "is_full_attention spec"
    and bs: "bs = (if dcp > 1 then spec_block_size spec * dcp else spec_block_size spec)"
    and bs0: "0 < bs" and hbs: "0 < hash_block_size p" "hash_block_size p dvd bs" and al: "0 < al"
    and fine: "al < bs \<and> bs mod al = 0 \<longrightarrow> al = hash_block_size p" and coarse: "\<not> (al < bs \<and> bs mod al = 0) \<longrightarrow> bs dvd al"
    and max: "0 \<le> max_length"
  shows "\<exists>rows l m. full_find_longest_cache_hit (Raw_hashes hs) max_length gids p spec eagle al dcp = Inr (rows, l) \<and>
    is_longest (prefix_cached p gids hs bs) max_length (min al bs) m \<and>
    l = round_down (if eagle \<and> 0 < m then m - min al bs else m) al \<and> 0 \<le> l \<and> l \<le> m \<and>
    rows_len (length gids) (nat (cdiv l bs)) rows \<and>
    rows_hold p gids (\<lambda>j. boundary_hash p hs (min (int (Suc j) * bs) m)) {..<nat (cdiv l bs)} rows"
proof -
  obtain k where k: "bs = hash_block_size p * int k" "0 < k"
    using hbs bs0 by (metis dvd_def int_nat_eq mult_less_0_iff not_less zero_less_mult_pos zero_less_nat_eq zero_le_mult_iff order_less_le)
  let ?h = "\<lambda>j. boundary_hash p hs (int (Suc j) * bs)" and ?n = "min (nat (max_length div bs)) (length hs div k)"
  let ?fine = "fine_grained_lookup al bs"
  obtain resolved full where res: "resolve_block_hashes (Raw_hashes hs) (hash_block_size p) bs True (Some al) = Inr resolved"
    "(if ?fine then rbind (raw_sequence resolved) (\<lambda>hs. new_hash_view hs al bs) else Inr resolved) = Inr full"
    "islice_hashes full (max_length div bs) = Inr (map ?h [0..<?n])" "?fine \<Longrightarrow> raw_sequence resolved = Inr hs"
    using full_hashes[OF k hbs(1), of al hs] fine max bs0
    by (metis fine_grained_lookup_def pos_imp_zdiv_nonneg_iff)
  obtain rows kk where r: "append_while_cached (map Inr (map ?h [0..<?n])) gids p (replicate (length gids) []) = Inr rows"
    "kk \<le> ?n" "rows_len (length gids) kk rows" "rows_hold p gids ?h {..<kk} rows"
    "\<forall>j<kk. cached_for p gids (?h j)" "kk < ?n \<longrightarrow> \<not> cached_for p gids (?h kk)"
    using append_while_cached_spec[OF lo, of "map Inr (map ?h [0..<?n])" ?h 0 "replicate (length gids) []" "{}"]
    by (auto simp: rows_hold_def lessThan_atLeast0)
  have first: "py_nth rows 0 = Inr (rows ! 0)" "length (rows ! 0) = kk"
    using r(3) lo by (simp_all add: rows_len_def lookup_ok_def py_nth_def)
  obtain rows' m where m: "(if ?fine then rbind (raw_sequence resolved) (\<lambda>hs.
        full_partial_tail hs max_length gids p al bs rows (int kk * bs)) else Inr (rows, int kk * bs)) = Inr (rows', m)"
    "is_longest (prefix_cached p gids hs bs) max_length (min al bs) m" "rows_len (length gids) (nat (cdiv m bs)) rows'"
    "rows_hold p gids (\<lambda>j. boundary_hash p hs (min (int (Suc j) * bs) m)) {..<nat (cdiv m bs)} rows'"
  proof (cases ?fine)
    case True
    then have al_eq: "al = hash_block_size p" "al < bs" using fine by (simp_all add: fine_grained_lookup_def)
    then have "1 < k" using k hbs by (cases "k = 1") auto
    from full_partial_tail_spec[OF lo k(1) this hbs(1) max r(2,5) _ r(3,4)] r(6) res(4)[OF True] al_eq that show ?thesis
      using True by (auto simp: min_def)
  next
    case False
    then have dv: "bs dvd al" using coarse by (simp add: fine_grained_lookup_def)
    then have step: "min al bs = bs" using al by (simp add: min_absorb2 zdvd_imp_le)
    have kkmax: "int kk * bs \<le> max_length"
      using r(2) by (intro blocks_within[OF bs0 max]) simp
    have "is_longest (prefix_cached p gids hs bs) max_length bs (int kk * bs)"
      by (rule full_prefix_longest[OF k hbs(1) r(2,5)])
        (use r(6) kkmax bs0 between_not_dvd[OF bs0, of "int kk"] in \<open>auto simp: add.commute\<close>)
    moreover have "rows_hold p gids (\<lambda>j. boundary_hash p hs (min (int (Suc j) * bs) (int kk * bs))) {..<kk} rows"
      using r(4) bs0 unfolding rows_hold_def by (simp add: min_def mult_le_cancel_right)
    ultimately show ?thesis
      using that[of rows "int kk * bs"] False r(3) bs0 step by simp
  qed
  obtain rows'' l where fin: "full_finish eagle al bs rows' m = (rows'', l)" by (cases "full_finish eagle al bs rows' m")
  have m0: "0 \<le> m" "min al bs dvd m" using m(2) by (simp_all add: is_longest_def)
  then have "eagle \<and> 0 < m \<longrightarrow> min al bs \<le> m" by (simp add: zdvd_imp_le)
  note result = full_finish_rows[OF m(3,4) fin bs0 al m0(1) this]
  have "full_find_longest_cache_hit (Raw_hashes hs) max_length gids p spec eagle al dcp = Inr (rows'', l)"
    unfolding full_find_longest_cache_hit_def Let_def bs[symmetric] using spec res(1-3) r(1) first(1) m(1)[folded first(2)] fin
    by (simp split del: if_split)
  then show ?thesis using m(2) result by blast
qed

text \<open>
  C28: Full attention finds the longest cached prefix.  Let \<open>m\<close> be the greatest length within \<open>max_length\<close>,
  in steps of the smaller of block size and alignment, for which all full blocks and the partial block at the
  end are cached for all groups.  The lookup returns \<open>m\<close>, less one step when a block is dropped for EAGLE,
  rounded down to the alignment, with for each group just the blocks that cover this length, each of them
  registered under the hash of the prefix up to its end (for the last one, up to \<open>m\<close>).
\<close>

theorem full_hit_longest:
  assumes lo: "lookup_ok p gids" and spec: "is_full_attention spec"
    and bs: "bs = (if dcp > 1 then spec_block_size spec * dcp else spec_block_size spec)"
    and bs0: "0 < bs" and hbs: "0 < hash_block_size p" "hash_block_size p dvd bs" and al: "0 < al"
    and fine: "al < bs \<and> bs mod al = 0 \<longrightarrow> al = hash_block_size p" and coarse: "\<not> (al < bs \<and> bs mod al = 0) \<longrightarrow> bs dvd al"
    and max: "0 \<le> max_length"
  shows "\<exists>rows l m. full_find_longest_cache_hit (Raw_hashes hs) max_length gids p spec eagle al dcp = Inr (rows, l) \<and>
    is_longest (prefix_cached p gids hs bs) max_length (min al bs) m \<and>
    l = round_down (if eagle \<and> 0 < m then m - min al bs else m) al \<and> 0 \<le> l \<and> l \<le> m \<and>
    rows_len (length gids) (nat (cdiv l bs)) rows \<and>
    rows_hold p gids (\<lambda>j. boundary_hash p hs (min (int (Suc j) * bs) m)) {..<nat (cdiv l bs)} rows"
  by (rule full_hit[OF assms])


text \<open>A pool that holds the two full blocks of a request of five tokens.\<close>

lemma sample_cached:
  obtains p where "lookup_ok p [0]" and "hash_block_size p = 2" and "null_block p = Block 0"
    and "\<forall>t\<in>{2, 4}. cached_to p [0] (block_hashes (sample_hashed 0 [1, 2, 3, 4, 5])) t"
proof -
  let ?r = "sample_hashed 0 [1, 2, 3, 4, 5]"
  obtain p1 p where s: "pool_inv [Block 3] p1" "num_gpu_blocks p1 = 4" "hash_block_size p1 = 2"
    "cache_full_blocks id ?r [Block 1, Block 2] 0 2 2 0 None p1 = Inr (?r, p)"
    by (rule sample_run)
  have bs: "set [Block 1, Block 2] \<subseteq> set (all_blocks p1)" using s(2) by (auto simp: all_blocks_def)
  have "(0::int) \<le> 0" and "distinct (filter (\<lambda>b. b \<noteq> Block 0) (py_slice [Block 1, Block 2] 0 2))"
    by (simp_all add: py_slice_nonneg)
  note spec = cache_full_blocks_spec[OF s(4,1) bs this]
  note inv = conjunct1[OF spec] and alloc = conjunct1[OF conjunct2[OF spec]]
  have holds: "holds_key p (block_hashes ?r ! i) 0 ([Block 1, Block 2] ! i)" if "i < 2" for i
    using cache_full_holds[OF s(4,1) bs, of i] s(3) pool_invD(3)[OF s(1)] that
    by (auto simp: py_slice_nonneg last_hash_block_def masked_out_def nth_Cons less_2_cases_iff simp del: sample_hashed_simps)
  have hb: "hash_block_size p = 2" using alloc s(3) by (simp add: same_alloc_def)
  have "cached_to p [0] (block_hashes ?r) 2" "cached_to p [0] (block_hashes ?r) 4"
    using holds[of 0] holds[of 1] hb
    by (auto simp: cached_to_def boundary_hash_def cached_for_def simp del: sample_hashed_simps)
  then show thesis
    using that[of p] pool_invD(2,3)[OF inv] hb by (simp add: lookup_ok_def del: sample_hashed_simps)
qed

theorem full_hit_longest_witness:
  "\<exists>p rows. full_find_longest_cache_hit (Raw_hashes (block_hashes (sample_hashed 0 [1, 2, 3, 4, 5]))) 4 [0] p
     (FullAttentionSpec 2) False 2 1 = Inr (rows, 4) \<and> rows_len 1 2 rows"
proof -
  let ?hs = "block_hashes (sample_hashed 0 [1, 2, 3, 4, 5])"
  obtain p where p: "lookup_ok p [0]" "hash_block_size p = 2" "\<forall>t\<in>{2, 4}. cached_to p [0] ?hs t"
    by (rule sample_cached)
  obtain rows l m where r: "full_find_longest_cache_hit (Raw_hashes ?hs) 4 [0] p (FullAttentionSpec 2) False 2 1 = Inr (rows, l)"
    "is_longest (prefix_cached p [0] ?hs 2) 4 2 m" "l = round_down m 2" "rows_len 1 (nat (cdiv l 2)) rows"
    using full_hit_longest[OF p(1), of "FullAttentionSpec 2" 2 1 2 4 ?hs False] p(2) by (auto simp del: sample_hashed_simps)
  have "prefix_cached p [0] ?hs 2 4"
  proof -
    have "cached_to p [0] ?hs (j * 2)" if "0 < j" "j * 2 \<le> 4" for j
    proof -
      have "j * 2 = 2 \<or> j * 2 = 4" using that by auto
      then show ?thesis using p(3) by (metis insert_iff)
    qed
    then show ?thesis by (simp add: prefix_cached_def del: sample_hashed_simps)
  qed
  then have "m = 4" using is_longest_max[OF r(2)] by simp
  then show ?thesis using r by (auto simp: round_down_def cdiv_def simp del: sample_hashed_simps)
qed

end
