(* ===== verification/Dict.thy ===== *)
theory Dict
  imports Prelude
begin

text \<open>
  Python dictionaries as association lists in insertion order, for the places where the number of keys
  matters.  \<open>map_of\<close> reads; the updates agree with updates of the map.
\<close>

definition dict_put :: "'k \<Rightarrow> 'v \<Rightarrow> ('k \<times> 'v) list \<Rightarrow> ('k \<times> 'v) list" where
  "dict_put k v d = (if k \<in> fst ` set d then map (\<lambda>(k', v'). if k' = k then (k, v) else (k', v')) d else d @ [(k, v)])"

definition dict_del :: "'k \<Rightarrow> ('k \<times> 'v) list \<Rightarrow> ('k \<times> 'v) list" where
  "dict_del k d = filter (\<lambda>(k', v). k' \<noteq> k) d"

text \<open>Reading a missing key of a \<^verbatim>\<open>defaultdict\<close> inserts the default.\<close>

definition dict_setdefault :: "'k \<Rightarrow> 'v \<Rightarrow> ('k \<times> 'v) list \<Rightarrow> ('k \<times> 'v) list" where
  "dict_setdefault k v d = (if k \<in> fst ` set d then d else d @ [(k, v)])"

definition dict_get :: "'v \<Rightarrow> 'k \<Rightarrow> ('k \<times> 'v) list \<Rightarrow> 'v" where
  "dict_get dflt k d = (case map_of d k of None \<Rightarrow> dflt | Some v \<Rightarrow> v)"

definition dict_wf :: "('k \<times> 'v) list \<Rightarrow> bool" where
  "dict_wf d \<longleftrightarrow> distinct (map fst d)"

lemma map_of_dict_set [simp]: "map_of (dict_put k v d) = (map_of d)(k \<mapsto> v)"
proof (cases "k \<in> fst ` set d")
  case True
  then have "map_of (map (\<lambda>(k', v'). if k' = k then (k, v) else (k', v')) d) = (map_of d)(k \<mapsto> v)"
  proof (induction d)
    case (Cons e d)
    obtain a b where e: "e = (a, b)" by (cases e)
    show ?case
    proof (cases "k \<in> fst ` set d")
      case True
      then show ?thesis using Cons.IH by (auto simp: e)
    next
      case False
      then have "map (\<lambda>(k', v'). if k' = k then (k, v) else (k', v')) d = d"
        by (intro map_idI) force
      then show ?thesis using Cons.prems False by (auto simp: e)
    qed
  qed simp
  then show ?thesis using True by (simp add: dict_put_def)
next
  case False
  then have "k \<notin> dom (map_of d)" by (simp add: dom_map_of_conv_image_fst)
  then show ?thesis using False by (auto simp: dict_put_def map_add_def split: option.splits)
qed

lemma map_of_dict_pop [simp]: "map_of (dict_del k d) = (map_of d)(k := None)"
  by (induction d) (auto simp: dict_del_def)

lemma map_of_dict_setdefault [simp]:
  "map_of (dict_setdefault k v d) = (map_of d)(k := Some (dict_get v k d))"
proof (cases "k \<in> fst ` set d")
  case True
  then obtain w where "map_of d k = Some w" by (metis map_of_eq_None_iff not_None_eq)
  then show ?thesis using True by (auto simp: dict_setdefault_def dict_get_def)
next
  case False
  then have "map_of d k = None" by (simp add: map_of_eq_None_iff)
  then show ?thesis using False by (auto simp: dict_setdefault_def dict_get_def map_add_def split: option.splits)
qed

lemma dict_get_set [simp]: "dict_get dflt k' (dict_put k v d) = (if k' = k then v else dict_get dflt k' d)"
  by (simp add: dict_get_def)

lemma dict_get_pop [simp]: "dict_get dflt k' (dict_del k d) = (if k' = k then dflt else dict_get dflt k' d)"
  by (simp add: dict_get_def)

lemma dict_get_setdefault [simp]: "dict_get dflt k' (dict_setdefault k dflt d) = dict_get dflt k' d"
  by (simp add: dict_get_def)

lemma dict_wf_set [simp]: "dict_wf d \<Longrightarrow> dict_wf (dict_put k v d)"
proof -
  have "map fst (map (\<lambda>(k', v'). if k' = k then (k, v) else (k', v')) d) = map fst d" by auto
  then show "dict_wf d \<Longrightarrow> dict_wf (dict_put k v d)"
    unfolding dict_wf_def dict_put_def by (auto simp del: map_map)
qed

lemma dict_wf_pop [simp]: "dict_wf d \<Longrightarrow> dict_wf (dict_del k d)"
  unfolding dict_wf_def dict_del_def by (simp add: distinct_map_filter)

lemma dict_wf_setdefault [simp]: "dict_wf d \<Longrightarrow> dict_wf (dict_setdefault k v d)"
  unfolding dict_wf_def dict_setdefault_def by auto

lemma dict_wf_Nil [simp]: "dict_wf []"
  by (simp add: dict_wf_def)

section \<open>Sums over a dictionary\<close>

definition dict_sum :: "('v \<Rightarrow> nat) \<Rightarrow> ('k \<times> 'v) list \<Rightarrow> nat" where
  "dict_sum f d = sum_list (map (\<lambda>(k, v). f v) d)"

lemma dict_sum_Nil [simp]: "dict_sum f [] = 0"
  by (simp add: dict_sum_def)

lemma dict_sum_pop: "dict_wf d \<Longrightarrow> f dflt = 0 \<Longrightarrow> dict_sum f (dict_del k d) + f (dict_get dflt k d) = dict_sum f d"
proof (induction d)
  case (Cons e d)
  obtain a b where e: "e = (a, b)" by (cases e)
  show ?case
  proof (cases "a = k")
    case True
    have "k \<notin> fst ` set d" using Cons.prems(1) True by (auto simp: dict_wf_def e)
    then have "dict_del k d = d" unfolding dict_del_def by (intro filter_True) force
    then show ?thesis using True by (simp add: e dict_del_def dict_sum_def dict_get_def)
  next
    case False
    then show ?thesis using Cons by (simp add: e dict_del_def dict_sum_def dict_get_def dict_wf_def)
  qed
qed (simp add: dict_del_def dict_get_def)

lemma dict_sum_set: "dict_wf d \<Longrightarrow> f dflt = 0 \<Longrightarrow> dict_sum f (dict_put k v d) + f (dict_get dflt k d) = dict_sum f d + f v"
proof -
  assume wf: "dict_wf d" and dflt: "f dflt = 0"
  have pop: "dict_del k (dict_put k v d) = dict_del k d"
    unfolding dict_put_def dict_del_def by (auto simp: filter_map o_def split_def intro!: arg_cong2[where f = map] filter_cong map_idI)
  have "dict_sum f (dict_del k (dict_put k v d)) + f (dict_get dflt k (dict_put k v d)) = dict_sum f (dict_put k v d)"
    using wf dflt by (intro dict_sum_pop) simp_all
  then show ?thesis using dict_sum_pop[of d f dflt k] wf dflt pop by simp
qed

lemma dict_sum_setdefault [simp]: "f dflt = 0 \<Longrightarrow> dict_sum f (dict_setdefault k dflt d) = dict_sum f d"
  by (simp add: dict_setdefault_def dict_sum_def)

end
