(* ===== verification/Single_Type_Manager.thy ===== *)
theory Single_Type_Manager
  imports Cache_Lookup Dict
begin

text \<open>
  The stateful part of \<^verbatim>\<open>src/vllm/v1/core/single_type_kv_cache_manager.py\<close>: \<^verbatim>\<open>SingleTypeKVCacheManager\<close> and
  its subclasses.  A manager and the block pool it shares with the others are passed and returned; the method
  a subclass overrides is selected by the specification.  The attributes that only the Mamba manager has
  are fields of every manager.
\<close>

section \<open>State\<close>

record kv_manager =
  mspec :: kv_cache_spec
  mblock_size :: int
  scheduler_block_size :: int
  m_enable_caching :: bool
  kv_cache_group_id :: int
  max_admission_blocks :: "int option"
  record_new_block_ids :: bool
  new_block_ids :: "int list"
  req_to_blocks :: "(string \<times> block_ref list) list"
  num_cached_block :: "(string \<times> int) list"
  use_eagle :: bool
  partial_hit_reqs :: "(string \<times> (int \<times> block_ref)) list"
  pending_cow_copies :: "(block_ref \<times> block_ref) list"
  pending_partial_tail_offloads :: "(string \<times> int \<times> block_ref \<times> int) list"
  cached_blocks_this_step :: "bytes list"
  last_state_block_idx :: "(string \<times> int) list"
  allocated_block_reqs :: "string list"
  producer_partial_tail_reqs :: "(string \<times> int) list"

definition blocks_of :: "kv_manager \<Rightarrow> string \<Rightarrow> block_ref list" where
  "blocks_of m rid = dict_get [] rid (req_to_blocks m)"

definition set_blocks :: "string \<Rightarrow> block_ref list \<Rightarrow> kv_manager \<Rightarrow> kv_manager" where
  "set_blocks rid bs m = m\<lparr>req_to_blocks := dict_put rid bs (req_to_blocks m)\<rparr>"

definition has_key :: "string \<Rightarrow> (string \<times> 'v) list \<Rightarrow> bool" where
  "has_key rid d \<longleftrightarrow> map_of d rid \<noteq> None"

text \<open>
  \<^verbatim>\<open>__init__\<close> of the base class and, for Mamba, of the subclass.  Only the plain full-attention classes
  record new block ids.
\<close>

fun zeroed_spec :: "kv_cache_spec \<Rightarrow> bool" where
  "zeroed_spec (FullAttentionSpec _) = True"
| "zeroed_spec _ = False"

definition init_manager ::
  "kv_cache_spec \<Rightarrow> bool \<Rightarrow> int \<Rightarrow> int \<Rightarrow> int \<Rightarrow> bool \<Rightarrow> int option \<Rightarrow> kv_manager" where
  "init_manager spec caching group_id sched_block_size dcp_world_size needs_kv_cache_zeroing cap =
     \<lparr>mspec = spec,
      mblock_size = (if dcp_world_size > 1 \<and> \<not> is_mamba spec then spec_block_size spec * dcp_world_size
                     else spec_block_size spec),
      scheduler_block_size = sched_block_size, m_enable_caching = caching, kv_cache_group_id = group_id,
      max_admission_blocks = cap, record_new_block_ids = (needs_kv_cache_zeroing \<and> zeroed_spec spec),
      new_block_ids = [], req_to_blocks = [], num_cached_block = [], use_eagle = False, partial_hit_reqs = [],
      pending_cow_copies = [], pending_partial_tail_offloads = [], cached_blocks_this_step = [],
      last_state_block_idx = [], allocated_block_reqs = [], producer_partial_tail_reqs = []\<rparr>"

text \<open>
  \<^verbatim>\<open>SinkFullAttentionManager.__init__\<close> also takes the sink blocks off the free queue.  It has no parameter
  \<^verbatim>\<open>needs_kv_cache_zeroing\<close>.
\<close>

definition init_sink_manager ::
  "kv_cache_spec \<Rightarrow> block_pool \<Rightarrow> bool \<Rightarrow> int \<Rightarrow> int \<Rightarrow> int \<Rightarrow> (kv_manager \<times> block_ref list \<times> block_pool) result" where
  "init_sink_manager spec p caching group_id sched_block_size dcp_world_size =
     (let m = init_manager spec caching group_id sched_block_size dcp_world_size False None
      in case spec of
           SinkFullAttentionSpec _ (Some sink_len) \<Rightarrow>
             py_assert (sink_len > 0 \<and> sink_len mod mblock_size m = 0)
               (rbind (popleft_n (sink_len div mblock_size m) (free_block_queue p)) (\<lambda>(sink_blocks, q).
                  Inr (m, sink_blocks, p\<lparr>free_block_queue := q\<rparr>)))
         | _ \<Rightarrow> Inl AssertionError)"

text \<open>
  \<^verbatim>\<open>get_manager_for_kv_cache_spec\<close> with the keyword arguments the coordinator passes, among them
  \<^verbatim>\<open>needs_kv_cache_zeroing\<close>.
\<close>

definition get_manager_for_kv_cache_spec ::
  "kv_cache_spec \<Rightarrow> int \<Rightarrow> int \<Rightarrow> bool \<Rightarrow> int \<Rightarrow> int \<Rightarrow> int \<Rightarrow> bool \<Rightarrow> kv_manager result" where
  "get_manager_for_kv_cache_spec spec max_in_flight_tokens max_model_len caching group_id dcp_world_size sched_block_size needs_kv_cache_zeroing =
     (case spec of
        EncoderOnlyAttentionSpec _ \<Rightarrow> Inl AssertionError
      | SinkFullAttentionSpec _ _ \<Rightarrow> Inl TypeError
      | _ \<Rightarrow> Inr (init_manager spec caching group_id sched_block_size dcp_world_size needs_kv_cache_zeroing
                   (max_admission_blocks_per_request spec max_in_flight_tokens max_model_len)))"

section \<open>Blocks a request needs\<close>

definition get_num_evictable_blocks :: "block_ref list \<Rightarrow> block_pool \<Rightarrow> int" where
  "get_num_evictable_blocks bs p = int (length (filter (\<lambda>b. ref_cnt (blocks p b) = 0 \<and> \<not> is_null (blocks p b)) bs))"

definition has_partial_local_hit :: "kv_manager \<Rightarrow> block_ref list \<Rightarrow> int \<Rightarrow> bool" where
  "has_partial_local_hit m new_computed_blocks num_local_computed_tokens \<longleftrightarrow>
     length new_computed_blocks > 0 \<and> num_local_computed_tokens mod mblock_size m \<noteq> 0"

definition base_get_num_blocks_to_allocate ::
  "kv_manager \<Rightarrow> block_pool \<Rightarrow> string \<Rightarrow> int \<Rightarrow> block_ref list \<Rightarrow> int \<Rightarrow> int \<Rightarrow> bool \<Rightarrow> int result" where
  "base_get_num_blocks_to_allocate m p rid num_toks new_computed_blocks total_computed_tokens num_local_computed_tokens apply_admission_cap =
     (let required0 = cdiv num_toks (mblock_size m);
          num_required_blocks = (case max_admission_blocks m of
             Some cap \<Rightarrow> if apply_admission_cap then min required0 cap else required0 | None \<Rightarrow> required0);
          num_req_blocks = int (length (blocks_of m rid))
      in if has_key rid (num_cached_block m)
         then py_assert (length new_computed_blocks = 0) (Inr (max (num_required_blocks - num_req_blocks) 0))
         else (let num_skipped_tokens = get_num_skipped_tokens (mspec m) total_computed_tokens;
                   num_local_computed_blocks = int (length new_computed_blocks) + num_req_blocks;
                   num_skipped_blocks = num_skipped_tokens div mblock_size m;
                   num_new_blocks = max (num_required_blocks - max num_skipped_blocks num_local_computed_blocks) 0;
                   num_skipped_new_computed_blocks = max 0 (num_skipped_blocks - num_req_blocks);
                   num_evictable_blocks = get_num_evictable_blocks (py_drop new_computed_blocks num_skipped_new_computed_blocks) p
               in Inr (num_new_blocks + (if has_partial_local_hit m new_computed_blocks num_local_computed_tokens then 1 else 0) +
                       num_evictable_blocks)))"

text \<open>The Mamba override; in mode \<^verbatim>\<open>align\<close> it reads the block table with the default.\<close>

definition mamba_get_num_blocks_to_allocate ::
  "kv_manager \<Rightarrow> block_pool \<Rightarrow> string \<Rightarrow> int \<Rightarrow> block_ref list \<Rightarrow> int \<Rightarrow> int \<Rightarrow> int \<Rightarrow> bool \<Rightarrow> (int \<times> kv_manager) result" where
  "mamba_get_num_blocks_to_allocate m p rid num_toks new_computed_blocks total_computed_tokens num_local_computed_tokens
     num_tokens_main_model apply_admission_cap =
     (case mspec m of
        MambaSpec spec_bs mode num_speculative_blocks \<Rightarrow>
          if new_computed_blocks \<noteq> [] \<and>
             (case bhash (blocks p (last new_computed_blocks)) of None \<Rightarrow> False | Some key \<Rightarrow> key \<in> set (cached_blocks_this_step m))
          then Inr (num_gpu_blocks p + 1, m)
          else if mode \<noteq> ''align''
          then rbind (base_get_num_blocks_to_allocate m p rid
                        (if num_speculative_blocks > 0 then num_toks + spec_bs * num_speculative_blocks else num_toks)
                        new_computed_blocks total_computed_tokens num_local_computed_tokens apply_admission_cap)
                 (\<lambda>n. Inr (n, m))
          else (let num_required_blocks = cdiv num_tokens_main_model (mblock_size m) + num_speculative_blocks;
                    num_new0 = num_required_blocks - int (length new_computed_blocks) - int (length (blocks_of m rid));
                    has_partial_hit = has_partial_local_hit m new_computed_blocks num_local_computed_tokens \<or> has_key rid (partial_hit_reqs m);
                    num_new1 = (if has_partial_hit then max num_new0 0 + 1 else num_new0);
                    partial = (if has_partial_hit then 1 else 0);
                    num_new_blocks = (if num_new1 > 0
                                      then if rid \<in> set (allocated_block_reqs m) then 1 + partial
                                           else 1 + num_speculative_blocks + partial
                                      else num_new1)
                in Inr (num_new_blocks + get_num_evictable_blocks new_computed_blocks p,
                        m\<lparr>req_to_blocks := dict_setdefault rid [] (req_to_blocks m)\<rparr>))
      | _ \<Rightarrow> Inl AssertionError)"

definition get_num_blocks_to_allocate ::
  "kv_manager \<Rightarrow> block_pool \<Rightarrow> string \<Rightarrow> int \<Rightarrow> block_ref list \<Rightarrow> int \<Rightarrow> int \<Rightarrow> int \<Rightarrow> bool \<Rightarrow> (int \<times> kv_manager) result" where
  "get_num_blocks_to_allocate m p rid num_toks new_computed_blocks total_computed_tokens num_local_computed_tokens
     num_tokens_main_model apply_admission_cap =
     (if is_mamba (mspec m)
      then mamba_get_num_blocks_to_allocate m p rid num_toks new_computed_blocks total_computed_tokens num_local_computed_tokens
             num_tokens_main_model apply_admission_cap
      else rbind (base_get_num_blocks_to_allocate m p rid num_toks new_computed_blocks total_computed_tokens
                    num_local_computed_tokens apply_admission_cap) (\<lambda>n. Inr (n, m)))"

section \<open>Adding and allocating blocks\<close>

definition add_local_computed_blocks ::
  "string \<Rightarrow> block_ref list \<Rightarrow> int \<Rightarrow> int \<Rightarrow> kv_manager \<Rightarrow> block_pool \<Rightarrow> (kv_manager \<times> block_pool) result" where
  "add_local_computed_blocks rid new_computed_blocks num_local_computed_tokens num_external_computed_tokens m p =
     (if is_cross_attention (mspec m) then py_assert (length new_computed_blocks = 0) (Inr (m, p))
      else py_assert (length (blocks_of m rid) = 0)
        (let num_total_computed_tokens = num_local_computed_tokens + num_external_computed_tokens;
             num_skipped_blocks = get_num_skipped_tokens (mspec m) num_total_computed_tokens div mblock_size m;
             computed = (if num_skipped_blocks > 0 then py_drop new_computed_blocks num_skipped_blocks else new_computed_blocks)
         in rbind (if m_enable_caching m then touch computed p else py_assert (computed = []) (Inr p)) (\<lambda>p1.
              let bs = replicate (nat num_skipped_blocks) (null_block p) @ computed;
                  m1 = (set_blocks rid bs m)\<lparr>num_cached_block := dict_put rid (int (length bs)) (num_cached_block m)\<rparr>
              in if has_partial_local_hit m computed num_local_computed_tokens
                 then (let block_idx = num_local_computed_tokens div mblock_size m
                       in Inr (m1\<lparr>partial_hit_reqs := dict_put rid (block_idx, last computed) (partial_hit_reqs m),
                                  num_cached_block := dict_put rid block_idx (num_cached_block m)\<rparr>, p1))
                 else Inr (m1, p1))))"

definition allocate_external_computed_blocks ::
  "string \<Rightarrow> int \<Rightarrow> int \<Rightarrow> kv_manager \<Rightarrow> block_pool \<Rightarrow> (kv_manager \<times> block_pool) result" where
  "allocate_external_computed_blocks rid num_local_computed_tokens num_external_computed_tokens m p =
     (if is_cross_attention (mspec m) then Inr (m, p)
      else (let num_total_computed_tokens = num_local_computed_tokens + num_external_computed_tokens;
                num_skipped_tokens = get_num_skipped_tokens (mspec m) num_total_computed_tokens;
                external = (if num_skipped_tokens > 0
                            then min (num_total_computed_tokens - num_skipped_tokens) num_external_computed_tokens
                            else num_external_computed_tokens)
            in if external \<le> 0 then Inr (m, p)
               else rbind (get_new_blocks (cdiv num_total_computed_tokens (mblock_size m) - int (length (blocks_of m rid))) p)
                      (\<lambda>(allocated_blocks, p1).
                         Inr ((set_blocks rid (blocks_of m rid @ allocated_blocks) m)
                                \<lparr>new_block_ids := (if record_new_block_ids m then new_block_ids m @ map block_id allocated_blocks
                                                   else new_block_ids m)\<rparr>, p1))))"

text \<open>Assignment to a list element by index.\<close>

definition py_set :: "'a list \<Rightarrow> int \<Rightarrow> 'a \<Rightarrow> 'a list result" where
  "py_set xs i v =
     (if i \<ge> 0 then (if nat i < length xs then Inr (xs[nat i := v]) else Inl IndexError)
      else if - i \<le> int (length xs) then Inr (xs[length xs - nat (- i) := v])
      else Inl IndexError)"

text \<open>\<^verbatim>\<open>_apply_cow\<close>: the source keeps the reference of the hit, the copy gets one beyond that of the request.\<close>

definition apply_cow ::
  "string \<Rightarrow> int \<Rightarrow> block_ref \<Rightarrow> block_ref \<Rightarrow> kv_manager \<Rightarrow> block_pool \<Rightarrow> (kv_manager \<times> block_pool) result" where
  "apply_cow rid block_idx source_block cow_block m p =
     py_assert (block_idx < int (length (blocks_of m rid)))
       (rbind (py_nth (blocks_of m rid) block_idx) (\<lambda>b.
          py_assert (b = source_block)
            (py_assert (\<not> is_null (blocks p source_block) \<and> ref_cnt (blocks p source_block) > 0)
              (rbind (py_set (blocks_of m rid) block_idx cow_block) (\<lambda>bs.
                 Inr ((set_blocks rid bs m)\<lparr>pending_cow_copies := pending_cow_copies m @ [(source_block, cow_block)]\<rparr>,
                      upd_block cow_block (\<lambda>blk. blk\<lparr>ref_cnt := ref_cnt blk + 1\<rparr>) p))))))"

definition redirect_partial_hit ::
  "string \<Rightarrow> kv_manager \<Rightarrow> block_pool \<Rightarrow> (block_ref list \<times> kv_manager \<times> block_pool) result" where
  "redirect_partial_hit rid m p =
     (case map_of (partial_hit_reqs m) rid of
        None \<Rightarrow> Inr ([], m, p)
      | Some (block_idx, source_block) \<Rightarrow>
          rbind (get_new_blocks 1 p) (\<lambda>(new_blocks, p1).
          rbind (py_nth new_blocks 0) (\<lambda>cow_block.
          rbind (apply_cow rid block_idx source_block cow_block (m\<lparr>partial_hit_reqs := dict_del rid (partial_hit_reqs m)\<rparr>) p1) (\<lambda>(m1, p2).
            Inr ([cow_block], m1\<lparr>new_block_ids := new_block_ids m1 @ [block_id cow_block]\<rparr>, p2)))))"

definition base_allocate_new_blocks ::
  "string \<Rightarrow> int \<Rightarrow> kv_manager \<Rightarrow> block_pool \<Rightarrow> (block_ref list \<times> kv_manager \<times> block_pool) result" where
  "base_allocate_new_blocks rid num_toks m p =
     rbind (redirect_partial_hit rid m p) (\<lambda>(cow_blocks, m1, p1).
       let num_required_blocks = cdiv num_toks (mblock_size m1);
           num_new_blocks = num_required_blocks - int (length (blocks_of m1 rid))
       in if num_new_blocks \<le> 0
          then Inr (cow_blocks, m1\<lparr>req_to_blocks := dict_setdefault rid [] (req_to_blocks m1)\<rparr>, p1)
          else rbind (get_new_blocks num_new_blocks p1) (\<lambda>(new_blocks, p2).
                 Inr (cow_blocks @ new_blocks,
                      (set_blocks rid (blocks_of m1 rid @ new_blocks) m1)
                        \<lparr>new_block_ids := (if record_new_block_ids m1 then new_block_ids m1 @ map block_id new_blocks
                                           else new_block_ids m1)\<rparr>, p2)))"

text \<open>
  The Mamba override in mode \<^verbatim>\<open>align\<close>: the loop that moves the speculative blocks of the last step to the
  end, and what happens to a partial hit of a running request.
\<close>

fun reuse_speculative_blocks :: "block_ref \<Rightarrow> int \<Rightarrow> int list \<Rightarrow> block_ref list \<Rightarrow> block_ref list result" where
  "reuse_speculative_blocks null_b num_skipped_blocks [] bs = Inr bs"
| "reuse_speculative_blocks null_b num_skipped_blocks (i # is) bs =
     (if i < num_skipped_blocks
      then rbind (py_nth bs i) (\<lambda>b.
           rbind (py_set (bs @ [b]) i null_b) (\<lambda>bs'.
             reuse_speculative_blocks null_b num_skipped_blocks is bs'))
      else Inr bs)"

definition mamba_running_cow ::
  "string \<Rightarrow> block_ref \<Rightarrow> block_ref \<Rightarrow> kv_manager \<Rightarrow> block_pool \<Rightarrow> (kv_manager \<times> block_pool) result" where
  "mamba_running_cow rid source_block cow_block m p =
     rbind (move_block_hashes source_block cow_block p) (\<lambda>p1.
       let p2 = upd_block source_block (\<lambda>blk. blk\<lparr>ref_cnt := ref_cnt blk + 1\<rparr>) p1;
           m1 = m\<lparr>pending_cow_copies := pending_cow_copies m @ [(source_block, cow_block)],
                  producer_partial_tail_reqs := dict_del rid (producer_partial_tail_reqs m),
                  pending_partial_tail_offloads :=
                    (case map_of (producer_partial_tail_reqs m) rid of
                       None \<Rightarrow> pending_partial_tail_offloads m
                     | Some boundary_tokens \<Rightarrow>
                         pending_partial_tail_offloads m @ [(rid, kv_cache_group_id m, cow_block, boundary_tokens)])\<rparr>
       in Inr (m1\<lparr>cached_blocks_this_step := (case bhash (blocks p2 cow_block) of
                    None \<Rightarrow> cached_blocks_this_step m1 | Some key \<Rightarrow> set_add key (cached_blocks_this_step m1))\<rparr>, p2))"

text \<open>The index of the last state block is recorded, the speculative blocks are shifted, and a partial hit is redirected.\<close>

definition align_record_state :: "string \<Rightarrow> int \<Rightarrow> kv_manager \<Rightarrow> kv_manager" where
  "align_record_state rid num_speculative_blocks m =
     (let prev_block_len = int (length (blocks_of m rid))
      in m\<lparr>last_state_block_idx :=
             (if rid \<in> set (allocated_block_reqs m)
              then dict_put rid (prev_block_len - 1 - num_speculative_blocks) (last_state_block_idx m)
              else if prev_block_len > 0 then dict_put rid (prev_block_len - 1) (last_state_block_idx m)
              else last_state_block_idx m)\<rparr>)"

definition align_shift ::
  "string \<Rightarrow> int \<Rightarrow> int \<Rightarrow> kv_manager \<Rightarrow> block_pool \<Rightarrow> block_ref list result" where
  "align_shift rid num_required_blocks num_speculative_blocks m p =
     (let bs0 = blocks_of m rid; prev_block_len = int (length bs0);
          num_skipped_blocks = num_required_blocks - num_speculative_blocks - 1;
          bs1 = bs0 @ replicate (nat (num_skipped_blocks - prev_block_len)) (null_block p)
      in if rid \<in> set (allocated_block_reqs m)
         then reuse_speculative_blocks (null_block p) num_skipped_blocks
                [prev_block_len - num_speculative_blocks..prev_block_len - 1] bs1
         else Inr bs1)"

definition align_redirect ::
  "string \<Rightarrow> block_ref list \<Rightarrow> block_ref list \<Rightarrow> kv_manager \<Rightarrow> block_pool \<Rightarrow>
     (block_ref list \<times> block_ref list \<times> kv_manager \<times> block_pool) result" where
  "align_redirect rid new_blocks returned m p =
     (case map_of (partial_hit_reqs m) rid of
        None \<Rightarrow> Inr (new_blocks, returned, m, p)
      | Some (block_idx, source_block) \<Rightarrow>
          rbind (py_nth new_blocks 0) (\<lambda>cow_block.
            if rid \<in> set (allocated_block_reqs m)
            then rbind (py_nth (blocks_of m rid) block_idx) (\<lambda>b. py_assert (b = source_block)
                   (rbind (mamba_running_cow rid source_block cow_block m p) (\<lambda>(m1, p1).
                      Inr (tl new_blocks, returned, m1, p1))))
            else rbind (apply_cow rid block_idx source_block cow_block m p) (\<lambda>(m1, p1).
                   Inr (tl new_blocks, cow_block # returned, m1, p1))))"

definition mamba_align_allocate ::
  "string \<Rightarrow> int \<Rightarrow> int \<Rightarrow> kv_manager \<Rightarrow> block_pool \<Rightarrow> (block_ref list \<times> kv_manager \<times> block_pool) result" where
  "mamba_align_allocate rid num_toks num_speculative_blocks m0 p =
     (let m = m0\<lparr>req_to_blocks := dict_setdefault rid [] (req_to_blocks m0)\<rparr>;
          prev_block_len = int (length (blocks_of m rid));
          num_required_blocks = cdiv num_toks (mblock_size m) + num_speculative_blocks;
          has_partial_hit = has_key rid (partial_hit_reqs m);
          partial = (if has_partial_hit then 1 else 0);
          allowed = (if rid \<in> set (allocated_block_reqs m) then 1 + partial else num_speculative_blocks + 1 + partial)
      in if num_required_blocks \<le> prev_block_len \<and> \<not> has_partial_hit then Inr ([], m, p)
         else rbind (align_shift rid num_required_blocks num_speculative_blocks m p) (\<lambda>bs.
                let num_new = num_required_blocks - int (length bs);
                    num_new_blocks = (if has_partial_hit then max num_new 0 + 1 else num_new)
                in py_assert (num_new_blocks \<le> allowed)
                     (rbind (get_new_blocks num_new_blocks p) (\<lambda>(new_blocks, p1).
                        rbind (align_redirect rid new_blocks (py_drop bs prev_block_len)
                                 (set_blocks rid bs (align_record_state rid num_speculative_blocks m)) p1)
                          (\<lambda>(new_blocks', returned, m1, p2).
                             Inr (returned @ new_blocks',
                                  (set_blocks rid (blocks_of m1 rid @ new_blocks') m1)
                                    \<lparr>allocated_block_reqs := set_add rid (allocated_block_reqs m1),
                                     partial_hit_reqs := dict_del rid (partial_hit_reqs m1)\<rparr>, p2))))))"

definition allocate_new_blocks ::
  "string \<Rightarrow> int \<Rightarrow> int \<Rightarrow> kv_manager \<Rightarrow> block_pool \<Rightarrow> (block_ref list \<times> kv_manager \<times> block_pool) result" where
  "allocate_new_blocks rid num_toks num_tokens_main_model m p =
     (case mspec m of
        MambaSpec _ mode num_speculative_blocks \<Rightarrow>
          if mode \<noteq> ''align''
          then base_allocate_new_blocks rid
                 (if num_speculative_blocks > 0 then num_toks + mblock_size m * num_speculative_blocks else num_toks) m p
          else mamba_align_allocate rid num_tokens_main_model num_speculative_blocks m p
      | _ \<Rightarrow> base_allocate_new_blocks rid num_toks m p)"

definition take_new_block_ids :: "kv_manager \<Rightarrow> int list \<times> kv_manager" where
  "take_new_block_ids m = (new_block_ids m, m\<lparr>new_block_ids := []\<rparr>)"

definition take_pending_cow_copies :: "kv_manager \<Rightarrow> (block_ref \<times> block_ref) list \<times> kv_manager" where
  "take_pending_cow_copies m = (pending_cow_copies m, m\<lparr>pending_cow_copies := []\<rparr>)"

definition take_pending_partial_tail_offloads :: "kv_manager \<Rightarrow> (string \<times> int \<times> block_ref \<times> int) list \<times> kv_manager" where
  "take_pending_partial_tail_offloads m = (pending_partial_tail_offloads m, m\<lparr>pending_partial_tail_offloads := []\<rparr>)"

section \<open>Caching blocks\<close>

definition base_cache_blocks ::
  "(bytes \<Rightarrow> bytes) \<Rightarrow> request \<Rightarrow> int \<Rightarrow> int option \<Rightarrow> kv_manager \<Rightarrow> block_pool \<Rightarrow> (request \<times> kv_manager \<times> block_pool) result" where
  "base_cache_blocks sha256 r num_toks retention_interval m p =
     (let rid = request_id r;
          num_cached_blocks = dict_get 0 rid (num_cached_block m);
          num_full_blocks = num_toks div mblock_size m
      in if num_cached_blocks \<ge> num_full_blocks then Inr (r, m, p)
         else (let reachable_boundaries = [num_prompt_tokens r - 1] @
                     (if shared_prefix_boundary r \<noteq> 0 then [shared_prefix_boundary r] else [])
               in rbind (reachable_block_mask num_cached_blocks num_full_blocks (Some (scheduler_block_size m)) (mspec m)
                           (use_eagle m) retention_interval reachable_boundaries) (\<lambda>block_mask.
                  rbind (cache_full_blocks sha256 r (blocks_of m rid) num_cached_blocks num_full_blocks (mblock_size m)
                           (kv_cache_group_id m) block_mask p) (\<lambda>(r1, p1).
                    Inr (r1, m\<lparr>req_to_blocks := dict_setdefault rid [] (req_to_blocks m),
                               num_cached_block := dict_put rid num_full_blocks (num_cached_block m)\<rparr>, p1)))))"

definition full_cache_partial_tail_block ::
  "(bytes \<Rightarrow> bytes) \<Rightarrow> request \<Rightarrow> int \<Rightarrow> kv_manager \<Rightarrow> block_pool \<Rightarrow> (request \<times> kv_manager \<times> block_pool) result" where
  "full_cache_partial_tail_block sha256 r num_toks m p =
     (let boundary_tokens = num_prompt_tokens r div hash_block_size p * hash_block_size p
      in if boundary_tokens = 0 \<or> boundary_tokens > num_toks then Inr (r, m, p)
         else if boundary_tokens mod mblock_size m = 0 then Inr (r, m, p)
         else (let bs = blocks_of m (request_id r);
                   m1 = m\<lparr>req_to_blocks := dict_setdefault (request_id r) [] (req_to_blocks m)\<rparr>;
                   block_idx = boundary_tokens div mblock_size m
               in if block_idx \<ge> int (length bs) then Inr (r, m1, p)
                  else rbind (py_nth bs block_idx) (\<lambda>b.
                       rbind (cache_partial_block sha256 r b boundary_tokens (kv_cache_group_id m) (mblock_size m) p) (\<lambda>(key, r1, p1).
                         Inr (r1, m1, p1)))))"

definition full_cache_blocks ::
  "(bytes \<Rightarrow> bytes) \<Rightarrow> request \<Rightarrow> int \<Rightarrow> int option \<Rightarrow> kv_manager \<Rightarrow> block_pool \<Rightarrow> (request \<times> kv_manager \<times> block_pool) result" where
  "full_cache_blocks sha256 r num_toks retention_interval m p =
     rbind (base_cache_blocks sha256 r num_toks retention_interval m p) (\<lambda>(r1, m1, p1).
       if mblock_size m1 = hash_block_size p1 then Inr (r1, m1, p1)
       else full_cache_partial_tail_block sha256 r1 num_toks m1 p1)"

definition mamba_cache_partial_tail_block ::
  "(bytes \<Rightarrow> bytes) \<Rightarrow> request \<Rightarrow> int \<Rightarrow> kv_manager \<Rightarrow> block_pool \<Rightarrow> (bytes option \<times> request \<times> kv_manager \<times> block_pool) result" where
  "mamba_cache_partial_tail_block sha256 r num_toks m p =
     (if mblock_size m = hash_block_size p \<or> num_toks mod mblock_size m = 0 \<or> num_toks mod hash_block_size p \<noteq> 0 \<or>
         num_toks \<noteq> num_prompt_tokens r div hash_block_size p * hash_block_size p
      then Inr (None, r, m, p)
      else (let rid = request_id r; block_idx = num_toks div mblock_size m; bs = blocks_of m rid;
                m1 = m\<lparr>req_to_blocks := dict_setdefault rid [] (req_to_blocks m)\<rparr>
            in if block_idx \<ge> int (length bs) then Inr (None, r, m1, p)
               else rbind (py_nth bs block_idx) (\<lambda>source_block.
                 if is_null (blocks p source_block) then Inr (None, r, m1, p)
                 else rbind (cache_partial_block sha256 r source_block num_toks (kv_cache_group_id m) (mblock_size m) p)
                   (\<lambda>(partial_hash, r1, p1).
                      Inr (partial_hash, r1,
                           (if partial_hash \<noteq> None
                            then m1\<lparr>partial_hit_reqs := dict_put rid (block_idx, source_block) (partial_hit_reqs m1),
                                    num_cached_block := dict_put rid block_idx (num_cached_block m1),
                                    producer_partial_tail_reqs := dict_put rid num_toks (producer_partial_tail_reqs m1)\<rparr>
                            else m1), p1)))))"

definition remember_cached :: "block_pool \<Rightarrow> block_ref \<Rightarrow> bytes list \<Rightarrow> bytes list" where
  "remember_cached p b keys =
     (if is_null (blocks p b) then keys
      else case bhash (blocks p b) of None \<Rightarrow> keys | Some key \<Rightarrow> set_add key keys)"

definition mamba_cache_blocks ::
  "(bytes \<Rightarrow> bytes) \<Rightarrow> request \<Rightarrow> int \<Rightarrow> int option \<Rightarrow> kv_manager \<Rightarrow> block_pool \<Rightarrow> (request \<times> kv_manager \<times> block_pool) result" where
  "mamba_cache_blocks sha256 r num_toks retention_interval m p =
     (let rid = request_id r; num_before = dict_get 0 rid (num_cached_block m)
      in rbind (base_cache_blocks sha256 r num_toks retention_interval m p) (\<lambda>(r1, m1, p1).
           let num_after = dict_get 0 rid (num_cached_block m1);
               align = (case mspec m of MambaSpec _ mode _ \<Rightarrow> mode = ''align'' | _ \<Rightarrow> False)
           in rbind (if align
                     then rbind (mamba_cache_partial_tail_block sha256 r1 num_toks m1 p1) (\<lambda>(partial_hash, r2, m2, p2).
                            Inr (r2, (case partial_hash of
                                        None \<Rightarrow> m2
                                      | Some key \<Rightarrow> m2\<lparr>cached_blocks_this_step := set_add key (cached_blocks_this_step m2)\<rparr>), p2))
                     else Inr (r1, m1, p1)) (\<lambda>(r2, m2, p2).
                if num_after > num_before
                then Inr (r2, m2\<lparr>req_to_blocks := dict_setdefault rid [] (req_to_blocks m2),
                                 cached_blocks_this_step := fold (remember_cached p2)
                                   (py_slice (blocks_of m2 rid) num_before num_after) (cached_blocks_this_step m2)\<rparr>, p2)
                else Inr (r2, m2, p2))))"

definition cache_blocks ::
  "(bytes \<Rightarrow> bytes) \<Rightarrow> request \<Rightarrow> int \<Rightarrow> int option \<Rightarrow> kv_manager \<Rightarrow> block_pool \<Rightarrow> (request \<times> kv_manager \<times> block_pool) result" where
  "cache_blocks sha256 r num_toks retention_interval m p =
     (if is_full_attention (mspec m) then full_cache_blocks sha256 r num_toks retention_interval m p
      else if is_mamba (mspec m) then mamba_cache_blocks sha256 r num_toks retention_interval m p
      else if is_cross_attention (mspec m) then Inl ValueError
      else base_cache_blocks sha256 r num_toks retention_interval m p)"

definition new_step_starts :: "kv_manager \<Rightarrow> kv_manager" where
  "new_step_starts m = (if is_mamba (mspec m) then m\<lparr>cached_blocks_this_step := []\<rparr> else m)"

section \<open>Releasing blocks\<close>

fun mamba_align :: "kv_cache_spec \<Rightarrow> bool" where
  "mamba_align (MambaSpec _ mode _) \<longleftrightarrow> mode = ''align''"
| "mamba_align _ \<longleftrightarrow> False"

definition pop_blocks_for_free :: "string \<Rightarrow> kv_manager \<Rightarrow> block_ref list \<times> kv_manager" where
  "pop_blocks_for_free rid m0 =
     (let m = (if mamba_align (mspec m0)
               then m0\<lparr>allocated_block_reqs := removeAll rid (allocated_block_reqs m0),
                       last_state_block_idx := dict_del rid (last_state_block_idx m0),
                       producer_partial_tail_reqs := dict_del rid (producer_partial_tail_reqs m0),
                       pending_partial_tail_offloads := filter (\<lambda>e. fst e \<noteq> rid) (pending_partial_tail_offloads m0)\<rparr>
               else m0)
      in (blocks_of m rid, m\<lparr>req_to_blocks := dict_del rid (req_to_blocks m),
                             num_cached_block := dict_del rid (num_cached_block m),
                             partial_hit_reqs := dict_del rid (partial_hit_reqs m)\<rparr>))"

definition free_request :: "string \<Rightarrow> kv_manager \<Rightarrow> block_pool \<Rightarrow> (kv_manager \<times> block_pool) result" where
  "free_request rid m p =
     (case pop_blocks_for_free rid m of (bs, m1) \<Rightarrow> rbind (free_blocks (rev bs) p) (\<lambda>p1. Inr (m1, p1)))"

text \<open>The loop of \<^verbatim>\<open>_remove_blocks_in_range\<close> over descending positions: the updated blocks and the freed ones.\<close>

fun null_out :: "block_ref \<Rightarrow> int list \<Rightarrow> block_ref list \<Rightarrow> block_ref list \<Rightarrow> block_ref list \<times> block_ref list" where
  "null_out null_b [] bs freed = (bs, freed)"
| "null_out null_b (i # is) bs freed =
     (if bs ! nat i = null_b then (bs, freed)
      else null_out null_b is (bs[nat i := null_b]) (freed @ [bs ! nat i]))"

definition remove_blocks_in_range ::
  "string \<Rightarrow> int \<Rightarrow> int \<Rightarrow> kv_manager \<Rightarrow> block_pool \<Rightarrow> (kv_manager \<times> block_pool) result" where
  "remove_blocks_in_range rid first_block last_block m p =
     (if \<not> has_key rid (req_to_blocks m) then Inr (m, p)
      else if first_block \<ge> last_block then Inr (m, p)
      else (let bs = blocks_of m rid; last' = min last_block (int (length bs))
            in case null_out (null_block p) (rev [first_block..last' - 1]) bs [] of
                 (bs', freed) \<Rightarrow>
                   if freed \<noteq> [] then rbind (free_blocks freed p) (\<lambda>p1. Inr (set_blocks rid bs' m, p1))
                   else Inr (set_blocks rid bs' m, p)))"

definition base_remove_skipped_blocks :: "string \<Rightarrow> int \<Rightarrow> kv_manager \<Rightarrow> block_pool \<Rightarrow> (kv_manager \<times> block_pool) result" where
  "base_remove_skipped_blocks rid processed_computed_tokens m p =
     (let num_skipped_tokens = get_num_skipped_tokens (mspec m) processed_computed_tokens
      in if num_skipped_tokens \<le> 0 then Inr (m, p)
         else (let m1 = m\<lparr>req_to_blocks := dict_setdefault rid [] (req_to_blocks m)\<rparr>;
                   num_skipped_blocks = min (num_skipped_tokens div mblock_size m) (int (length (blocks_of m rid)))
               in remove_blocks_in_range rid 0 num_skipped_blocks m1 p))"

definition rswa_remove_skipped_blocks ::
  "string \<Rightarrow> int \<Rightarrow> int option \<Rightarrow> int \<Rightarrow> kv_manager \<Rightarrow> block_pool \<Rightarrow> (kv_manager \<times> block_pool) result" where
  "rswa_remove_skipped_blocks rid processed_computed_tokens num_prompt rswa_window m p =
     (case num_prompt of
        None \<Rightarrow> base_remove_skipped_blocks rid processed_computed_tokens m p
      | Some n \<Rightarrow>
          (let first_gap_block = cdiv n (mblock_size m);
               window_start = max n (processed_computed_tokens - rswa_window);
               last_gap_block = window_start div mblock_size m
           in remove_blocks_in_range rid first_gap_block last_gap_block m p))"

definition mamba_remove_skipped_blocks :: "string \<Rightarrow> int \<Rightarrow> kv_manager \<Rightarrow> block_pool \<Rightarrow> (kv_manager \<times> block_pool) result" where
  "mamba_remove_skipped_blocks rid processed_computed_tokens m p =
     rbind (base_remove_skipped_blocks rid processed_computed_tokens m p) (\<lambda>(m1, p1).
       if \<not> mamba_align (mspec m) then Inr (m1, p1)
       else case map_of (last_state_block_idx m1) rid of
              None \<Rightarrow> Inr (m1, p1)
            | Some idx \<Rightarrow>
                if idx < cdiv processed_computed_tokens (mblock_size m1) - 1
                then (let m2 = m1\<lparr>req_to_blocks := dict_setdefault rid [] (req_to_blocks m1)\<rparr>
                      in rbind (py_nth (blocks_of m2 rid) idx) (\<lambda>b.
                           if b \<noteq> null_block p1
                           then rbind (free_blocks [b] p1) (\<lambda>p2.
                                rbind (py_set (blocks_of m2 rid) idx (null_block p1)) (\<lambda>bs.
                                  Inr (set_blocks rid bs m2, p2)))
                           else Inr (m2, p1)))
                else Inr (m1, p1))"

definition remove_skipped_blocks ::
  "string \<Rightarrow> int \<Rightarrow> int option \<Rightarrow> kv_manager \<Rightarrow> block_pool \<Rightarrow> (kv_manager \<times> block_pool) result" where
  "remove_skipped_blocks rid processed_computed_tokens num_prompt m p =
     (case mspec m of
        RSWASpec _ rswa_window \<Rightarrow> rswa_remove_skipped_blocks rid processed_computed_tokens num_prompt rswa_window m p
      | MambaSpec _ _ _ \<Rightarrow> mamba_remove_skipped_blocks rid processed_computed_tokens m p
      | _ \<Rightarrow> base_remove_skipped_blocks rid processed_computed_tokens m p)"

fun count_common :: "block_pool \<Rightarrow> int \<Rightarrow> block_ref list \<Rightarrow> int" where
  "count_common p n [] = 0"
| "count_common p n (b # bs) = (if ref_cnt (blocks p b) = n then 1 + count_common p n bs else 0)"

definition get_num_common_prefix_blocks :: "string \<Rightarrow> kv_manager \<Rightarrow> block_pool \<Rightarrow> int \<times> kv_manager" where
  "get_num_common_prefix_blocks rid m p =
     (if is_full_attention (mspec m)
      then (let m1 = m\<lparr>req_to_blocks := dict_setdefault rid [] (req_to_blocks m)\<rparr>
            in (count_common p (int (length (req_to_blocks m1))) (blocks_of m1 rid), m1))
      else (0, m))"

end
