(* ===== verification/KV_Coordinator.thy ===== *)
theory KV_Coordinator
  imports Single_Type_Manager
begin

text \<open>
  \<^verbatim>\<open>src/vllm/v1/core/kv_cache_coordinator.py\<close>: the coordinators that run one manager for each KV-cache group on
  one block pool.  The three subclasses of \<^verbatim>\<open>KVCacheCoordinator\<close> are a field of the state; a method they
  override is selected by it.  The retention interval is read from an environment variable and is a
  parameter here, as is the switch of the pool to integer hashes.
\<close>

section \<open>Configuration\<close>

text \<open>
  \<^verbatim>\<open>KVCacheGroupSpec\<close> and \<^verbatim>\<open>KVCacheConfig\<close>.  A specification compares equal only if the fields that no manager
  reads (heads, data type, page size) are equal too; they are one number here.
\<close>

record kv_cache_group =
  gspec :: kv_cache_spec
  glayout :: nat
  is_eagle_group :: bool

record kv_cache_config =
  num_blocks :: int
  kv_cache_groups :: "kv_cache_group list"
  has_mixed_precision_kv_cache :: bool

definition has_mamba_layers :: "kv_cache_config \<Rightarrow> bool" where
  "has_mamba_layers cfg \<longleftrightarrow> (\<exists>g\<in>set (kv_cache_groups cfg). is_mamba (gspec g))"

definition needs_kv_cache_zeroing :: "kv_cache_config \<Rightarrow> bool" where
  "needs_kv_cache_zeroing cfg \<longleftrightarrow> has_mamba_layers cfg \<or> has_mixed_precision_kv_cache cfg"

definition validate_prefix_cache_retention_interval :: "int option \<Rightarrow> int \<Rightarrow> kv_cache_config \<Rightarrow> unit result" where
  "validate_prefix_cache_retention_interval retention_interval sched_block_size cfg =
     (case retention_interval of
        None \<Rightarrow> Inr ()
      | Some r \<Rightarrow>
          if \<not> (\<exists>g\<in>set (kv_cache_groups cfg). is_sliding_window (gspec g) \<or> is_mamba (gspec g)) then Inl ValueError
          else if r < 0 \<or> r mod sched_block_size \<noteq> 0 then Inl ValueError
          else Inr ())"

section \<open>State\<close>

record spec_group =
  sg_spec :: kv_cache_spec
  sg_layout :: nat
  sg_group_ids :: "nat list"
  sg_use_eagle :: bool

datatype coordinator_class = NoPrefixCacheCoordinator | UnitaryCoordinator | HybridCoordinator

record coordinator =
  coord_class :: coordinator_class
  coord_config :: kv_cache_config
  coord_max_model_len :: int
  coord_enable_caching :: bool
  coord_scheduler_block_size :: int
  coord_pool :: block_pool
  eagle_group_ids :: "nat list"
  single_type_managers :: "kv_manager list"
  coord_retention_interval :: "int option"
  coord_block_size :: int
  coord_hash_block_size :: int
  coord_dcp_world_size :: int
  enable_partial_hash_hits :: bool
  attention_groups :: "spec_group list"
  full_attention_group_id :: "nat option"

text \<open>\<open>for manager in self.single_type_managers\<close>, with the position and the pool passed along.\<close>

fun each_manager ::
  "(nat \<Rightarrow> kv_manager \<Rightarrow> block_pool \<Rightarrow> ('a \<times> kv_manager \<times> block_pool) result) \<Rightarrow> nat \<Rightarrow> kv_manager list \<Rightarrow> block_pool \<Rightarrow>
   ('a list \<times> kv_manager list \<times> block_pool) result" where
  "each_manager f i [] p = Inr ([], [], p)"
| "each_manager f i (m # ms) p =
     rbind (f i m p) (\<lambda>(x, m', p').
     rbind (each_manager f (Suc i) ms p') (\<lambda>(xs, ms', p'').
       Inr (x # xs, m' # ms', p'')))"

definition with_managers :: "kv_manager list \<Rightarrow> block_pool \<Rightarrow> coordinator \<Rightarrow> coordinator" where
  "with_managers ms p c = c\<lparr>single_type_managers := ms, coord_pool := p\<rparr>"

section \<open>Construction\<close>

definition flagged_eagle_groups :: "bool \<Rightarrow> kv_cache_config \<Rightarrow> nat list" where
  "flagged_eagle_groups eagle cfg =
     (let ids = filter (\<lambda>i. is_eagle_group (kv_cache_groups cfg ! i)) [0..<length (kv_cache_groups cfg)]
      in if eagle \<and> ids = [] then [0..<length (kv_cache_groups cfg)] else ids)"

fun make_managers ::
  "int \<Rightarrow> int \<Rightarrow> bool \<Rightarrow> int \<Rightarrow> int \<Rightarrow> bool \<Rightarrow> nat \<Rightarrow> kv_cache_group list \<Rightarrow> kv_manager list result" where
  "make_managers max_in_flight_tokens max_model_len caching dcp_world_size sched_block_size zeroing i [] = Inr []"
| "make_managers max_in_flight_tokens max_model_len caching dcp_world_size sched_block_size zeroing i (g # gs) =
     rbind (get_manager_for_kv_cache_spec (gspec g) max_in_flight_tokens max_model_len caching (int i) dcp_world_size sched_block_size zeroing)
       (\<lambda>m. rbind (make_managers max_in_flight_tokens max_model_len caching dcp_world_size sched_block_size zeroing (Suc i) gs)
       (\<lambda>ms. Inr (m # ms)))"

definition init_base_coordinator ::
  "coordinator_class \<Rightarrow> kv_cache_config \<Rightarrow> int \<Rightarrow> int \<Rightarrow> bool \<Rightarrow> bool \<Rightarrow> bool \<Rightarrow> int \<Rightarrow> int \<Rightarrow> int \<Rightarrow> int option \<Rightarrow> bool \<Rightarrow> coordinator result" where
  "init_base_coordinator cls cfg max_model_len max_in_flight_tokens eagle caching events dcp_world_size sched_block_size hash_bs
     retention use_int =
     py_assert (sched_block_size mod hash_bs = 0 \<and> (\<forall>g\<in>set (kv_cache_groups cfg). sched_block_size mod spec_block_size (gspec g) = 0))
       (rbind (init_pool (num_blocks cfg) caching hash_bs events use_int) (\<lambda>p.
        rbind (make_managers max_in_flight_tokens max_model_len caching dcp_world_size sched_block_size (needs_kv_cache_zeroing cfg)
                 0 (kv_cache_groups cfg)) (\<lambda>ms.
        rbind (validate_prefix_cache_retention_interval retention sched_block_size cfg) (\<lambda>_.
          Inr \<lparr>coord_class = cls, coord_config = cfg, coord_max_model_len = max_model_len, coord_enable_caching = caching,
               coord_scheduler_block_size = sched_block_size, coord_pool = p,
               eagle_group_ids = flagged_eagle_groups eagle cfg, single_type_managers = ms,
               coord_retention_interval = retention, coord_block_size = 0, coord_hash_block_size = hash_bs,
               coord_dcp_world_size = dcp_world_size, enable_partial_hash_hits = False, attention_groups = [],
               full_attention_group_id = None\<rparr>))))"

definition init_unitary_coordinator ::
  "kv_cache_config \<Rightarrow> int \<Rightarrow> int \<Rightarrow> bool \<Rightarrow> bool \<Rightarrow> bool \<Rightarrow> int \<Rightarrow> int \<Rightarrow> int \<Rightarrow> int option \<Rightarrow> bool \<Rightarrow> coordinator result" where
  "init_unitary_coordinator cfg max_model_len max_in_flight_tokens eagle caching events dcp_world_size sched_block_size hash_bs
     retention use_int =
     rbind (init_base_coordinator UnitaryCoordinator cfg max_model_len max_in_flight_tokens eagle caching events dcp_world_size
              sched_block_size hash_bs retention use_int) (\<lambda>c.
     rbind (py_nth (kv_cache_groups cfg) 0) (\<lambda>g.
       let block_size = (if dcp_world_size > 1 then spec_block_size (gspec g) * dcp_world_size else spec_block_size (gspec g))
       in py_assert (\<not> caching \<or> hash_bs = block_size)
            (py_assert (length (kv_cache_groups cfg) = 1)
              (Inr (c\<lparr>coord_block_size := block_size,
                     single_type_managers := map (\<lambda>m. m\<lparr>use_eagle := (0 \<in> set (eagle_group_ids c))\<rparr>) (single_type_managers c)\<rparr>)))))"

text \<open>\<^verbatim>\<open>verify_and_split_kv_cache_groups\<close>: the groups joined by specification, full attention first.\<close>

fun join_spec_group :: "nat \<Rightarrow> kv_cache_group \<Rightarrow> bool \<Rightarrow> spec_group list \<Rightarrow> spec_group list" where
  "join_spec_group i g eagle [] = [\<lparr>sg_spec = gspec g, sg_layout = glayout g, sg_group_ids = [i], sg_use_eagle = eagle\<rparr>]"
| "join_spec_group i g eagle (sg # sgs) =
     (if sg_spec sg = gspec g \<and> sg_layout sg = glayout g
      then sg\<lparr>sg_group_ids := sg_group_ids sg @ [i], sg_use_eagle := (sg_use_eagle sg \<or> eagle)\<rparr> # sgs
      else sg # join_spec_group i g eagle sgs)"

definition split_spec_groups :: "nat list \<Rightarrow> kv_cache_group list \<Rightarrow> spec_group list" where
  "split_spec_groups eagle_ids gs =
     (let sgs = fold (\<lambda>i. join_spec_group i (gs ! i) (i \<in> set eagle_ids)) [0..<length gs] []
      in filter (\<lambda>sg. is_full_attention (sg_spec sg)) sgs @ filter (\<lambda>sg. \<not> is_full_attention (sg_spec sg)) sgs)"

definition mark_eagle_managers :: "spec_group list \<Rightarrow> kv_manager list \<Rightarrow> kv_manager list" where
  "mark_eagle_managers sgs ms =
     map (\<lambda>i. if \<exists>sg\<in>set sgs. sg_use_eagle sg \<and> i \<in> set (sg_group_ids sg) then (ms ! i)\<lparr>use_eagle := True\<rparr> else ms ! i) [0..<length ms]"

definition verify_and_split_kv_cache_groups :: "coordinator \<Rightarrow> coordinator result" where
  "verify_and_split_kv_cache_groups c =
     (let sgs = split_spec_groups (eagle_group_ids c) (kv_cache_groups (coord_config c))
      in py_assert (length sgs > 1)
           (Inr (c\<lparr>attention_groups := sgs,
                  full_attention_group_id :=
                    (if is_full_attention (sg_spec (hd sgs)) then Some (hd (sg_group_ids (hd sgs))) else None),
                  single_type_managers := mark_eagle_managers sgs (single_type_managers c)\<rparr>)))"

definition partial_hits_possible :: "kv_cache_config \<Rightarrow> int \<Rightarrow> int \<Rightarrow> bool" where
  "partial_hits_possible cfg dcp_world_size hash_bs \<longleftrightarrow> dcp_world_size = 1 \<and>
     (\<exists>g\<in>set (kv_cache_groups cfg). mamba_align (gspec g) \<and> spec_block_size (gspec g) > hash_bs)"

definition init_hybrid_coordinator ::
  "kv_cache_config \<Rightarrow> int \<Rightarrow> int \<Rightarrow> bool \<Rightarrow> bool \<Rightarrow> bool \<Rightarrow> int \<Rightarrow> int \<Rightarrow> int \<Rightarrow> int \<Rightarrow> int option \<Rightarrow> bool \<Rightarrow> coordinator result" where
  "init_hybrid_coordinator cfg max_model_len max_in_flight_tokens eagle caching events dcp_world_size pcp_world_size sched_block_size
     hash_bs retention use_int =
     rbind (init_base_coordinator HybridCoordinator cfg max_model_len max_in_flight_tokens eagle caching events dcp_world_size
              sched_block_size hash_bs retention use_int) (\<lambda>c.
       py_assert (\<forall>m\<in>set (single_type_managers c). mblock_size m mod hash_bs = 0)
         (py_assert (pcp_world_size = 1)
           (py_assert (dcp_world_size > 1 \<longrightarrow> (\<forall>g\<in>set (kv_cache_groups cfg). is_full_attention (gspec g) \<or> is_mamba (gspec g)))
             (verify_and_split_kv_cache_groups
               (c\<lparr>enable_partial_hash_hits := partial_hits_possible cfg dcp_world_size hash_bs\<rparr>)))))"

definition get_kv_cache_coordinator ::
  "kv_cache_config \<Rightarrow> int \<Rightarrow> int \<Rightarrow> bool \<Rightarrow> bool \<Rightarrow> bool \<Rightarrow> int \<Rightarrow> int \<Rightarrow> int \<Rightarrow> int \<Rightarrow> int option \<Rightarrow> bool \<Rightarrow> coordinator result" where
  "get_kv_cache_coordinator cfg max_model_len max_in_flight_tokens eagle caching events dcp_world_size pcp_world_size sched_block_size
     hash_bs retention use_int =
     (if \<not> caching
      then init_base_coordinator NoPrefixCacheCoordinator cfg max_model_len max_in_flight_tokens eagle False events dcp_world_size
             sched_block_size hash_bs retention use_int
      else if length (kv_cache_groups cfg) = 1
      then init_unitary_coordinator cfg max_model_len max_in_flight_tokens eagle caching events dcp_world_size sched_block_size
             hash_bs retention use_int
      else init_hybrid_coordinator cfg max_model_len max_in_flight_tokens eagle caching events dcp_world_size pcp_world_size
             sched_block_size hash_bs retention use_int)"

section \<open>Operations on all managers\<close>

definition coord_get_num_blocks_to_allocate ::
  "coordinator \<Rightarrow> string \<Rightarrow> int \<Rightarrow> block_ref list list \<Rightarrow> int \<Rightarrow> int \<Rightarrow> int \<Rightarrow> int \<Rightarrow> bool \<Rightarrow> (int \<times> coordinator) result" where
  "coord_get_num_blocks_to_allocate c rid num_toks new_computed_blocks num_encoder_tokens total_computed_tokens
     num_local_computed_tokens num_tokens_main_model apply_admission_cap =
     rbind (each_manager (\<lambda>i m p.
              if is_cross_attention (mspec m)
              then rbind (get_num_blocks_to_allocate m p rid num_encoder_tokens [] 0 0 num_encoder_tokens apply_admission_cap)
                     (\<lambda>(n, m'). Inr (n, m', p))
              else rbind (py_nth new_computed_blocks (int i)) (\<lambda>blks.
                   rbind (get_num_blocks_to_allocate m p rid num_toks blks total_computed_tokens num_local_computed_tokens
                            num_tokens_main_model apply_admission_cap)
                     (\<lambda>(n, m'). Inr (n, m', p)))) 0 (single_type_managers c) (coord_pool c))
       (\<lambda>(ns, ms, p). Inr (sum_list ns, with_managers ms p c))"

definition coord_allocate_new_computed_blocks ::
  "string \<Rightarrow> block_ref list list \<Rightarrow> int \<Rightarrow> int \<Rightarrow> coordinator \<Rightarrow> coordinator result" where
  "coord_allocate_new_computed_blocks rid new_computed_blocks num_local_computed_tokens num_external_computed_tokens c =
     (if \<exists>m\<in>set (single_type_managers c). has_key rid (num_cached_block m)
      then py_assert (\<forall>blks\<in>set new_computed_blocks. length blks = 0) (Inr c)
      else rbind (each_manager (\<lambda>i m p.
                    rbind (py_nth new_computed_blocks (int i)) (\<lambda>blks.
                    rbind (add_local_computed_blocks rid blks num_local_computed_tokens num_external_computed_tokens m p)
                      (\<lambda>(m', p'). Inr ((), m', p')))) 0 (single_type_managers c) (coord_pool c)) (\<lambda>(_, ms, p).
           if num_external_computed_tokens > 0
           then rbind (each_manager (\<lambda>i m p.
                         rbind (allocate_external_computed_blocks rid num_local_computed_tokens num_external_computed_tokens m p)
                           (\<lambda>(m', p'). Inr ((), m', p'))) 0 ms p) (\<lambda>(_, ms', p').
                  Inr (with_managers ms' p' c))
           else Inr (with_managers ms p c)))"

definition coord_allocate_new_blocks ::
  "string \<Rightarrow> int \<Rightarrow> int \<Rightarrow> int \<Rightarrow> coordinator \<Rightarrow> (block_ref list list \<times> coordinator) result" where
  "coord_allocate_new_blocks rid num_toks num_tokens_main_model num_encoder_tokens c =
     rbind (each_manager (\<lambda>i m p.
              allocate_new_blocks rid (if is_cross_attention (mspec m) then num_encoder_tokens else num_toks) num_tokens_main_model m p)
              0 (single_type_managers c) (coord_pool c))
       (\<lambda>(bs, ms, p). Inr (bs, with_managers ms p c))"

text \<open>\<^verbatim>\<open>cache_blocks\<close>; the request is passed along because the pool may memoise hashes in it.\<close>

fun cache_each ::
  "(bytes \<Rightarrow> bytes) \<Rightarrow> (kv_manager \<Rightarrow> int) \<Rightarrow> int option \<Rightarrow> request \<Rightarrow> kv_manager list \<Rightarrow> block_pool \<Rightarrow> (request \<times> kv_manager list \<times> block_pool) result" where
  "cache_each sha256 num_toks retention r [] p = Inr (r, [], p)"
| "cache_each sha256 num_toks retention r (m # ms) p =
     rbind (cache_blocks sha256 r (num_toks m) retention m p) (\<lambda>(r1, m', p').
     rbind (cache_each sha256 num_toks retention r1 ms p') (\<lambda>(r2, ms', p'').
       Inr (r2, m' # ms', p'')))"

definition hybrid_tokens_to_cache :: "coordinator \<Rightarrow> int \<Rightarrow> kv_manager \<Rightarrow> int" where
  "hybrid_tokens_to_cache c num_computed m =
     (let aligned = (if enable_partial_hash_hits c then num_computed
                     else num_computed div coord_scheduler_block_size c * coord_scheduler_block_size c)
      in if use_eagle m \<and> aligned > 0 then min num_computed (aligned + mblock_size m) else aligned)"

definition coord_cache_blocks ::
  "(bytes \<Rightarrow> bytes) \<Rightarrow> request \<Rightarrow> int \<Rightarrow> coordinator \<Rightarrow> (request \<times> coordinator) result" where
  "coord_cache_blocks sha256 r num_computed c =
     rbind (cache_each sha256
              (if coord_class c = HybridCoordinator then hybrid_tokens_to_cache c num_computed else (\<lambda>_. num_computed))
              (coord_retention_interval c) r (single_type_managers c) (coord_pool c))
       (\<lambda>(r', ms, p). Inr (r', with_managers ms p c))"

definition coord_free :: "string \<Rightarrow> coordinator \<Rightarrow> coordinator result" where
  "coord_free rid c =
     rbind (each_manager (\<lambda>i m p. rbind (free_request rid m p) (\<lambda>(m', p'). Inr ((), m', p'))) 0 (single_type_managers c) (coord_pool c))
       (\<lambda>(_, ms, p). Inr (with_managers ms p c))"

definition coord_pop_blocks_for_free :: "string \<Rightarrow> coordinator \<Rightarrow> block_ref list \<times> coordinator" where
  "coord_pop_blocks_for_free rid c =
     (let popped = map (pop_blocks_for_free rid) (single_type_managers c)
      in (concat (map fst popped), with_managers (map snd popped) (coord_pool c) c))"

definition coord_get_num_common_prefix_blocks :: "string \<Rightarrow> coordinator \<Rightarrow> int list \<times> coordinator" where
  "coord_get_num_common_prefix_blocks rid c =
     (if coord_class c = NoPrefixCacheCoordinator then (replicate (length (single_type_managers c)) 0, c)
      else (let res = map (\<lambda>m. get_num_common_prefix_blocks rid m (coord_pool c)) (single_type_managers c)
            in (map fst res, with_managers (map snd res) (coord_pool c) c)))"

definition coord_remove_skipped_blocks :: "string \<Rightarrow> int \<Rightarrow> int option \<Rightarrow> coordinator \<Rightarrow> coordinator result" where
  "coord_remove_skipped_blocks rid processed_computed_tokens num_prompt c =
     rbind (each_manager (\<lambda>i m p. rbind (remove_skipped_blocks rid processed_computed_tokens num_prompt m p)
                                   (\<lambda>(m', p'). Inr ((), m', p'))) 0 (single_type_managers c) (coord_pool c))
       (\<lambda>(_, ms, p). Inr (with_managers ms p c))"

definition coord_get_blocks :: "string \<Rightarrow> coordinator \<Rightarrow> block_ref list list" where
  "coord_get_blocks rid c = map (\<lambda>m. blocks_of m rid) (single_type_managers c)"

definition coord_new_step_starts :: "coordinator \<Rightarrow> coordinator" where
  "coord_new_step_starts c = c\<lparr>single_type_managers := map new_step_starts (single_type_managers c)\<rparr>"

section \<open>Prefix-cache hits\<close>

definition cache_hit_alignment_tokens :: "coordinator \<Rightarrow> int" where
  "cache_hit_alignment_tokens c = (if enable_partial_hash_hits c then coord_hash_block_size c else coord_scheduler_block_size c)"

definition supports_fine_grained_hash_lookup :: "kv_cache_spec \<Rightarrow> bool" where
  "supports_fine_grained_hash_lookup spec \<longleftrightarrow> is_full_attention spec \<or> is_mamba spec"

definition unitary_find_longest_cache_hit :: "coordinator \<Rightarrow> block_hash_list \<Rightarrow> int \<Rightarrow> (block_ref list list \<times> int \<times> int) result" where
  "unitary_find_longest_cache_hit c hashes max_cache_hit_length =
     rbind (py_nth (kv_cache_groups (coord_config c)) 0) (\<lambda>g.
     rbind (find_longest_cache_hit hashes max_cache_hit_length [0] (coord_pool c) (gspec g) (0 \<in> set (eagle_group_ids c))
              (coord_block_size c) (coord_dcp_world_size c)) (\<lambda>(hit_blocks, hit_length).
       Inr (hit_blocks, hit_length, 0)))"

text \<open>The variables of the fixed-point loop of \<^verbatim>\<open>HybridKVCacheCoordinator.find_longest_cache_hit\<close>.\<close>

record hit_state =
  hit_blocks_by_group :: "block_ref list option list"
  hit_length_by_group :: "int list"
  longest_hit_length :: int
  eagle_verified :: "nat list"
  curr_hit_length :: int

text \<open>\<open>for group_id, blocks in zip(group_ids, hit_blocks)\<close>.\<close>

fun store_hits :: "nat list \<Rightarrow> block_ref list list \<Rightarrow> int \<Rightarrow> hit_state \<Rightarrow> hit_state" where
  "store_hits (g # gs) (b # bs) n st =
     store_hits gs bs n (st\<lparr>hit_blocks_by_group := (hit_blocks_by_group st)[g := Some b],
                            hit_length_by_group := (hit_length_by_group st)[g := n]\<rparr>)"
| "store_hits _ _ n st = st"

definition group_block_size :: "coordinator \<Rightarrow> spec_group \<Rightarrow> int" where
  "group_block_size c sg = mblock_size (single_type_managers c ! hd (sg_group_ids sg))"

definition eagle_margin :: "coordinator \<Rightarrow> spec_group \<Rightarrow> int" where
  "eagle_margin c sg =
     (if enable_partial_hash_hits c \<and> supports_fine_grained_hash_lookup (sg_spec sg) \<and> group_block_size c sg > coord_hash_block_size c
      then coord_hash_block_size c else group_block_size c sg)"

definition hybrid_group_step ::
  "coordinator \<Rightarrow> block_hash_list \<Rightarrow> int \<Rightarrow> nat \<Rightarrow> spec_group \<Rightarrow> hit_state \<Rightarrow> hit_state result" where
  "hybrid_group_step c hashes max_cache_hit_length idx sg st =
     (let first_group_id = hd (sg_group_ids sg); spec = sg_spec sg
      in if is_full_attention spec \<and> hit_blocks_by_group st ! first_group_id \<noteq> None
         then Inr (st\<lparr>curr_hit_length := min (curr_hit_length st) (hit_length_by_group st ! first_group_id)\<rparr>)
         else (let drop_eagle_block = (sg_use_eagle sg \<and> idx \<notin> set (eagle_verified st));
                   max_length = (if drop_eagle_block \<and> \<not> is_mamba spec
                                 then min (curr_hit_length st + eagle_margin c sg) max_cache_hit_length else curr_hit_length st)
               in rbind (find_longest_cache_hit hashes max_length (map int (sg_group_ids sg)) (coord_pool c) spec drop_eagle_block
                           (cache_hit_alignment_tokens c) (if is_full_attention spec then coord_dcp_world_size c else 1))
                    (\<lambda>(hit_blocks, new_hit_length).
                       let st1 = st\<lparr>eagle_verified := (if drop_eagle_block then set_add idx (eagle_verified st)
                                                       else if new_hit_length < curr_hit_length st then [] else eagle_verified st),
                                    curr_hit_length := new_hit_length\<rparr>;
                           st2 = store_hits (sg_group_ids sg) hit_blocks new_hit_length st1
                       in Inr (st2\<lparr>longest_hit_length := max (longest_hit_length st2) new_hit_length\<rparr>))))"

fun hybrid_pass :: "coordinator \<Rightarrow> block_hash_list \<Rightarrow> int \<Rightarrow> nat \<Rightarrow> spec_group list \<Rightarrow> hit_state \<Rightarrow> hit_state result" where
  "hybrid_pass c hashes mx idx [] st = Inr st"
| "hybrid_pass c hashes mx idx (sg # sgs) st =
     rbind (hybrid_group_step c hashes mx idx sg st) (hybrid_pass c hashes mx (Suc idx) sgs)"

text \<open>\<open>while True\<close>: nothing stops it but the lengths, so not to return is the value \<open>None\<close>.\<close>

partial_function (option) hybrid_loop ::
  "coordinator \<Rightarrow> block_hash_list \<Rightarrow> int \<Rightarrow> bool \<Rightarrow> hit_state \<Rightarrow> int \<Rightarrow> (hit_state \<times> int) result option" where
  "hybrid_loop c hashes mx simple st hit_length =
     (case hybrid_pass c hashes mx 0 (attention_groups c) (st\<lparr>curr_hit_length := hit_length\<rparr>) of
        Inl e \<Rightarrow> Some (Inl e)
      | Inr st' \<Rightarrow>
          if curr_hit_length st' \<ge> hit_length then Some (Inr (st', hit_length))
          else if simple then Some (Inr (st', curr_hit_length st'))
          else hybrid_loop c hashes mx simple st' (curr_hit_length st'))"

definition is_simple_hybrid :: "coordinator \<Rightarrow> bool" where
  "is_simple_hybrid c \<longleftrightarrow> length (attention_groups c) = 2 \<and> is_full_attention (sg_spec (attention_groups c ! 0))"

definition truncate_full_blocks :: "coordinator \<Rightarrow> int \<Rightarrow> hit_state \<Rightarrow> hit_state" where
  "truncate_full_blocks c hit_length st =
     (let first_group = hd (attention_groups c)
      in if is_full_attention (sg_spec first_group)
         then (let num = cdiv hit_length (group_block_size c first_group)
               in fold (\<lambda>g s. case hit_blocks_by_group s ! g of
                            None \<Rightarrow> s
                          | Some blks \<Rightarrow> s\<lparr>hit_blocks_by_group := (hit_blocks_by_group s)[g := Some (py_take blks num)],
                                          hit_length_by_group := (hit_length_by_group s)[g := hit_length]\<rparr>)
                    (sg_group_ids first_group) st)
         else st)"

definition hybrid_find_longest_cache_hit ::
  "coordinator \<Rightarrow> block_hash_list \<Rightarrow> int \<Rightarrow> (block_ref list list \<times> int \<times> int) result option" where
  "hybrid_find_longest_cache_hit c hashes max_cache_hit_length =
     (let num_groups = length (kv_cache_groups (coord_config c));
          start = \<lparr>hit_blocks_by_group = replicate num_groups None, hit_length_by_group = replicate num_groups 0,
                   longest_hit_length = 0, eagle_verified = [], curr_hit_length = max_cache_hit_length\<rparr>
      in case hybrid_loop c hashes max_cache_hit_length (is_simple_hybrid c) start max_cache_hit_length of
           None \<Rightarrow> None
         | Some (Inl e) \<Rightarrow> Some (Inl e)
         | Some (Inr (st, hit_length)) \<Rightarrow>
             Some (Inr (map (\<lambda>b. case b of None \<Rightarrow> [] | Some blks \<Rightarrow> blks) (hit_blocks_by_group (truncate_full_blocks c hit_length st)),
                        hit_length, longest_hit_length st - hit_length)))"

definition coord_find_longest_cache_hit ::
  "coordinator \<Rightarrow> block_hash_list \<Rightarrow> int \<Rightarrow> (block_ref list list \<times> int \<times> int) result option" where
  "coord_find_longest_cache_hit c hashes max_cache_hit_length =
     (case coord_class c of
        NoPrefixCacheCoordinator \<Rightarrow> Some (Inr (replicate (length (single_type_managers c)) [], 0, 0))
      | UnitaryCoordinator \<Rightarrow> Some (unitary_find_longest_cache_hit c hashes max_cache_hit_length)
      | HybridCoordinator \<Rightarrow> hybrid_find_longest_cache_hit c hashes max_cache_hit_length)"

text \<open>Each group on its own; the default of 1 for the context-parallel size is used here.\<close>

fun per_group_hits ::
  "coordinator \<Rightarrow> block_hash_list \<Rightarrow> int \<Rightarrow> spec_group list \<Rightarrow> hit_state \<Rightarrow> hit_state result" where
  "per_group_hits c hashes mx [] st = Inr st"
| "per_group_hits c hashes mx (sg # sgs) st =
     rbind (find_longest_cache_hit hashes mx (map int (sg_group_ids sg)) (coord_pool c) (sg_spec sg) (sg_use_eagle sg)
              (cache_hit_alignment_tokens c) 1) (\<lambda>(blks, group_hit).
       per_group_hits c hashes mx sgs (store_hits (sg_group_ids sg) blks group_hit st))"

definition find_longest_cache_hit_per_group ::
  "coordinator \<Rightarrow> block_hash_list \<Rightarrow> int \<Rightarrow> (block_ref list list \<times> int list) result" where
  "find_longest_cache_hit_per_group c hashes max_cache_hit_length =
     (let num_groups = length (kv_cache_groups (coord_config c));
          start = \<lparr>hit_blocks_by_group = replicate num_groups (Some []), hit_length_by_group = replicate num_groups 0,
                   longest_hit_length = 0, eagle_verified = [], curr_hit_length = 0\<rparr>
      in rbind (per_group_hits c hashes max_cache_hit_length (attention_groups c) start) (\<lambda>st.
           Inr (map (\<lambda>b. case b of None \<Rightarrow> [] | Some blks \<Rightarrow> blks) (hit_blocks_by_group st), hit_length_by_group st)))"

end
