(* ===== verification/Manager_Refs.thy ===== *)
theory Manager_Refs
  imports Single_Type_Manager
begin

text \<open>
  Reference accounting.  A manager holds one reference on a block for each place of the block in its block tables
  and one on either end of each queued copy.  Every operation of a manager changes the reference counts in the
  pool by what it changes in its holdings, so the counts are exact for any number of managers on one pool.
\<close>

section \<open>Counting in lists\<close>

lemma count_list_distinct: "distinct xs \<Longrightarrow> count_list xs x = (if x \<in> set xs then 1 else 0)"
  by (induction xs) auto

lemma count_list_update: "i < length xs \<Longrightarrow>
    count_list (xs[i := v]) b + (if xs ! i = b then 1 else 0) = count_list xs b + (if v = b then 1 else 0)"
proof (induction xs arbitrary: i)
  case (Cons x xs)
  show ?case
  proof (cases i)
    case (Suc j)
    then show ?thesis using Cons.IH[of j] Cons.prems by (cases "x = b") simp_all
  qed simp
qed simp

lemma count_list_replicate: "count_list (replicate n x) b = (if x = b then n else 0)"
  by (induction n) auto

section \<open>What an operation does to the pool\<close>

text \<open>\<open>pool_delta p d p'\<close>: from a pool to a consistent pool, with the reference counts changed by \<open>d\<close>.\<close>

definition pool_delta :: "block_pool \<Rightarrow> (block_ref \<Rightarrow> int) \<Rightarrow> block_pool \<Rightarrow> bool" where
  "pool_delta p d p' \<longleftrightarrow> (\<exists>xs. pool_inv xs p') \<and> all_blocks p' = all_blocks p \<and> enable_caching p' = enable_caching p \<and>
     hash_block_size p' = hash_block_size p \<and> num_gpu_blocks p' = num_gpu_blocks p \<and>
     (\<forall>b\<in>set (all_blocks p). b \<noteq> Block 0 \<longrightarrow> ref_cnt (blocks p' b) = ref_cnt (blocks p b) + d b)"

lemma pool_delta_refl: "pool_inv xs p \<Longrightarrow> pool_delta p (\<lambda>_. 0) p"
  by (auto simp: pool_delta_def)

lemma pool_delta_trans: "pool_delta p d p1 \<Longrightarrow> pool_delta p1 d' p2 \<Longrightarrow> pool_delta p (\<lambda>b. d b + d' b) p2"
  by (simp add: pool_delta_def)

lemma pool_delta_cong: "pool_delta p d p' \<Longrightarrow> (\<And>b. b \<noteq> Block 0 \<Longrightarrow> d b = d' b) \<Longrightarrow> pool_delta p d' p'"
  by (simp add: pool_delta_def)

lemma pool_delta_same_alloc: "pool_inv xs p' \<Longrightarrow> same_alloc p p' \<Longrightarrow> pool_delta p (\<lambda>_. 0) p'"
  by (auto simp: pool_delta_def same_alloc_def all_blocks_def)

lemma null_is_Block_0: "pool_inv xs p \<Longrightarrow> null_block p = Block 0"
  by (rule pool_invD(3))

lemma get_new_blocks_delta:
  assumes "get_new_blocks n p = Inr (bs, p')" and "pool_inv xs p" and "0 \<le> n"
  shows "pool_delta p (\<lambda>b. int (count_list bs b)) p' \<and> length bs = nat n \<and> distinct bs \<and>
    set bs \<subseteq> set (all_blocks p) - {Block 0} \<and> (\<forall>b\<in>set bs. ref_cnt (blocks p b) = 0 \<and> ref_cnt (blocks p' b) = 1) \<and>
    (enable_caching p \<longrightarrow> (\<forall>b\<in>set bs. bhash (blocks p' b) = None)) \<and> null_block p' = null_block p"
proof -
  have n: "n \<le> int (length xs)"
    using get_new_blocks_short[OF assms(2), of n] assms(1) by (cases "int (length xs) < n") simp_all
  from get_new_blocks_spec[OF assms(2,3) n] obtain p1 where p1: "get_new_blocks n p = Inr (take (nat n) xs, p1)"
    "pool_inv (drop (nat n) xs) p1" "frame (set (take (nat n) xs)) p p1"
    "\<forall>b\<in>set (take (nat n) xs). ref_cnt (blocks p1 b) = 1 \<and> block_keys b p1 = (if enable_caching p then [] else block_keys b p)"
    by blast
  then have eq: "bs = take (nat n) xs" "p1 = p'" using assms(1) by simp_all
  have q: "queue_ok {} xs p" by (rule pool_invD(1)[OF assms(2)])
  have dist: "distinct bs" using queue_okD(7)[OF q] by (simp add: eq)
  have sub: "set bs \<subseteq> set xs" by (simp add: eq set_take_subset)
  have zero: "b \<in> set (all_blocks p) \<and> b \<noteq> Block 0 \<and> ref_cnt (blocks p b) = 0" if "b \<in> set bs" for b
    using queue_okD(3)[OF q, of b] sub that by auto
  have "ref_cnt (blocks p' b) = ref_cnt (blocks p b) + int (count_list bs b)" if b: "b \<in> set (all_blocks p)" for b
  proof (cases "b \<in> set bs")
    case True
    then have "count_list bs b = 1" using dist by (simp add: count_list_distinct)
    then show ?thesis using p1(4) zero[OF True] True by (simp add: eq)
  next
    case False
    then have "count_list bs b = 0" by (simp add: count_list_0_iff)
    then show ?thesis using p1(3) b False by (simp add: frame_def eq)
  qed
  moreover have "bhash (blocks p' b) = None" if "b \<in> set bs" "enable_caching p" for b
    using p1(4) that block_keys_empty_iff[OF pool_invD(2)[OF p1(2)], of b] zero[OF that(1)] frame_all_blocks[OF p1(3)]
    by (auto simp: eq)
  moreover have "null_block p' = null_block p" using null_is_Block_0[OF assms(2)] null_is_Block_0[OF p1(2)] eq by simp
  ultimately show ?thesis
    using p1 n assms(3) dist zero frame_all_blocks[OF p1(3)] unfolding pool_delta_def
    by (auto simp: eq frame_def)
qed


lemma touch_delta:
  assumes "touch bs p = Inr p'" and "pool_inv xs p" and "set bs \<subseteq> set (all_blocks p)"
  shows "pool_delta p (\<lambda>b. int (count_list bs b)) p'"
  using touch_spec[OF assms(2,3)] assms(1) frame_all_blocks[of "set bs" p p'] by (auto simp: pool_delta_def frame_def)

lemma free_delta:
  assumes "free_blocks bs p = Inr p'" and "pool_inv xs p" and "may_free bs p"
  shows "pool_delta p (\<lambda>b. - int (count_list bs b)) p'"
  using free_blocks_spec[OF assms(2,3)] assms(1) by (auto simp: pool_delta_def same_index_def all_blocks_def)

text \<open>Another reference on a block that is in use.\<close>

lemma ref_delta:
  assumes "pool_inv xs p" and "0 < ref_cnt (blocks p b)"
  shows "pool_delta p (\<lambda>c. if c = b then 1 else 0) (upd_block b (\<lambda>blk. blk\<lparr>ref_cnt := ref_cnt blk + 1\<rparr>) p)"
proof -
  let ?p = "upd_block b (\<lambda>blk. blk\<lparr>ref_cnt := ref_cnt blk + 1\<rparr>) p"
  have q: "queue_ok {} xs p" by (rule pool_invD(1)[OF assms(1)])
  have all: "all_blocks ?p = all_blocks p" by (simp add: all_blocks_def)
  have "queue_ok {} xs ?p"
    using q assms(2) unfolding queue_ok_def all by auto
  moreover have "index_ok ?p" by (rule index_ok_same_index[OF same_index_set_ref pool_invD(2)[OF assms(1)]])
  ultimately show ?thesis using all by (auto simp: pool_delta_def pool_inv_def)
qed

section \<open>Holdings\<close>

definition copy_ends :: "kv_manager \<Rightarrow> block_ref list" where
  "copy_ends m = map fst (pending_cow_copies m) @ map snd (pending_cow_copies m)"

definition held :: "kv_manager \<Rightarrow> block_ref \<Rightarrow> nat" where
  "held m b = dict_sum (\<lambda>bs. count_list bs b) (req_to_blocks m) + count_list (copy_ends m) b"

text \<open>
  The blocks named in the tables of a manager are blocks of the pool, and a table names a block other
  than the null block once.
\<close>

definition table_ok :: "kv_manager \<Rightarrow> block_pool \<Rightarrow> bool" where
  "table_ok m p \<longleftrightarrow> dict_wf (req_to_blocks m) \<and> (\<forall>rid. set (blocks_of m rid) \<subseteq> set (all_blocks p)) \<and>
     set (copy_ends m) \<subseteq> set (all_blocks p) \<and> (\<forall>rid b. b \<noteq> Block 0 \<longrightarrow> count_list (blocks_of m rid) b \<le> 1)"

text \<open>
  Besides the manager, others hold \<open>ext b\<close> references on block \<open>b\<close>.  No operation changes the blocks of the pool
  or whether it caches; \<open>c\<close> records both.
\<close>

definition pool_shape :: "block_pool \<Rightarrow> block_ref list \<times> bool" where
  "pool_shape p = (all_blocks p, enable_caching p)"

definition mgr_refs :: "block_ref list \<times> bool \<Rightarrow> (block_ref \<Rightarrow> nat) \<Rightarrow> kv_manager \<Rightarrow> block_pool \<Rightarrow> bool" where
  "mgr_refs c ext m p \<longleftrightarrow> pool_shape p = c \<and> (\<exists>xs. pool_inv xs p) \<and> table_ok m p \<and>
     (\<forall>b\<in>set (all_blocks p). b \<noteq> Block 0 \<longrightarrow> ref_cnt (blocks p b) = int (ext b + held m b))"

lemma refs_okE:
  assumes "mgr_refs c ext m p"
  obtains xs where "pool_inv xs p" "null_block p = Block 0" "dict_wf (req_to_blocks m)"
    "\<forall>rid. set (blocks_of m rid) \<subseteq> set (all_blocks p)" "set (copy_ends m) \<subseteq> set (all_blocks p)"
    "\<forall>rid b. b \<noteq> Block 0 \<longrightarrow> count_list (blocks_of m rid) b \<le> 1"
    "\<forall>b\<in>set (all_blocks p). b \<noteq> Block 0 \<longrightarrow> ref_cnt (blocks p b) = int (ext b + held m b)"
  using assms null_is_Block_0 unfolding mgr_refs_def table_ok_def by blast

lemma refs_ok_change:
  assumes "mgr_refs c ext m p" and "pool_delta p d p'" and "table_ok m' p"
    and "\<And>b. b \<noteq> Block 0 \<Longrightarrow> int (ext' b + held m' b) = int (ext b + held m b) + d b"
  shows "mgr_refs c ext' m' p'"
  using assms unfolding mgr_refs_def pool_delta_def table_ok_def pool_shape_def by auto

lemma refs_ok_step:
  assumes "mgr_refs c ext m p" and "pool_delta p d p'" and "table_ok m' p"
    and "\<And>b. b \<noteq> Block 0 \<Longrightarrow> int (held m' b) = int (held m b) + d b"
  shows "mgr_refs c ext m' p'"
  by (rule refs_ok_change[OF assms(1-3)]) (use assms(4) in simp)

lemma held_set_blocks:
  assumes "dict_wf (req_to_blocks m)"
  shows "held (set_blocks rid bs m) b + count_list (blocks_of m rid) b = held m b + count_list bs b"
  using dict_sum_set[OF assms, of "\<lambda>bs. count_list bs b" "[]" rid bs]
  by (simp add: held_def set_blocks_def blocks_of_def copy_ends_def)

lemma blocks_of_set_blocks [simp]: "blocks_of (set_blocks rid bs m) rid' = (if rid' = rid then bs else blocks_of m rid')"
  by (simp add: blocks_of_def set_blocks_def)

lemma set_blocks_simps [simp]:
  "copy_ends (set_blocks rid bs m) = copy_ends m" "pending_cow_copies (set_blocks rid bs m) = pending_cow_copies m"
  "mspec (set_blocks rid bs m) = mspec m" "mblock_size (set_blocks rid bs m) = mblock_size m"
  "partial_hit_reqs (set_blocks rid bs m) = partial_hit_reqs m" "num_cached_block (set_blocks rid bs m) = num_cached_block m"
  "new_block_ids (set_blocks rid bs m) = new_block_ids m" "record_new_block_ids (set_blocks rid bs m) = record_new_block_ids m"
  "m_enable_caching (set_blocks rid bs m) = m_enable_caching m"
  by (simp_all add: set_blocks_def copy_ends_def)

lemma set_blocks_wf [simp]: "dict_wf (req_to_blocks m) \<Longrightarrow> dict_wf (req_to_blocks (set_blocks rid bs m))"
  by (simp add: set_blocks_def)

text \<open>Updates of the other fields change neither the tables nor the holdings.\<close>

lemma held_cong: "req_to_blocks m' = req_to_blocks m \<Longrightarrow> pending_cow_copies m' = pending_cow_copies m \<Longrightarrow> held m' b = held m b"
  by (simp add: held_def copy_ends_def)

lemma table_ok_cong: "req_to_blocks m' = req_to_blocks m \<Longrightarrow> pending_cow_copies m' = pending_cow_copies m \<Longrightarrow> table_ok m' p = table_ok m p"
  by (simp add: table_ok_def copy_ends_def blocks_of_def)

lemma refs_ok_fields: "req_to_blocks m' = req_to_blocks m \<Longrightarrow> pending_cow_copies m' = pending_cow_copies m \<Longrightarrow> mgr_refs c ext m' p = mgr_refs c ext m p"
  using held_cong[of m' m] table_ok_cong[of m' m p] by (simp add: mgr_refs_def)

lemma refs_ok_setdefault: "mgr_refs c ext m p \<Longrightarrow> mgr_refs c ext (m\<lparr>req_to_blocks := dict_setdefault rid [] (req_to_blocks m)\<rparr>) p"
  by (simp add: mgr_refs_def table_ok_def held_def copy_ends_def blocks_of_def)

lemma table_ok_set_blocks:
  "table_ok m p \<Longrightarrow> set bs \<subseteq> set (all_blocks p) \<Longrightarrow> (\<And>b. b \<noteq> Block 0 \<Longrightarrow> count_list bs b \<le> 1) \<Longrightarrow> table_ok (set_blocks rid bs m) p"
  by (simp add: table_ok_def)

text \<open>A table entry replaced by another, with the pool changed accordingly.\<close>

lemma refs_ok_set_blocks:
  assumes "mgr_refs c ext m p" and "pool_delta p d p'" and "set bs \<subseteq> set (all_blocks p)"
    and "\<And>b. b \<noteq> Block 0 \<Longrightarrow> int (count_list bs b) = int (count_list (blocks_of m rid) b) + d b \<and> count_list bs b \<le> 1"
  shows "mgr_refs c ext (set_blocks rid bs m) p'"
proof (rule refs_ok_step[OF assms(1,2)])
  have t: "table_ok m p" using assms(1) by (simp add: mgr_refs_def)
  show "table_ok (set_blocks rid bs m) p" by (rule table_ok_set_blocks[OF t assms(3)]) (use assms(4) in simp)
  show "int (held (set_blocks rid bs m) b) = int (held m b) + d b" if "b \<noteq> Block 0" for b
    using held_set_blocks[of m rid bs b] assms(4)[OF that] t by (simp add: table_ok_def)
qed


text \<open>A free block is in no table and not an end of a queued copy.\<close>

lemma free_block_not_held:
  assumes "mgr_refs c ext m p" and "b \<in> set (all_blocks p)" and "b \<noteq> Block 0" and "ref_cnt (blocks p b) = 0"
  shows "ext b = 0" and "held m b = 0" and "count_list (blocks_of m rid) b = 0"
proof -
  have wf: "dict_wf (req_to_blocks m)" and "ext b = 0 \<and> held m b = 0"
    using assms by (auto simp: mgr_refs_def table_ok_def)
  then show "ext b = 0" and "held m b = 0" by simp_all
  then show "count_list (blocks_of m rid) b = 0"
    using held_set_blocks[OF wf, of rid "[]" b] by simp
qed

text \<open>What a table holds is at most what the manager holds.\<close>

lemma count_le_held: "dict_wf (req_to_blocks m) \<Longrightarrow> count_list (blocks_of m rid) b \<le> held m b"
  using held_set_blocks[of m rid "[]" b] by simp

section \<open>The operations keep the accounting\<close>

lemma append_new_blocks_refs:
  assumes ok: "mgr_refs c ext m p" and run: "get_new_blocks n p = Inr (bs, p')" and n: "0 \<le> n"
  shows "mgr_refs c ext (set_blocks rid (blocks_of m rid @ bs) m) p'"
proof -
  obtain xs where inv: "pool_inv xs p" and sub: "\<forall>rid. set (blocks_of m rid) \<subseteq> set (all_blocks p)"
    and one: "\<forall>rid b. b \<noteq> Block 0 \<longrightarrow> count_list (blocks_of m rid) b \<le> 1"
    using ok by (rule refs_okE)
  note new = get_new_blocks_delta[OF run inv n]
  show ?thesis
  proof (rule refs_ok_set_blocks[OF ok])
    show "pool_delta p (\<lambda>b. int (count_list bs b)) p'" using new by blast
    show "set (blocks_of m rid @ bs) \<subseteq> set (all_blocks p)" using sub new by auto
    fix b assume nz: "b \<noteq> Block 0"
    have "count_list (blocks_of m rid) b + count_list bs b \<le> 1"
    proof (cases "b \<in> set bs")
      case True
      then have "count_list (blocks_of m rid) b = 0" using free_block_not_held(3)[OF ok _ nz] new by blast
      then show ?thesis using new True by (simp add: count_list_distinct)
    next
      case False
      then show ?thesis using one nz by simp
    qed
    then show "int (count_list (blocks_of m rid @ bs) b) = int (count_list (blocks_of m rid) b) + int (count_list bs b) \<and>
        count_list (blocks_of m rid @ bs) b \<le> 1" by simp
  qed
qed

lemma add_local_refs:
  assumes ok: "mgr_refs c ext m p" and run: "add_local_computed_blocks rid new nl ne m p = Inr (m', p')"
    and new: "set new \<subseteq> set (all_blocks p)" "distinct (filter (\<lambda>b. b \<noteq> Block 0) new)"
  shows "mgr_refs c ext m' p'"
proof (cases "is_cross_attention (mspec m)")
  case True
  then show ?thesis using ok run by (auto simp: add_local_computed_blocks_def py_assert_def split: if_splits)
next
  case False
  obtain xs where inv: "pool_inv xs p" and null: "null_block p = Block 0" using ok by (rule refs_okE)
  define skip where "skip = get_num_skipped_tokens (mspec m) (nl + ne) div mblock_size m"
  define computed where "computed = (if skip > 0 then py_drop new skip else new)"
  have comp: "\<exists>n. computed = drop n new"
    unfolding computed_def py_drop_def by (metis drop0)
  then have sub: "set computed \<subseteq> set (all_blocks p)" using new(1) set_drop_subset by fastforce
  have dist: "count_list computed b \<le> 1" if "b \<noteq> Block 0" for b
  proof -
    have "distinct (filter (\<lambda>b. b \<noteq> Block 0) computed)"
      using comp new(2) by (metis append_take_drop_id distinct_append filter_append)
    then have "count_list (filter (\<lambda>b. b \<noteq> Block 0) computed) b \<le> 1" by (simp add: count_list_distinct)
    moreover have "count_list (filter (\<lambda>b. b \<noteq> Block 0) computed) b = count_list computed b"
      using that by (induction computed) auto
    ultimately show ?thesis by simp
  qed
  have empty: "blocks_of m rid = []"
    using run False by (auto simp: add_local_computed_blocks_def py_assert_def split: if_splits)
  let ?bs = "replicate (nat skip) (null_block p) @ computed"
  obtain p1 where p1: "(if m_enable_caching m then touch computed p else py_assert (computed = []) (Inr p)) = Inr p1"
    and p': "p' = p1" and fields: "req_to_blocks m' = req_to_blocks (set_blocks rid ?bs m)" "pending_cow_copies m' = pending_cow_copies m"
    using run False empty unfolding add_local_computed_blocks_def Let_def skip_def[symmetric] computed_def[symmetric]
    by (auto elim!: rbindE split: if_splits)
  have delta: "pool_delta p (\<lambda>b. int (count_list computed b)) p1"
  proof (cases "m_enable_caching m")
    case True
    then show ?thesis using p1 touch_delta[OF _ inv sub] by simp
  next
    case False
    then have "computed = []" "p1 = p" using p1 by (auto simp: py_assert_def split: if_splits)
    then show ?thesis using pool_delta_refl[OF inv] by simp
  qed
  have "mgr_refs c ext (set_blocks rid ?bs m) p1"
  proof (rule refs_ok_set_blocks[OF ok delta])
    have "Block 0 \<in> set (all_blocks p)" using pool_invD(1)[OF inv] by (simp add: all_blocks_def queue_ok_def)
    then show "set ?bs \<subseteq> set (all_blocks p)" using sub null by auto
  qed (use null dist empty in \<open>simp add: count_list_replicate\<close>)
  then show ?thesis using refs_ok_fields[of m' "set_blocks rid ?bs m" c ext p1] fields p' by simp
qed

lemma allocate_external_refs:
  assumes ok: "mgr_refs c ext m p" and run: "allocate_external_computed_blocks rid nl ne m p = Inr (m', p')"
    and room: "int (length (blocks_of m rid)) \<le> cdiv (nl + ne) (mblock_size m)"
  shows "mgr_refs c ext m' p'"
proof -
  have "(m' = m \<and> p' = p) \<or> (\<exists>bs. get_new_blocks (cdiv (nl + ne) (mblock_size m) - int (length (blocks_of m rid))) p = Inr (bs, p') \<and>
      req_to_blocks m' = req_to_blocks (set_blocks rid (blocks_of m rid @ bs) m) \<and> pending_cow_copies m' = pending_cow_copies m)"
    using run unfolding allocate_external_computed_blocks_def Let_def by (auto elim!: rbindE split: if_splits)
  then show ?thesis
  proof (elim disjE exE conjE)
    fix bs assume "get_new_blocks (cdiv (nl + ne) (mblock_size m) - int (length (blocks_of m rid))) p = Inr (bs, p')"
      and fields: "req_to_blocks m' = req_to_blocks (set_blocks rid (blocks_of m rid @ bs) m)" "pending_cow_copies m' = pending_cow_copies m"
    from append_new_blocks_refs[OF ok this(1), of rid] show ?thesis
      using room refs_ok_fields[of m' "set_blocks rid (blocks_of m rid @ bs) m" c ext p'] fields by simp
  qed (use ok in simp)
qed


text \<open>Blocks taken from the pool by the caller are held by the caller.\<close>

lemma new_blocks_owed:
  assumes ok: "mgr_refs c ext m p" and run: "get_new_blocks n p = Inr (bs, p')" and n: "0 \<le> n"
  shows "mgr_refs c (\<lambda>b. ext b + count_list bs b) m p'"
proof -
  obtain xs where inv: "pool_inv xs p" using ok by (rule refs_okE)
  have "table_ok m p" using ok by (simp add: mgr_refs_def)
  then show ?thesis
    by (rule refs_ok_change[OF ok conjunct1[OF get_new_blocks_delta[OF run inv n]]]) simp
qed

lemma held_queue_copy: "held (m\<lparr>pending_cow_copies := pending_cow_copies m @ [(s, t)]\<rparr>) b =
    held m b + (if s = b then 1 else 0) + (if t = b then 1 else 0)"
  by (simp add: held_def copy_ends_def)

lemma table_ok_queue_copy:
  "table_ok m p \<Longrightarrow> s \<in> set (all_blocks p) \<Longrightarrow> t \<in> set (all_blocks p) \<Longrightarrow>
   table_ok (m\<lparr>pending_cow_copies := pending_cow_copies m @ [(s, t)]\<rparr>) p"
  by (auto simp: table_ok_def copy_ends_def blocks_of_def)

lemma held_update:
  assumes "dict_wf (req_to_blocks m)" and "i < length (blocks_of m rid)"
  shows "held (set_blocks rid ((blocks_of m rid)[i := v]) m) b + (if blocks_of m rid ! i = b then 1 else 0) =
    held m b + (if v = b then 1 else 0)"
  using held_set_blocks[OF assms(1), of rid "(blocks_of m rid)[i := v]" b] count_list_update[OF assms(2), of v b] by simp

lemma table_ok_update:
  assumes "table_ok m p" and "i < length (blocks_of m rid)" and "v \<in> set (all_blocks p)"
    and "v = Block 0 \<or> count_list (blocks_of m rid) v = 0"
  shows "table_ok (set_blocks rid ((blocks_of m rid)[i := v]) m) p"
proof (rule table_ok_set_blocks[OF assms(1)])
  show "set ((blocks_of m rid)[i := v]) \<subseteq> set (all_blocks p)"
    using assms(1,3) set_update_subset_insert[of "blocks_of m rid" i v] unfolding table_ok_def by blast
  fix b assume b: "b \<noteq> Block 0"
  have "count_list (blocks_of m rid) b \<le> 1" using assms(1) b by (simp add: table_ok_def)
  then show "count_list ((blocks_of m rid)[i := v]) b \<le> 1"
    using count_list_update[OF assms(2), of v b] assms(4) b by (cases "v = b") auto
qed

lemma py_set_ok: "0 \<le> i \<Longrightarrow> i < int (length xs) \<Longrightarrow> py_set xs i v = Inr (xs[nat i := v])"
  by (simp add: py_set_def)

lemma apply_cow_cases:
  assumes "apply_cow rid i src cow m p = Inr (m', p')" and "0 \<le> i"
  shows "nat i < length (blocks_of m rid) \<and> blocks_of m rid ! nat i = src \<and> \<not> is_null (blocks p src) \<and> 0 < ref_cnt (blocks p src) \<and>
    m' = (set_blocks rid ((blocks_of m rid)[nat i := cow]) m)\<lparr>pending_cow_copies := pending_cow_copies m @ [(src, cow)]\<rparr> \<and>
    p' = upd_block cow (\<lambda>blk. blk\<lparr>ref_cnt := ref_cnt blk + 1\<rparr>) p"
proof -
  have i: "i < int (length (blocks_of m rid))"
    using assms(1) by (auto simp: apply_cow_def py_assert_def split: if_splits)
  then have "nat i < length (blocks_of m rid)" using assms(2) by linarith
  then show ?thesis using assms i
    by (auto simp: apply_cow_def py_assert_def py_nth_ok py_set_ok split: if_splits elim!: rbindE)
qed

lemma apply_cow_refs:
  assumes ok: "mgr_refs c (\<lambda>b. ext b + count_list [cow] b) m p" and run: "apply_cow rid i src cow m p = Inr (m', p')"
    and i: "0 \<le> i" and cow: "cow \<noteq> Block 0" "cow \<in> set (all_blocks p)" "count_list (blocks_of m rid) cow = 0"
  shows "mgr_refs c ext m' p'"
proof -
  obtain xs where inv: "pool_inv xs p" and wf: "dict_wf (req_to_blocks m)"
    and sub: "\<forall>rid. set (blocks_of m rid) \<subseteq> set (all_blocks p)"
    and refs: "\<forall>b\<in>set (all_blocks p). b \<noteq> Block 0 \<longrightarrow> ref_cnt (blocks p b) = int (ext b + count_list [cow] b + held m b)"
    using ok by (rule refs_okE)
  have tab: "table_ok m p" using ok by (simp add: mgr_refs_def)
  let ?m1 = "set_blocks rid ((blocks_of m rid)[nat i := cow]) m"
  note run' = apply_cow_cases[OF run i]
  then have len: "nat i < length (blocks_of m rid)" and src: "blocks_of m rid ! nat i = src" by blast+
  have m': "m' = ?m1\<lparr>pending_cow_copies := pending_cow_copies ?m1 @ [(src, cow)]\<rparr>" using run' by simp
  have "src \<in> set (all_blocks p)" using sub src nth_mem[OF len] by blast
  moreover have "table_ok ?m1 p" using table_ok_update[OF tab len cow(2)] cow(3) by simp
  ultimately have t: "table_ok m' p" unfolding m' using cow(2) by (intro table_ok_queue_copy)
  have "0 < ref_cnt (blocks p cow)" using refs cow by simp
  then have d: "pool_delta p (\<lambda>b. if b = cow then 1 else 0) p'" using ref_delta[OF inv] run' by simp
  show ?thesis
  proof (rule refs_ok_change[OF ok d t])
    fix b assume "b \<noteq> Block 0"
    show "int (ext b + held m' b) = int (ext b + count_list [cow] b + held m b) + (if b = cow then 1 else 0)"
      using held_update[OF wf len, of cow b] src unfolding m' held_queue_copy by simp
  qed
qed

lemma redirect_refs:
  assumes ok: "mgr_refs c ext m p" and run: "redirect_partial_hit rid m p = Inr (cows, m', p')"
    and i: "\<And>i b. map_of (partial_hit_reqs m) rid = Some (i, b) \<Longrightarrow> 0 \<le> i"
  shows "mgr_refs c ext m' p'"
proof (cases "map_of (partial_hit_reqs m) rid")
  case None
  then show ?thesis using ok run by (simp add: redirect_partial_hit_def)
next
  case (Some h)
  obtain i src where h: "h = (i, src)" by (cases h)
  let ?m = "m\<lparr>partial_hit_reqs := dict_del rid (partial_hit_reqs m)\<rparr>"
  from run Some obtain bs p1 cow m1 where new: "get_new_blocks 1 p = Inr (bs, p1)" and cow: "py_nth bs 0 = Inr cow"
    and app: "apply_cow rid i src cow ?m p1 = Inr (m1, p')"
    and fields: "req_to_blocks m' = req_to_blocks m1" "pending_cow_copies m' = pending_cow_copies m1"
    by (auto simp: redirect_partial_hit_def h elim!: rbindE)
  obtain xs where inv: "pool_inv xs p" using ok by (rule refs_okE)
  note d = get_new_blocks_delta[OF new inv]
  then have bs: "bs = [cow]" using cow by (cases bs) (auto simp: py_nth_def)
  have ok1: "mgr_refs c (\<lambda>b. ext b + count_list [cow] b) ?m p1"
    using new_blocks_owed[OF ok new] refs_ok_fields[of ?m m] by (simp add: bs)
  have all: "all_blocks p1 = all_blocks p" using d by (simp add: pool_delta_def)
  have free: "cow \<in> set (all_blocks p)" "cow \<noteq> Block 0" "ref_cnt (blocks p cow) = 0" using d bs by auto
  have "mgr_refs c ext m1 p'"
    using apply_cow_refs[OF ok1 app] i Some h all free free_block_not_held(3)[OF ok free, of rid] by (simp add: blocks_of_def)
  then show ?thesis using refs_ok_fields[of m' m1] fields by simp
qed

lemma base_allocate_refs:
  assumes ok: "mgr_refs c ext m p" and run: "base_allocate_new_blocks rid n m p = Inr (out, m', p')"
    and i: "\<And>i b. map_of (partial_hit_reqs m) rid = Some (i, b) \<Longrightarrow> 0 \<le> i"
  shows "mgr_refs c ext m' p'"
proof -
  from run obtain cows m1 p1 where red: "redirect_partial_hit rid m p = Inr (cows, m1, p1)"
    and rest: "(m' = m1\<lparr>req_to_blocks := dict_setdefault rid [] (req_to_blocks m1)\<rparr> \<and> p' = p1) \<or>
      (\<exists>bs k. get_new_blocks k p1 = Inr (bs, p') \<and> 0 \<le> k \<and> req_to_blocks m' = req_to_blocks (set_blocks rid (blocks_of m1 rid @ bs) m1) \<and>
        pending_cow_copies m' = pending_cow_copies m1)"
    unfolding base_allocate_new_blocks_def Let_def by (fastforce elim!: rbindE split: if_splits)
  have ok1: "mgr_refs c ext m1 p1" by (rule redirect_refs[OF ok red i])
  from rest show ?thesis
  proof (elim disjE exE conjE)
    fix bs k assume new: "get_new_blocks k p1 = Inr (bs, p')" "0 \<le> k"
      and fields: "req_to_blocks m' = req_to_blocks (set_blocks rid (blocks_of m1 rid @ bs) m1)" "pending_cow_copies m' = pending_cow_copies m1"
    from append_new_blocks_refs[OF ok1 new] refs_ok_fields[of m' "set_blocks rid (blocks_of m1 rid @ bs) m1"] fields
    show ?thesis by simp
  qed (use ok1 refs_ok_setdefault in simp)
qed


subsection \<open>Releasing\<close>

lemma null_out_spec:
  assumes "null_out nb is bs freed = (bs', freed')" and "\<forall>i\<in>set is. 0 \<le> i \<and> i < int (length bs)"
  shows "length bs' = length bs \<and> set bs' \<subseteq> insert nb (set bs) \<and>
    (\<exists>out. freed' = freed @ out \<and> set out \<subseteq> set bs - {nb} \<and> (\<forall>b. b \<noteq> nb \<longrightarrow> count_list bs' b + count_list out b = count_list bs b)) \<and>
    (\<forall>j < length bs. int j \<notin> set is \<longrightarrow> bs' ! j = bs ! j) \<and> (\<forall>j < length bs. bs' ! j = bs ! j \<or> bs' ! j = nb)"
  using assms
proof (induction "is" arbitrary: bs freed)
  case (Cons i "is")
  show ?case
  proof (cases "bs ! nat i = nb")
    case True
    then show ?thesis using Cons.prems(1) by auto
  next
    case False
    let ?bs = "bs[nat i := nb]"
    have i: "nat i < length bs" "0 \<le> i" using Cons.prems(2) by auto
    from Cons.IH[of ?bs "freed @ [bs ! nat i]"] Cons.prems False obtain out
      where IH: "length bs' = length ?bs" "set bs' \<subseteq> insert nb (set ?bs)" "freed' = (freed @ [bs ! nat i]) @ out"
        "set out \<subseteq> set ?bs - {nb}" "\<forall>b. b \<noteq> nb \<longrightarrow> count_list bs' b + count_list out b = count_list ?bs b"
        "\<forall>j < length ?bs. int j \<notin> set is \<longrightarrow> bs' ! j = ?bs ! j" "\<forall>j < length ?bs. bs' ! j = ?bs ! j \<or> bs' ! j = nb"
      by auto
    have upd: "set ?bs \<subseteq> insert nb (set bs)" by (rule set_update_subset_insert)
    have "count_list bs' b + count_list (bs ! nat i # out) b = count_list bs b" if "b \<noteq> nb" for b
      using IH(5) that count_list_update[OF i(1), of nb b] by (auto split: if_splits)
    moreover have "set (bs ! nat i # out) \<subseteq> set bs - {nb}" using IH(4) upd nth_mem[OF i(1)] False by auto
    ultimately have "\<exists>out. freed' = freed @ out \<and> set out \<subseteq> set bs - {nb} \<and>
        (\<forall>b. b \<noteq> nb \<longrightarrow> count_list bs' b + count_list out b = count_list bs b)"
      using IH(3) by (intro exI[of _ "bs ! nat i # out"]) simp
    moreover have "\<forall>j < length bs. int j \<notin> set (i # is) \<longrightarrow> bs' ! j = bs ! j"
      using IH(6) i(2) by (auto simp: nth_list_update)
    moreover have "\<forall>j < length bs. bs' ! j = bs ! j \<or> bs' ! j = nb"
      using IH(7) i by (auto simp: nth_list_update split: if_splits)
    ultimately show ?thesis using IH(1,2) upd by auto
  qed
qed auto

text \<open>What a manager holds may be freed.\<close>

lemma may_free_held:
  assumes ok: "mgr_refs c ext m p" and "set bs \<subseteq> set (all_blocks p)"
    and le: "\<And>b. b \<noteq> Block 0 \<Longrightarrow> count_list bs b \<le> ext b + held m b"
  shows "may_free bs p"
proof -
  obtain xs where refs: "\<forall>b\<in>set (all_blocks p). b \<noteq> Block 0 \<longrightarrow> ref_cnt (blocks p b) = int (ext b + held m b)"
    using ok by (rule refs_okE)
  show ?thesis unfolding may_free_def
  proof (intro conjI ballI impI)
    fix b assume b: "b \<in> set bs" and nz: "b \<noteq> Block 0"
    then have "ref_cnt (blocks p b) = int (ext b + held m b)" using refs assms(2) by blast
    then show "int (count_list bs b) \<le> ref_cnt (blocks p b)" using le[OF nz] by linarith
  qed (rule assms(2))
qed

text \<open>Freeing a part of a table and leaving the rest.\<close>

lemma free_part_refs:
  assumes ok: "mgr_refs c ext m p" and free: "free_blocks out p = Inr p'"
    and bs: "set bs \<subseteq> set (all_blocks p)" "set out \<subseteq> set (all_blocks p)"
    and part: "\<And>b. b \<noteq> Block 0 \<Longrightarrow> count_list bs b + count_list out b = count_list (blocks_of m rid) b"
  shows "mgr_refs c ext (set_blocks rid bs m) p'"
proof -
  obtain xs where inv: "pool_inv xs p" and wf: "dict_wf (req_to_blocks m)"
    and one: "\<forall>rid b. b \<noteq> Block 0 \<longrightarrow> count_list (blocks_of m rid) b \<le> 1"
    using ok by (rule refs_okE)
  have "count_list out b \<le> ext b + held m b" if "b \<noteq> Block 0" for b
    using part[OF that] count_le_held[OF wf, of rid b] by linarith
  then have "may_free out p" by (rule may_free_held[OF ok bs(2)])
  from free_delta[OF free inv this] show ?thesis
  proof (rule refs_ok_set_blocks[OF ok _ bs(1)])
    fix b assume nz: "b \<noteq> Block 0"
    then have "count_list (blocks_of m rid) b \<le> 1" using one by blast
    then show "int (count_list bs b) = int (count_list (blocks_of m rid) b) + - int (count_list out b) \<and> count_list bs b \<le> 1"
      using part[OF nz] by linarith
  qed
qed

lemma Block_0_in_pool: "pool_inv xs p \<Longrightarrow> Block 0 \<in> set (all_blocks p)"
  using pool_invD(1)[of xs p] by (simp add: all_blocks_def queue_ok_def)

lemma free_blocks_Nil: "free_blocks [] p = Inr p"
  by (simp add: free_blocks_def prepend_n_def append_n_def)

lemma remove_range_refs:
  assumes ok: "mgr_refs c ext m p" and run: "remove_blocks_in_range rid a l m p = Inr (m', p')" and a: "0 \<le> a"
  shows "mgr_refs c ext m' p'"
proof -
  obtain xs where inv: "pool_inv xs p" and null: "null_block p = Block 0"
    and sub: "\<forall>rid. set (blocks_of m rid) \<subseteq> set (all_blocks p)"
    using ok by (rule refs_okE)
  define ps where "ps = rev [a..min l (int (length (blocks_of m rid))) - 1]"
  obtain bs out where no: "null_out (Block 0) ps (blocks_of m rid) [] = (bs, out)" by (cases "null_out (Block 0) ps (blocks_of m rid) []")
  have "\<forall>i\<in>set ps. 0 \<le> i \<and> i < int (length (blocks_of m rid))" using a by (auto simp: ps_def)
  note spec = null_out_spec[OF no this]
  from run consider "m' = m" "p' = p" | "free_blocks out p = Inr p'" "m' = set_blocks rid bs m"
    using no unfolding remove_blocks_in_range_def Let_def null ps_def[symmetric]
    by (auto simp: free_blocks_Nil split: if_splits elim!: rbindE)
  then show ?thesis
  proof cases
    case 2
    have "set bs \<subseteq> set (all_blocks p)" "set out \<subseteq> set (all_blocks p)"
      using spec sub Block_0_in_pool[OF inv] by auto
    from free_part_refs[OF ok 2(1) this, of rid] show ?thesis using spec 2(2) by auto
  qed (use ok in simp)
qed

lemma skipped_in_range:
  assumes "base_remove_skipped_blocks rid n m p = Inr (m', p')"
  shows "(m' = m \<and> p' = p) \<or> (\<exists>k. remove_blocks_in_range rid 0 k (m\<lparr>req_to_blocks := dict_setdefault rid [] (req_to_blocks m)\<rparr>) p = Inr (m', p'))"
  using assms by (auto simp: base_remove_skipped_blocks_def Let_def split: if_splits)

lemma base_remove_skipped_refs:
  assumes ok: "mgr_refs c ext m p" and run: "base_remove_skipped_blocks rid n m p = Inr (m', p')"
  shows "mgr_refs c ext m' p'"
  using skipped_in_range[OF run] ok remove_range_refs[OF refs_ok_setdefault[OF ok]] by auto

lemma mamba_remove_cases:
  assumes run: "mamba_remove_skipped_blocks rid n m p = Inr (m', p')" and base: "base_remove_skipped_blocks rid n m p = Inr (m1, p1)"
  obtains "m' = m1" "p' = p1" | "m' = m1\<lparr>req_to_blocks := dict_setdefault rid [] (req_to_blocks m1)\<rparr>" "p' = p1"
  | idx b bs where "py_nth (blocks_of (m1\<lparr>req_to_blocks := dict_setdefault rid [] (req_to_blocks m1)\<rparr>) rid) idx = Inr b"
      "b \<noteq> null_block p1" "free_blocks [b] p1 = Inr p'"
      "py_set (blocks_of (m1\<lparr>req_to_blocks := dict_setdefault rid [] (req_to_blocks m1)\<rparr>) rid) idx (null_block p1) = Inr bs"
      "m' = set_blocks rid bs (m1\<lparr>req_to_blocks := dict_setdefault rid [] (req_to_blocks m1)\<rparr>)"
proof -
  let ?m2 = "m1\<lparr>req_to_blocks := dict_setdefault rid [] (req_to_blocks m1)\<rparr>"
  have "(m' = m1 \<and> p' = p1) \<or> (m' = ?m2 \<and> p' = p1) \<or>
      (\<exists>idx b bs. py_nth (blocks_of ?m2 rid) idx = Inr b \<and> b \<noteq> null_block p1 \<and> free_blocks [b] p1 = Inr p' \<and>
        py_set (blocks_of ?m2 rid) idx (null_block p1) = Inr bs \<and> m' = set_blocks rid bs ?m2)"
  proof (cases "map_of (last_state_block_idx m1) rid")
    case (Some idx)
    show ?thesis
    proof (cases "mamba_align (mspec m) \<and> idx < cdiv n (mblock_size m1) - 1")
      case True
      then have "rbind (py_nth (blocks_of ?m2 rid) idx) (\<lambda>b.
           if b \<noteq> null_block p1
           then rbind (free_blocks [b] p1) (\<lambda>p2. rbind (py_set (blocks_of ?m2 rid) idx (null_block p1)) (\<lambda>bs. Inr (set_blocks rid bs ?m2, p2)))
           else Inr (?m2, p1)) = Inr (m', p')"
        using run base Some by (simp add: mamba_remove_skipped_blocks_def Let_def)
      then obtain b where b: "py_nth (blocks_of ?m2 rid) idx = Inr b" and
        rest: "(if b \<noteq> null_block p1
           then rbind (free_blocks [b] p1) (\<lambda>p2. rbind (py_set (blocks_of ?m2 rid) idx (null_block p1)) (\<lambda>bs. Inr (set_blocks rid bs ?m2, p2)))
           else Inr (?m2, p1)) = Inr (m', p')" by (rule rbindE)
      show ?thesis
      proof (cases "b = null_block p1")
        case False
        then have "rbind (free_blocks [b] p1) (\<lambda>p2. rbind (py_set (blocks_of ?m2 rid) idx (null_block p1)) (\<lambda>bs. Inr (set_blocks rid bs ?m2, p2))) = Inr (m', p')"
          using rest by simp
        then obtain bs where "free_blocks [b] p1 = Inr p'" "py_set (blocks_of ?m2 rid) idx (null_block p1) = Inr bs" "m' = set_blocks rid bs ?m2"
          by (elim rbindE) simp
        then show ?thesis using b False by blast
      qed (use rest in simp)
    qed (use run base Some in \<open>auto simp: mamba_remove_skipped_blocks_def split: if_splits\<close>)
  qed (use run base in \<open>simp add: mamba_remove_skipped_blocks_def split: if_splits\<close>)
  then show thesis using that by blast
qed

lemma mamba_remove_skipped_refs:
  assumes ok: "mgr_refs c ext m p" and run: "mamba_remove_skipped_blocks rid n m p = Inr (m', p')"
  shows "mgr_refs c ext m' p'"
proof -
  from run obtain m1 p1 where base: "base_remove_skipped_blocks rid n m p = Inr (m1, p1)" by (auto simp: mamba_remove_skipped_blocks_def elim!: rbindE)
  let ?m2 = "m1\<lparr>req_to_blocks := dict_setdefault rid [] (req_to_blocks m1)\<rparr>"
  have ok1: "mgr_refs c ext m1 p1" by (rule base_remove_skipped_refs[OF ok base])
  have ok2: "mgr_refs c ext ?m2 p1" by (rule refs_ok_setdefault[OF ok1])
  from mamba_remove_cases[OF run base] show ?thesis
  proof cases
    case (3 idx b bs)
    obtain xs where inv: "pool_inv xs p1" and null: "null_block p1 = Block 0"
      and sub: "\<forall>rid. set (blocks_of ?m2 rid) \<subseteq> set (all_blocks p1)"
      using ok2 by (rule refs_okE)
    obtain j where j: "j < length (blocks_of ?m2 rid)" "b = blocks_of ?m2 rid ! j" "bs = (blocks_of ?m2 rid)[j := Block 0]"
    proof (cases "0 \<le> idx")
      case True
      then show thesis using that[of "nat idx"] 3(1,4) null by (auto simp: py_nth_def py_set_def split: if_splits)
    next
      case False
      then show thesis using that[of "length (blocks_of ?m2 rid) - nat (- idx)"] 3(1,4) null
        by (auto simp: py_nth_def py_set_def split: if_splits)
    qed
    have "blocks_of ?m2 rid ! j \<in> set (all_blocks p1)" using nth_mem[OF j(1)] sub by blast
    then have "set bs \<subseteq> set (all_blocks p1)" "set [b] \<subseteq> set (all_blocks p1)"
      using sub j Block_0_in_pool[OF inv] set_update_subset_insert[of "blocks_of ?m2 rid" j "Block 0"] by auto
    then show ?thesis unfolding 3(5)
    proof (rule free_part_refs[OF ok2 3(3)])
      show "count_list bs b' + count_list [b] b' = count_list (blocks_of ?m2 rid) b'" if "b' \<noteq> Block 0" for b'
        using count_list_update[OF j(1), of "Block 0" b'] that j(2,3) by (cases "blocks_of ?m2 rid ! j = b'") auto
    qed
  qed (use ok1 ok2 in simp_all)
qed

lemma remove_skipped_refs:
  assumes ok: "mgr_refs c ext m p" and run: "remove_skipped_blocks rid n np m p = Inr (m', p')"
    and "0 < mblock_size m" and "\<And>k. np = Some k \<Longrightarrow> 0 \<le> k"
  shows "mgr_refs c ext m' p'"
proof -
  have "0 \<le> cdiv k (mblock_size m)" if "np = Some k" for k using assms(3,4) that by (intro cdiv_nonneg) simp_all
  then show ?thesis
    using run base_remove_skipped_refs[OF ok] mamba_remove_skipped_refs[OF ok] remove_range_refs[OF ok]
    by (auto simp: remove_skipped_blocks_def rswa_remove_skipped_blocks_def Let_def split: kv_cache_spec.splits option.splits)
qed

lemma held_pop:
  assumes "dict_wf (req_to_blocks m)" and "req_to_blocks m' = dict_del rid (req_to_blocks m)"
    and "pending_cow_copies m' = pending_cow_copies m"
  shows "held m' b + count_list (blocks_of m rid) b = held m b"
  using dict_sum_pop[OF assms(1), of "\<lambda>bs. count_list bs b" "[]" rid] assms(2,3) by (simp add: held_def copy_ends_def blocks_of_def)

lemma pop_blocks_refs:
  assumes ok: "mgr_refs c ext m p" and run: "pop_blocks_for_free rid m = (bs, m')"
  shows "mgr_refs c (\<lambda>b. ext b + count_list bs b) m' p" and "set bs \<subseteq> set (all_blocks p)"
proof -
  obtain xs where inv: "pool_inv xs p" and wf: "dict_wf (req_to_blocks m)"
    and sub: "\<forall>rid. set (blocks_of m rid) \<subseteq> set (all_blocks p)" using ok by (rule refs_okE)
  have m': "bs = blocks_of m rid" "req_to_blocks m' = dict_del rid (req_to_blocks m)" "pending_cow_copies m' = pending_cow_copies m"
    using run by (auto simp: pop_blocks_for_free_def Let_def blocks_of_def split: if_splits)
  show "set bs \<subseteq> set (all_blocks p)" using m'(1) sub by simp
  have "table_ok m p" using ok by (simp add: mgr_refs_def)
  then have t: "table_ok m' p" using m'(2,3) by (simp add: table_ok_def copy_ends_def blocks_of_def)
  show "mgr_refs c (\<lambda>b. ext b + count_list bs b) m' p"
  proof (rule refs_ok_change[OF ok pool_delta_refl[OF inv] t])
    show "int (ext b + count_list bs b + held m' b) = int (ext b + held m b) + 0" for b
      using held_pop[OF wf m'(2,3), of b] m'(1) by simp
  qed
qed

lemma count_list_rev [simp]: "count_list (rev xs) b = count_list xs b"
  by (induction xs) (auto simp: count_list_append)

text \<open>The caller may give back what it holds.\<close>

lemma free_owed_refs:
  assumes ok: "mgr_refs c (\<lambda>b. ext b + count_list bs b) m p" and run: "free_blocks bs p = Inr p'"
    and sub: "set bs \<subseteq> set (all_blocks p)"
  shows "mgr_refs c ext m p'"
proof -
  obtain xs where inv: "pool_inv xs p" using ok by (rule refs_okE)
  have "may_free bs p" by (rule may_free_held[OF ok sub]) simp
  moreover have "table_ok m p" using ok by (simp add: mgr_refs_def)
  ultimately show ?thesis using refs_ok_change[OF ok free_delta[OF run inv], of m ext] by simp
qed

lemma free_request_refs:
  assumes ok: "mgr_refs c ext m p" and run: "free_request rid m p = Inr (m', p')"
  shows "mgr_refs c ext m' p'"
proof -
  obtain bs where pop: "pop_blocks_for_free rid m = (bs, m')" and free: "free_blocks (rev bs) p = Inr p'"
    using run by (auto simp: free_request_def split: prod.splits elim!: rbindE)
  show ?thesis using free_owed_refs[of c ext "rev bs" m' p p'] pop_blocks_refs[OF ok pop] free by simp
qed

lemma take_copies_refs:
  assumes ok: "mgr_refs c ext m p" and run: "take_pending_cow_copies m = (cps, m')"
  shows "mgr_refs c (\<lambda>b. ext b + count_list (map fst cps @ map snd cps) b) m' p"
    and "set (map fst cps @ map snd cps) \<subseteq> set (all_blocks p)"
proof -
  obtain xs where inv: "pool_inv xs p" and sub: "set (copy_ends m) \<subseteq> set (all_blocks p)" using ok by (rule refs_okE)
  have m': "cps = pending_cow_copies m" "m' = m\<lparr>pending_cow_copies := []\<rparr>" using run by (auto simp: take_pending_cow_copies_def)
  show "set (map fst cps @ map snd cps) \<subseteq> set (all_blocks p)" using sub m'(1) by (simp add: copy_ends_def)
  have "table_ok m p" using ok by (simp add: mgr_refs_def)
  then have "table_ok m' p" using m'(2) by (simp add: table_ok_def copy_ends_def blocks_of_def)
  then show "mgr_refs c (\<lambda>b. ext b + count_list (map fst cps @ map snd cps) b) m' p"
    by (rule refs_ok_change[OF ok pool_delta_refl[OF inv]]) (simp add: m' held_def copy_ends_def)
qed


subsection \<open>Caching\<close>

lemma distinct_filter_count: "(\<And>b. b \<noteq> z \<Longrightarrow> count_list xs b \<le> 1) \<Longrightarrow> distinct (filter (\<lambda>b. b \<noteq> z) xs)"
proof (induction xs)
  case (Cons x xs)
  have "count_list xs b \<le> 1" if "b \<noteq> z" for b using Cons.prems[OF that] by (auto split: if_splits)
  then have "distinct (filter (\<lambda>b. b \<noteq> z) xs)" by (rule Cons.IH)
  moreover have "x \<notin> set xs" if "x \<noteq> z" using Cons.prems[OF that] by (auto simp: count_list_0_iff)
  ultimately show ?case by auto
qed simp

lemma count_list_slice_le: "count_list (py_slice xs i j) b \<le> count_list xs b"
proof -
  obtain a n where "py_slice xs i j = take n (drop a xs)" by (simp add: py_slice_def Let_def)
  moreover have "count_list (take n (drop a xs)) b \<le> count_list (drop a xs) b"
    by (metis append_take_drop_id count_list_append le_add1)
  moreover have "count_list (drop a xs) b \<le> count_list xs b"
    by (metis append_take_drop_id count_list_append le_add2)
  ultimately show ?thesis by simp
qed

lemma refs_ok_same_alloc: "mgr_refs c ext m p \<Longrightarrow> pool_inv xs p' \<Longrightarrow> same_alloc p p' \<Longrightarrow> mgr_refs c ext m p'"
  using refs_ok_step[of c ext m p "\<lambda>_. 0" p' m] pool_delta_same_alloc[of xs p' p] by (simp add: mgr_refs_def)

lemma base_cache_refs:
  assumes ok: "mgr_refs c ext m p" and run: "base_cache_blocks sha256 r n ri m p = Inr (r', m', p')"
    and nc: "0 \<le> dict_get 0 (request_id r) (num_cached_block m)"
  shows "mgr_refs c ext m' p'"
proof -
  let ?rid = "request_id r" let ?nc = "dict_get 0 (request_id r) (num_cached_block m)" let ?nf = "n div mblock_size m"
  have "(m' = m \<and> p' = p) \<or> (\<exists>bm r1. cache_full_blocks sha256 r (blocks_of m ?rid) ?nc ?nf (mblock_size m) (kv_cache_group_id m) bm p = Inr (r1, p') \<and>
      req_to_blocks m' = dict_setdefault ?rid [] (req_to_blocks m) \<and> pending_cow_copies m' = pending_cow_copies m)"
    using run unfolding base_cache_blocks_def Let_def by (auto elim!: rbindE split: if_splits)
  then show ?thesis
  proof (elim disjE exE conjE)
    fix bm r1
    assume cache: "cache_full_blocks sha256 r (blocks_of m ?rid) ?nc ?nf (mblock_size m) (kv_cache_group_id m) bm p = Inr (r1, p')"
      and fields: "req_to_blocks m' = dict_setdefault ?rid [] (req_to_blocks m)" "pending_cow_copies m' = pending_cow_copies m"
    obtain xs where inv: "pool_inv xs p" and sub: "\<forall>rid. set (blocks_of m rid) \<subseteq> set (all_blocks p)"
      and one: "\<forall>rid b. b \<noteq> Block 0 \<longrightarrow> count_list (blocks_of m rid) b \<le> 1"
      using ok by (rule refs_okE)
    have "count_list (py_slice (blocks_of m ?rid) ?nc ?nf) b \<le> 1" if "b \<noteq> Block 0" for b
      using count_list_slice_le[of "blocks_of m ?rid" ?nc ?nf b] one that le_trans by blast
    then have "distinct (filter (\<lambda>b. b \<noteq> Block 0) (py_slice (blocks_of m ?rid) ?nc ?nf))" by (rule distinct_filter_count)
    note spec = cache_full_blocks_spec[OF cache inv _ nc this]
    have "mgr_refs c ext m p'" using refs_ok_same_alloc[OF ok] spec sub by blast
    then show ?thesis
      using refs_ok_setdefault refs_ok_fields[of m' "m\<lparr>req_to_blocks := dict_setdefault ?rid [] (req_to_blocks m)\<rparr>"] fields by simp
  qed (use ok in simp)
qed

lemma cache_partial_refs:
  assumes ok: "mgr_refs c ext m p" and run: "cache_partial_block sha256 r b n gid bsz p = Inr (res, r', p')"
    and b: "py_nth (blocks_of m rid) i = Inr b"
  shows "mgr_refs c ext m p'"
proof -
  obtain xs where inv: "pool_inv xs p" and sub: "\<forall>rid. set (blocks_of m rid) \<subseteq> set (all_blocks p)" using ok by (rule refs_okE)
  have "b \<in> set (blocks_of m rid)" using b by (auto simp: py_nth_def split: if_splits)
  then have "b \<in> set (all_blocks p)" using sub by blast
  from cache_partial_block_spec[OF run inv this] show ?thesis using refs_ok_same_alloc[OF ok] by blast
qed

lemma full_tail_refs:
  assumes ok: "mgr_refs c ext m p" and run: "full_cache_partial_tail_block sha256 r n m p = Inr (r', m', p')"
  shows "mgr_refs c ext m' p'"
proof -
  let ?m1 = "m\<lparr>req_to_blocks := dict_setdefault (request_id r) [] (req_to_blocks m)\<rparr>"
  let ?n = "num_prompt_tokens r div hash_block_size p * hash_block_size p"
  have "(m' = m \<and> p' = p) \<or> (m' = ?m1 \<and> p' = p) \<or> (m' = ?m1 \<and>
     (\<exists>b i res. py_nth (blocks_of m (request_id r)) i = Inr b \<and>
        cache_partial_block sha256 r b ?n (kv_cache_group_id m) (mblock_size m) p = Inr (res, r', p')))"
    using run unfolding full_cache_partial_tail_block_def Let_def by (auto elim!: rbindE split: if_splits)
  then show ?thesis
  proof (elim disjE exE conjE)
    fix b i res
    assume "m' = ?m1" "py_nth (blocks_of m (request_id r)) i = Inr b"
      "cache_partial_block sha256 r b ?n (kv_cache_group_id m) (mblock_size m) p = Inr (res, r', p')"
    then show ?thesis using refs_ok_setdefault[OF cache_partial_refs[OF ok]] by blast
  qed (use ok refs_ok_setdefault[OF ok] in simp_all)
qed

lemma full_cache_refs:
  assumes ok: "mgr_refs c ext m p" and run: "full_cache_blocks sha256 r n ri m p = Inr (r', m', p')"
    and nc: "0 \<le> dict_get 0 (request_id r) (num_cached_block m)"
  shows "mgr_refs c ext m' p'"
proof -
  from run obtain r1 m1 p1 where base: "base_cache_blocks sha256 r n ri m p = Inr (r1, m1, p1)"
    and rest: "(if mblock_size m1 = hash_block_size p1 then Inr (r1, m1, p1) else full_cache_partial_tail_block sha256 r1 n m1 p1) = Inr (r', m', p')"
    unfolding full_cache_blocks_def by (auto elim!: rbindE)
  have "mgr_refs c ext m1 p1" by (rule base_cache_refs[OF ok base nc])
  then show ?thesis using rest full_tail_refs by (auto split: if_splits)
qed

lemma mamba_tail_cases:
  assumes run: "mamba_cache_partial_tail_block sha256 r n m p = Inr (key, r', m', p')"
    and m1_def: "m1 = m\<lparr>req_to_blocks := dict_setdefault (request_id r) [] (req_to_blocks m)\<rparr>"
  obtains "m' = m" "p' = p" | "m' = m1" "p' = p"
  | b where "py_nth (blocks_of m (request_id r)) (n div mblock_size m) = Inr b" "\<not> is_null (blocks p b)"
      "cache_partial_block sha256 r b n (kv_cache_group_id m) (mblock_size m) p = Inr (key, r', p')"
      "m' = (if key \<noteq> None
             then m1\<lparr>partial_hit_reqs := dict_put (request_id r) (n div mblock_size m, b) (partial_hit_reqs m1),
                     num_cached_block := dict_put (request_id r) (n div mblock_size m) (num_cached_block m1),
                     producer_partial_tail_reqs := dict_put (request_id r) n (producer_partial_tail_reqs m1)\<rparr>
             else m1)"
proof -
  let ?bs = "blocks_of m (request_id r)" let ?i = "n div mblock_size m"
  let ?skip = "mblock_size m = hash_block_size p \<or> n mod mblock_size m = 0 \<or> n mod hash_block_size p \<noteq> 0 \<or>
    n \<noteq> num_prompt_tokens r div hash_block_size p * hash_block_size p"
  let ?m2 = "\<lambda>b. m1\<lparr>partial_hit_reqs := dict_put (request_id r) (?i, b) (partial_hit_reqs m1),
      num_cached_block := dict_put (request_id r) ?i (num_cached_block m1),
      producer_partial_tail_reqs := dict_put (request_id r) n (producer_partial_tail_reqs m1)\<rparr>"
  note unf = mamba_cache_partial_tail_block_def Let_def m1_def[symmetric]
  show thesis
  proof (cases ?skip)
    case True
    then have "m' = m" "p' = p" using run unfolding mamba_cache_partial_tail_block_def if_P[OF True] by simp_all
    then show thesis by (rule that(1))
  next
    case skip: False
    show thesis
    proof (cases "?i \<ge> int (length ?bs)")
      case True
      then have "m' = m1" "p' = p" using run unfolding unf if_not_P[OF skip] if_P[OF True] by auto
      then show thesis by (rule that(2))
    next
      case False
      define g where "g b = (if is_null (blocks p b) then Inr (None, r, m1, p)
        else rbind (cache_partial_block sha256 r b n (kv_cache_group_id m) (mblock_size m) p) (\<lambda>(partial_hash, r1, p1).
          Inr (partial_hash, r1, (if partial_hash \<noteq> None then ?m2 b else m1), p1)))" for b
      from run have "rbind (py_nth ?bs ?i) g = Inr (key, r', m', p')"
        unfolding unf if_not_P[OF skip] if_not_P[OF False] g_def .
      then obtain b where b: "py_nth ?bs ?i = Inr b" and g: "g b = Inr (key, r', m', p')" by (rule rbindE)
      show thesis
      proof (cases "is_null (blocks p b)")
        case True
        then have "m' = m1" "p' = p" using g by (auto simp: g_def)
        then show thesis by (rule that(2))
      next
        case False
        from g have "cache_partial_block sha256 r b n (kv_cache_group_id m) (mblock_size m) p = Inr (key, r', p') \<and>
            m' = (if key \<noteq> None then ?m2 b else m1)"
          unfolding g_def if_not_P[OF False] by (auto elim!: rbindE)
        then show thesis using that(3)[OF b False] by blast
      qed
    qed
  qed
qed

lemma mamba_tail_refs:
  assumes ok: "mgr_refs c ext m p" and run: "mamba_cache_partial_tail_block sha256 r n m p = Inr (key, r', m', p')"
  shows "mgr_refs c ext m' p'"
proof -
  let ?m1 = "m\<lparr>req_to_blocks := dict_setdefault (request_id r) [] (req_to_blocks m)\<rparr>"
  from run refl[of ?m1] show ?thesis
  proof (cases rule: mamba_tail_cases[case_names none default cached])
    case (cached b)
    have "mgr_refs c ext ?m1 p'" by (rule refs_ok_setdefault[OF cache_partial_refs[OF ok cached(3,1)]])
    moreover have "req_to_blocks m' = req_to_blocks ?m1" "pending_cow_copies m' = pending_cow_copies ?m1"
      using cached(4) by simp_all
    ultimately show ?thesis using refs_ok_fields[of m' ?m1 c ext p'] by simp
  qed (use ok refs_ok_setdefault[OF ok] in simp_all)
qed

lemma mamba_align_case: "(case spec of MambaSpec _ mode _ \<Rightarrow> mode = ''align'' | _ \<Rightarrow> False) \<longleftrightarrow> mamba_align spec"
  by (cases spec) simp_all

lemma mamba_cache_cases:
  assumes run: "mamba_cache_blocks sha256 r n ri m p = Inr (r', m', p')"
  obtains r1 m1 p1 r2 m2 where "base_cache_blocks sha256 r n ri m p = Inr (r1, m1, p1)"
    "(m2 = m1 \<and> p' = p1) \<or> (\<exists>key m3 ks. mamba_cache_partial_tail_block sha256 r1 n m1 p1 = Inr (key, r2, m3, p') \<and>
       m2 = m3\<lparr>cached_blocks_this_step := ks\<rparr>)"
    "m' = m2 \<or> (\<exists>ks. m' = m2\<lparr>req_to_blocks := dict_setdefault (request_id r) [] (req_to_blocks m2), cached_blocks_this_step := ks\<rparr>)"
proof -
  from run obtain r1 m1 p1 where base: "base_cache_blocks sha256 r n ri m p = Inr (r1, m1, p1)"
    unfolding mamba_cache_blocks_def Let_def by (auto elim!: rbindE)
  define tail where "tail = (if mamba_align (mspec m)
    then rbind (mamba_cache_partial_tail_block sha256 r1 n m1 p1) (\<lambda>(partial_hash, r2, m2, p2).
           Inr (r2, (case partial_hash of None \<Rightarrow> m2
                     | Some key \<Rightarrow> m2\<lparr>cached_blocks_this_step := set_add key (cached_blocks_this_step m2)\<rparr>), p2))
    else Inr (r1, m1, p1))"
  define last where "last = (\<lambda>(r2, m2, p2).
    if dict_get 0 (request_id r) (num_cached_block m1) > dict_get 0 (request_id r) (num_cached_block m)
    then Inr (r2, m2\<lparr>req_to_blocks := dict_setdefault (request_id r) [] (req_to_blocks m2),
                     cached_blocks_this_step := fold (remember_cached p2)
                       (py_slice (blocks_of m2 (request_id r)) (dict_get 0 (request_id r) (num_cached_block m))
                          (dict_get 0 (request_id r) (num_cached_block m1))) (cached_blocks_this_step m2)\<rparr>, p2)
    else Inr (r2, m2, p2 :: block_pool) :: (request \<times> kv_manager \<times> block_pool) result)"
  have "rbind tail last = Inr (r', m', p')"
    using run unfolding mamba_cache_blocks_def Let_def base rbind_Inr prod.case tail_def last_def mamba_align_case .
  then obtain st where "tail = Inr st" and "last st = Inr (r', m', p')" by (rule rbindE)
  then obtain r2 m2 p2 where tail: "tail = Inr (r2, m2, p2)" and last: "last (r2, m2, p2) = Inr (r', m', p')"
    by (cases st) auto
  have p2: "p2 = p'" using last by (simp add: last_def split: if_splits)
  have "(m2 = m1 \<and> p2 = p1) \<or> (\<exists>key m3 ks. mamba_cache_partial_tail_block sha256 r1 n m1 p1 = Inr (key, r2, m3, p2) \<and>
      m2 = m3\<lparr>cached_blocks_this_step := ks\<rparr>)"
  proof (cases "mamba_align (mspec m)")
    case True
    then have "rbind (mamba_cache_partial_tail_block sha256 r1 n m1 p1) (\<lambda>(partial_hash, r2, m2, p2).
           Inr (r2, (case partial_hash of None \<Rightarrow> m2
                     | Some key \<Rightarrow> m2\<lparr>cached_blocks_this_step := set_add key (cached_blocks_this_step m2)\<rparr>), p2)) = Inr (r2, m2, p2)"
      using tail unfolding tail_def by simp
    then obtain key m3 where t: "mamba_cache_partial_tail_block sha256 r1 n m1 p1 = Inr (key, r2, m3, p2)" and
      m2: "m2 = (case key of None \<Rightarrow> m3 | Some key \<Rightarrow> m3\<lparr>cached_blocks_this_step := set_add key (cached_blocks_this_step m3)\<rparr>)"
      by (auto elim!: rbindE)
    have "\<exists>ks. m2 = m3\<lparr>cached_blocks_this_step := ks\<rparr>"
    proof (cases key)
      case None
      then show ?thesis using m2 by (intro exI[of _ "cached_blocks_this_step m3"]) simp
    next
      case (Some k)
      then show ?thesis using m2 by (intro exI[of _ "set_add k (cached_blocks_this_step m3)"]) simp
    qed
    then show ?thesis using t by blast
  qed (use tail in \<open>simp add: tail_def\<close>)
  moreover have "m' = m2 \<or> (\<exists>ks. m' = m2\<lparr>req_to_blocks := dict_setdefault (request_id r) [] (req_to_blocks m2), cached_blocks_this_step := ks\<rparr>)"
    using last unfolding last_def by (auto split: if_splits)
  ultimately show thesis using that[OF base] p2 by blast
qed

lemma mamba_cache_refs:
  assumes ok: "mgr_refs c ext m p" and run: "mamba_cache_blocks sha256 r n ri m p = Inr (r', m', p')"
    and nc: "0 \<le> dict_get 0 (request_id r) (num_cached_block m)"
  shows "mgr_refs c ext m' p'"
proof -
  from run obtain r1 m1 p1 r2 m2 where base: "base_cache_blocks sha256 r n ri m p = Inr (r1, m1, p1)"
    and tail: "(m2 = m1 \<and> p' = p1) \<or> (\<exists>key m3 ks. mamba_cache_partial_tail_block sha256 r1 n m1 p1 = Inr (key, r2, m3, p') \<and>
       m2 = m3\<lparr>cached_blocks_this_step := ks\<rparr>)"
    and last: "m' = m2 \<or> (\<exists>ks. m' = m2\<lparr>req_to_blocks := dict_setdefault (request_id r) [] (req_to_blocks m2), cached_blocks_this_step := ks\<rparr>)"
    by (rule mamba_cache_cases)
  have ok1: "mgr_refs c ext m1 p1" by (rule base_cache_refs[OF ok base nc])
  from tail have ok2: "mgr_refs c ext m2 p'"
  proof (elim disjE exE conjE)
    fix key m3 ks assume run: "mamba_cache_partial_tail_block sha256 r1 n m1 p1 = Inr (key, r2, m3, p')"
      and m2: "m2 = m3\<lparr>cached_blocks_this_step := ks\<rparr>"
    show ?thesis using mamba_tail_refs[OF ok1 run] refs_ok_fields[of m2 m3 c ext p'] m2 by simp
  qed (use ok1 in simp)
  let ?m3 = "m2\<lparr>req_to_blocks := dict_setdefault (request_id r) [] (req_to_blocks m2)\<rparr>"
  from last have "m' = m2 \<or> req_to_blocks m' = req_to_blocks ?m3 \<and> pending_cow_copies m' = pending_cow_copies ?m3" by auto
  then show ?thesis using ok2 refs_ok_setdefault[OF ok2, of "request_id r"] refs_ok_fields[of m' ?m3 c ext p'] by auto
qed

lemma cache_refs:
  assumes ok: "mgr_refs c ext m p" and run: "cache_blocks sha256 r n ri m p = Inr (r', m', p')"
    and nc: "0 \<le> dict_get 0 (request_id r) (num_cached_block m)"
  shows "mgr_refs c ext m' p'"
  using run full_cache_refs[OF ok _ nc] mamba_cache_refs[OF ok _ nc] base_cache_refs[OF ok _ nc]
  by (auto simp: cache_blocks_def split: if_splits)

end
