(* ===== verification/Manager_Inv.thy ===== *)
theory Manager_Inv
  imports Manager_Refs
begin

text \<open>
  The allocation of the Mamba manager in mode \<^verbatim>\<open>align\<close> keeps the reference accounting, and every operation keeps
  the invariant \<open>mgr_inv\<close> of a manager.
\<close>

section \<open>Allocation in mode align\<close>

lemma length_takeWhile_upto: "length (takeWhile (\<lambda>i. i < k) [a..b]) = nat (min k (b + 1) - a)"
proof (induction "nat (b + 1 - a)" arbitrary: a)
  case (Suc n)
  have "[a..b] = a # [a + 1..b]" using Suc.hyps(2) by (intro upto_rec1) linarith
  moreover have "length (takeWhile (\<lambda>i. i < k) [a + 1..b]) = nat (min k (b + 1) - (a + 1))" by (rule Suc.hyps(1)) (use Suc.hyps(2) in linarith)
  ultimately show ?case using Suc.hyps(2) by (auto simp: min_def nat_eq_iff)
qed auto

lemma reuse_spec:
  assumes "reuse_speculative_blocks nb k is bs = Inr bs'" and "\<forall>i\<in>set is. 0 \<le> i"
  shows "length bs' = length bs + length (takeWhile (\<lambda>i. i < k) is) \<and> set bs' \<subseteq> insert nb (set bs) \<and>
    (\<forall>b. b \<noteq> nb \<longrightarrow> count_list bs' b = count_list bs b)"
  using assms
proof (induction "is" arbitrary: bs)
  case (Cons i "is")
  show ?case
  proof (cases "i < k")
    case True
    have i: "0 \<le> i" using Cons.prems(2) by simp
    from Cons.prems(1) True obtain b bs1 where b: "py_nth bs i = Inr b" and bs1: "py_set (bs @ [b]) i nb = Inr bs1"
      and rest: "reuse_speculative_blocks nb k is bs1 = Inr bs'" by (auto elim!: rbindE)
    have len: "nat i < length bs" and b_eq: "b = bs ! nat i" using py_nth_Inr_nonneg[OF b i] i by auto
    have bs1_eq: "bs1 = (bs @ [b])[nat i := nb]" using bs1 i len by (simp add: py_set_def)
    note IH = Cons.IH[OF rest]
    have "count_list bs1 c = count_list bs c" if "c \<noteq> nb" for c
      using count_list_update[of "nat i" "bs @ [b]" nb c] len that by (auto simp: bs1_eq b_eq nth_append split: if_splits)
    moreover have "set bs1 \<subseteq> insert nb (set bs)"
      using set_update_subset_insert[of "bs @ [b]" "nat i" nb] nth_mem[OF len] by (auto simp: bs1_eq b_eq)
    ultimately show ?thesis using IH Cons.prems(2) True by (auto simp: bs1_eq)
  qed (use Cons.prems in auto)
qed auto

lemma refs_ok_shape: "mgr_refs c ext m p \<Longrightarrow> all_blocks p = fst c \<and> enable_caching p = snd c"
  by (auto simp: mgr_refs_def pool_shape_def)

text \<open>What the caller holds moves into a table.\<close>

lemma append_owed_refs:
  assumes ok: "mgr_refs c (\<lambda>b. ext b + count_list bs b) m p" and sub: "set bs \<subseteq> set (all_blocks p)"
    and one: "\<And>b. b \<noteq> Block 0 \<Longrightarrow> count_list (blocks_of m rid) b + count_list bs b \<le> 1"
  shows "mgr_refs c ext (set_blocks rid (blocks_of m rid @ bs) m) p"
proof -
  obtain xs where inv: "pool_inv xs p" and wf: "dict_wf (req_to_blocks m)"
    and tab: "\<forall>rid. set (blocks_of m rid) \<subseteq> set (all_blocks p)" using ok by (rule refs_okE)
  have t: "table_ok m p" using ok by (simp add: mgr_refs_def)
  show ?thesis
  proof (rule refs_ok_change[OF ok pool_delta_refl[OF inv]])
    show "table_ok (set_blocks rid (blocks_of m rid @ bs) m) p"
      by (rule table_ok_set_blocks[OF t]) (use tab sub one in auto)
    show "int (ext b + held (set_blocks rid (blocks_of m rid @ bs) m) b) = int (ext b + count_list bs b + held m b) + 0" for b
      using held_set_blocks[OF wf, of rid "blocks_of m rid @ bs" b] by simp
  qed
qed

text \<open>The cache entry of a running request moves to the copy; both ends of the copy are held.\<close>

lemma running_cow_refs:
  assumes ok: "mgr_refs c (\<lambda>b. ext b + count_list [cow] b) m p" and run: "mamba_running_cow rid src cow m p = Inr (m', p')"
    and cow: "cow \<in> set (all_blocks p)" "cow \<noteq> Block 0" "count_list (blocks_of m rid) cow = 0"
    and src: "src \<in> set (blocks_of m rid)" "src \<noteq> Block 0"
  shows "mgr_refs c ext m' p' \<and> blocks_of m' rid = blocks_of m rid"
proof -
  obtain xs where inv: "pool_inv xs p" and wf: "dict_wf (req_to_blocks m)"
    and tab: "\<forall>rid. set (blocks_of m rid) \<subseteq> set (all_blocks p)"
    and refs: "\<forall>b\<in>set (all_blocks p). b \<noteq> Block 0 \<longrightarrow> ref_cnt (blocks p b) = int (ext b + count_list [cow] b + held m b)"
    using ok by (rule refs_okE)
  have src': "src \<in> set (all_blocks p)" and ne: "src \<noteq> cow" using src tab cow(3) by (auto simp: count_list_0_iff)
  have "bhash (blocks p cow) = None"
    using run by (auto simp: mamba_running_cow_def move_block_hashes_def py_assert_def split: if_splits elim!: rbindE)
  then obtain p1 where mv: "move_block_hashes src cow p = Inr p1" "index_ok p1" "same_alloc p p1"
    using move_block_hashes_spec[OF pool_invD(2)[OF inv] src' cow(1,2) _ ne] by blast
  have inv1: "pool_inv xs p1" by (rule pool_inv_same_alloc[OF inv mv(3,2)])
  let ?m1 = "m\<lparr>pending_cow_copies := pending_cow_copies m @ [(src, cow)]\<rparr>"
  have m': "req_to_blocks m' = req_to_blocks ?m1" "pending_cow_copies m' = pending_cow_copies ?m1"
    and p': "p' = upd_block src (\<lambda>blk. blk\<lparr>ref_cnt := ref_cnt blk + 1\<rparr>) p1"
    using run mv(1) by (auto simp: mamba_running_cow_def Let_def)
  have "count_list (blocks_of m rid) src > 0" using src(1) by (meson count_list_0_iff gr0I)
  then have "0 < held m src" using count_le_held[OF wf, of rid src] by linarith
  then have "0 < ref_cnt (blocks p src)" using refs src' src(2) by simp
  then have pos: "0 < ref_cnt (blocks p1 src)" using mv(3) by (simp add: same_alloc_def)
  have "pool_delta p (\<lambda>b. 0 + (if b = src then 1 else 0)) p'"
    using pool_delta_trans[OF pool_delta_same_alloc[OF inv1 mv(3)] ref_delta[OF inv1 pos]] p' by simp
  moreover have t: "table_ok m p" using ok by (simp add: mgr_refs_def)
  ultimately have "mgr_refs c ext ?m1 p'"
  proof (intro refs_ok_change[OF ok])
    show "table_ok ?m1 p" by (rule table_ok_queue_copy[OF t src' cow(1)])
    show "int (ext b + held ?m1 b) = int (ext b + count_list [cow] b + held m b) + (0 + (if b = src then 1 else 0))" for b
      unfolding held_queue_copy by simp
  qed
  then have "mgr_refs c ext m' p'" unfolding refs_ok_fields[OF m'] .
  moreover have "blocks_of m' rid = blocks_of m rid" using m'(1) by (simp add: blocks_of_def)
  ultimately show ?thesis by blast
qed


lemma align_allocate_cases:
  assumes run: "mamba_align_allocate rid n s m0 p = Inr (out, m', p')"
    and m_def: "m = m0\<lparr>req_to_blocks := dict_setdefault rid [] (req_to_blocks m0)\<rparr>"
    and req_def: "req = cdiv n (mblock_size m) + s"
    and hit_def: "hit = has_key rid (partial_hit_reqs m)"
  obtains "req \<le> int (length (blocks_of m rid))" "\<not> hit" "m' = m" "p' = p"
  | bs k new p1 new' m1 ret ret' where "hit \<or> int (length (blocks_of m rid)) < req" "align_shift rid req s m p = Inr bs"
    "k = (if hit then max (req - int (length bs)) 0 + 1 else req - int (length bs))" "get_new_blocks k p = Inr (new, p1)"
    "align_redirect rid new ret (set_blocks rid bs (align_record_state rid s m)) p1 = Inr (new', ret', m1, p')"
    "m' = (set_blocks rid (blocks_of m1 rid @ new') m1)\<lparr>allocated_block_reqs := set_add rid (allocated_block_reqs m1),
            partial_hit_reqs := dict_del rid (partial_hit_reqs m1)\<rparr>"
proof (cases "req \<le> int (length (blocks_of m rid)) \<and> \<not> hit")
  case True
  with run have "m' = m" "p' = p"
    unfolding mamba_align_allocate_def Let_def m_def[symmetric] req_def[symmetric] hit_def[symmetric] if_P[OF True] by auto
  then show thesis using that(1) True by blast
next
  case False
  from run obtain bs new p1 new' ret' m1 where r: "align_shift rid req s m p = Inr bs"
    "get_new_blocks (if hit then max (req - int (length bs)) 0 + 1 else req - int (length bs)) p = Inr (new, p1)"
    "align_redirect rid new (py_drop bs (int (length (blocks_of m rid)))) (set_blocks rid bs (align_record_state rid s m)) p1 = Inr (new', ret', m1, p')"
    "m' = (set_blocks rid (blocks_of m1 rid @ new') m1)\<lparr>allocated_block_reqs := set_add rid (allocated_block_reqs m1),
            partial_hit_reqs := dict_del rid (partial_hit_reqs m1)\<rparr>"
    unfolding mamba_align_allocate_def Let_def m_def[symmetric] req_def[symmetric] hit_def[symmetric] if_not_P[OF False] py_assert_def
    by (auto elim!: rbindE split: if_splits)
  show thesis by (rule that(2)[OF _ r(1) refl r(2-4)]) (use False in auto)
qed


lemma align_shift_spec:
  assumes run: "align_shift rid req s m p = Inr bs" and null: "null_block p = Block 0"
    and s: "0 \<le> s" "rid \<in> set (allocated_block_reqs m) \<longrightarrow> s \<le> int (length (blocks_of m rid))"
  shows "set bs \<subseteq> insert (Block 0) (set (blocks_of m rid)) \<and> (\<forall>b. b \<noteq> Block 0 \<longrightarrow> count_list bs b = count_list (blocks_of m rid) b) \<and>
    length (blocks_of m rid) \<le> length bs \<and> (int (length (blocks_of m rid)) < req \<longrightarrow> int (length bs) < req)"
proof -
  let ?n = "int (length (blocks_of m rid))"
  define bs1 where "bs1 = blocks_of m rid @ replicate (nat (req - s - 1 - ?n)) (Block 0)"
  have bs1: "set bs1 \<subseteq> insert (Block 0) (set (blocks_of m rid))" "b \<noteq> Block 0 \<Longrightarrow> count_list bs1 b = count_list (blocks_of m rid) b"
    "int (length bs1) = max ?n (req - s - 1)" for b
    by (auto simp: bs1_def count_list_replicate)
  show ?thesis
  proof (cases "rid \<in> set (allocated_block_reqs m)")
    case True
    have r: "reuse_speculative_blocks (Block 0) (req - s - 1) [?n - s..?n - 1] bs1 = Inr bs"
      using run True by (simp add: align_shift_def Let_def null bs1_def)
    have "\<forall>i\<in>set [?n - s..?n - 1]. 0 \<le> i" using s True by auto
    note spec = reuse_spec[OF r this]
    have "int (length bs) = max ?n (req - s - 1) + int (nat (min (req - s - 1) ?n - (?n - s)))"
      using spec bs1(3) by (simp add: length_takeWhile_upto)
    then have "?n \<le> int (length bs) \<and> (?n < req \<longrightarrow> int (length bs) < req)" using s(1) by auto
    then show ?thesis using spec bs1(1,2) by auto
  next
    case False
    then have "bs = bs1" using run by (simp add: align_shift_def Let_def null bs1_def)
    then show ?thesis using bs1(1,2) bs1(3) s(1) by auto
  qed
qed

lemma align_redirect_cases:
  assumes "align_redirect rid new ret m p = Inr (new', ret', m', p')"
  obtains "map_of (partial_hit_reqs m) rid = None" "new' = new" "m' = m" "p' = p"
  | i src cow where "map_of (partial_hit_reqs m) rid = Some (i, src)" "new = cow # new'"
      "rid \<in> set (allocated_block_reqs m)" "py_nth (blocks_of m rid) i = Inr src" "mamba_running_cow rid src cow m p = Inr (m', p')"
  | i src cow where "map_of (partial_hit_reqs m) rid = Some (i, src)" "new = cow # new'"
      "rid \<notin> set (allocated_block_reqs m)" "apply_cow rid i src cow m p = Inr (m', p')"
proof (cases "map_of (partial_hit_reqs m) rid")
  case None
  then have "new' = new" "m' = m" "p' = p" using assms by (simp_all add: align_redirect_def)
  then show thesis by (rule that(1)[OF None])
next
  case (Some h)
  obtain i src where h: "h = (i, src)" by (cases h)
  from assms Some obtain cow where cow: "py_nth new 0 = Inr cow" by (auto simp: align_redirect_def h elim: rbindE)
  then have new: "new = cow # tl new" by (cases new) (simp_all add: py_nth_def)
  show thesis
  proof (cases "rid \<in> set (allocated_block_reqs m)")
    case True
    then have "new' = tl new \<and> py_nth (blocks_of m rid) i = Inr src \<and> mamba_running_cow rid src cow m p = Inr (m', p')"
      using assms Some cow by (auto simp: align_redirect_def h py_assert_def elim!: rbindE split: if_splits)
    then show thesis using that(2)[of i src cow] Some h new True by simp
  next
    case False
    then have "new' = tl new \<and> apply_cow rid i src cow m p = Inr (m', p')"
      using assms Some cow by (auto simp: align_redirect_def h elim!: rbindE)
    then show thesis using that(3)[of i src cow] Some h new False by simp
  qed
qed

lemma align_redirect_refs:
  assumes ok: "mgr_refs c ext m p" and get: "get_new_blocks k p = Inr (new, p1)" "0 \<le> k"
    and run: "align_redirect rid new ret m p1 = Inr (new', ret', m', p')"
    and hit: "\<And>i b. map_of (partial_hit_reqs m) rid = Some (i, b) \<Longrightarrow> 0 \<le> i \<and> b \<noteq> Block 0"
  shows "mgr_refs c ext (set_blocks rid (blocks_of m' rid @ new') m') p'"
proof -
  obtain xs where inv: "pool_inv xs p" and sub: "\<forall>rid. set (blocks_of m rid) \<subseteq> set (all_blocks p)"
    and one: "\<forall>rid b. b \<noteq> Block 0 \<longrightarrow> count_list (blocks_of m rid) b \<le> 1" using ok by (rule refs_okE)
  note d = get_new_blocks_delta[OF get(1) inv get(2)]
  have new: "distinct new" "set new \<subseteq> set (all_blocks p) - {Block 0}" "\<forall>b\<in>set new. ref_cnt (blocks p b) = 0" using d by blast+
  have all: "all_blocks p1 = all_blocks p" using d by (simp add: pool_delta_def)
  have fresh: "count_list (blocks_of m rid) b = 0" if "b \<in> set new" for b
    using free_block_not_held(3)[OF ok, of b rid] new that by blast
  have ok1: "mgr_refs c (\<lambda>b. ext b + count_list new b) m p1" by (rule new_blocks_owed[OF ok get])
  from run show ?thesis
  proof (cases rule: align_redirect_cases[case_names none running first])
    case none
    then show ?thesis using append_new_blocks_refs[OF ok get] by simp
  next
    case (running i src cow)
    let ?ext = "\<lambda>b. ext b + count_list new' b"
    have "(\<lambda>b. ext b + count_list new b) = (\<lambda>b. ?ext b + count_list [cow] b)" using running(2) by auto
    then have "mgr_refs c (\<lambda>b. ?ext b + count_list [cow] b) m p1" using ok1 by simp
    moreover have "cow \<in> set (all_blocks p1)" "cow \<noteq> Block 0" "count_list (blocks_of m rid) cow = 0"
      using new fresh running(2) all by auto
    moreover have "src \<in> set (blocks_of m rid)" "src \<noteq> Block 0"
      using running(4) hit[OF running(1)] by (auto simp: py_nth_def split: if_splits)
    ultimately have "mgr_refs c ?ext m' p' \<and> blocks_of m' rid = blocks_of m rid"
      by (rule running_cow_refs[OF _ running(5)])
    then have m': "mgr_refs c ?ext m' p'" "blocks_of m' rid = blocks_of m rid" by blast+
    have "all_blocks p' = all_blocks p" using refs_ok_shape[OF m'(1)] refs_ok_shape[OF ok] by simp
    then show ?thesis
      by (intro append_owed_refs[OF m'(1)])
        (use new fresh one running(2) m'(2) in \<open>auto simp: count_list_distinct\<close>)
  next
    case (first i src cow)
    let ?ext = "\<lambda>b. ext b + count_list new' b"
    have i: "0 \<le> i" using hit[OF first(1)] by simp
    have "(\<lambda>b. ext b + count_list new b) = (\<lambda>b. ?ext b + count_list [cow] b)" using first(2) by auto
    then have "mgr_refs c (\<lambda>b. ?ext b + count_list [cow] b) m p1" using ok1 by simp
    then have m': "mgr_refs c ?ext m' p'"
      using new fresh first(2) all by (intro apply_cow_refs[OF _ first(4) i]) auto
    note ac = apply_cow_cases[OF first(4) i]
    have bs: "blocks_of m' rid = (blocks_of m rid)[nat i := cow]" using ac by (simp add: blocks_of_def set_blocks_def)
    have len: "nat i < length (blocks_of m rid)" using ac by blast
    have "all_blocks p' = all_blocks p" using refs_ok_shape[OF m'] refs_ok_shape[OF ok] by simp
    moreover have "count_list (blocks_of m' rid) b + count_list new' b \<le> 1" if "b \<noteq> Block 0" for b
    proof (cases "b = cow")
      case True
      then show ?thesis using fresh[of cow] first(2) new(1) count_list_update[OF len, of cow b]
        unfolding bs by (auto simp: count_list_0_iff split: if_splits)
    next
      case False
      then have "count_list (blocks_of m' rid) b \<le> count_list (blocks_of m rid) b"
        using count_list_update[OF len, of cow b] unfolding bs by auto
      then show ?thesis using fresh[of b] first(2) new(1) one that
        by (cases "b \<in> set new'") (auto simp: count_list_distinct intro: le_trans)
    qed
    ultimately show ?thesis using new first(2) by (intro append_owed_refs[OF m']) auto
  qed
qed

lemma align_allocate_refs:
  assumes ok: "mgr_refs c ext m0 p" and run: "mamba_align_allocate rid n s m0 p = Inr (out, m', p')"
    and s: "0 \<le> s" "rid \<in> set (allocated_block_reqs m0) \<longrightarrow> s \<le> int (length (blocks_of m0 rid))"
    and hit: "\<And>i b. map_of (partial_hit_reqs m0) rid = Some (i, b) \<Longrightarrow> 0 \<le> i \<and> b \<noteq> Block 0"
  shows "mgr_refs c ext m' p'"
proof -
  define m where "m = m0\<lparr>req_to_blocks := dict_setdefault rid [] (req_to_blocks m0)\<rparr>"
  define req where "req = cdiv n (mblock_size m) + s"
  define hit' where "hit' = has_key rid (partial_hit_reqs m)"
  have m: "mgr_refs c ext m p" unfolding m_def by (rule refs_ok_setdefault[OF ok])
  have eqs: "blocks_of m rid = blocks_of m0 rid" "allocated_block_reqs m = allocated_block_reqs m0" "partial_hit_reqs m = partial_hit_reqs m0"
    by (simp_all add: m_def blocks_of_def)
  from run m_def req_def hit'_def show ?thesis
  proof (cases rule: align_allocate_cases[case_names stay go])
    case (go bs k new p1 new' m1 ret ret')
    obtain xs where inv: "pool_inv xs p" and null: "null_block p = Block 0"
      and sub: "\<forall>rid. set (blocks_of m rid) \<subseteq> set (all_blocks p)"
      and one: "\<forall>rid b. b \<noteq> Block 0 \<longrightarrow> count_list (blocks_of m rid) b \<le> 1" using m by (rule refs_okE)
    note sh = align_shift_spec[OF go(2) null s(1) s(2)[folded eqs]]
    have k: "0 \<le> k" using go(1,3) sh by (auto split: if_splits)
    let ?m = "set_blocks rid bs (align_record_state rid s m)"
    have "set bs \<subseteq> set (all_blocks p)" using sh sub Block_0_in_pool[OF inv] by blast
    then have "mgr_refs c ext (set_blocks rid bs m) p"
      by (rule refs_ok_set_blocks[OF m pool_delta_refl[OF inv]]) (use sh one in auto)
    then have "mgr_refs c ext ?m p"
      using refs_ok_fields[of ?m "set_blocks rid bs m" c ext p] by (simp add: align_record_state_def Let_def set_blocks_def)
    then have "mgr_refs c ext (set_blocks rid (blocks_of m1 rid @ new') m1) p'"
      by (rule align_redirect_refs[OF _ go(4) k go(5)]) (use hit eqs in \<open>simp add: align_record_state_def Let_def\<close>)
    then show ?thesis
      using refs_ok_fields[of m' "set_blocks rid (blocks_of m1 rid @ new') m1" c ext p'] go(6) by simp
  qed (use m in simp)
qed


section \<open>The invariant of a manager\<close>

text \<open>
  Counters and indices are not negative, a recorded partial hit names a real block, and the table of a request that
  holds Mamba states has room for the speculative blocks.
\<close>

definition num_spec_blocks :: "kv_cache_spec \<Rightarrow> int" where
  "num_spec_blocks spec = (case spec of MambaSpec _ _ s \<Rightarrow> s | _ \<Rightarrow> 0)"

definition mgr_inv :: "kv_manager \<Rightarrow> bool" where
  "mgr_inv m \<longleftrightarrow> 0 < mblock_size m \<and> 0 \<le> num_spec_blocks (mspec m) \<and>
     (\<forall>rid n. map_of (num_cached_block m) rid = Some n \<longrightarrow> 0 \<le> n) \<and>
     (\<forall>rid i b. map_of (partial_hit_reqs m) rid = Some (i, b) \<longrightarrow> 0 \<le> i \<and> b \<noteq> Block 0) \<and>
     (\<forall>rid\<in>set (allocated_block_reqs m). mamba_align (mspec m) \<and> num_spec_blocks (mspec m) \<le> int (length (blocks_of m rid)))"

text \<open>Operations that let tables grow and at most forget a partial hit.\<close>

definition mgr_grow :: "kv_manager \<Rightarrow> kv_manager \<Rightarrow> bool" where
  "mgr_grow m m' \<longleftrightarrow> mspec m' = mspec m \<and> mblock_size m' = mblock_size m \<and> num_cached_block m' = num_cached_block m \<and>
     allocated_block_reqs m' = allocated_block_reqs m \<and> (\<forall>rid. length (blocks_of m rid) \<le> length (blocks_of m' rid)) \<and>
     (\<forall>rid v. map_of (partial_hit_reqs m') rid = Some v \<longrightarrow> map_of (partial_hit_reqs m) rid = Some v)"

lemma mgr_inv_grow:
  assumes inv: "mgr_inv m" and grow: "mgr_grow m m'"
  shows "mgr_inv m'"
  unfolding mgr_inv_def
proof (intro conjI allI ballI impI)
  fix rid assume "rid \<in> set (allocated_block_reqs m')"
  then have "mamba_align (mspec m) \<and> num_spec_blocks (mspec m) \<le> int (length (blocks_of m rid))"
    using inv grow by (simp add: mgr_inv_def mgr_grow_def)
  moreover have "length (blocks_of m rid) \<le> length (blocks_of m' rid)" "mspec m' = mspec m" using grow by (simp_all add: mgr_grow_def)
  ultimately show "mamba_align (mspec m')" "num_spec_blocks (mspec m') \<le> int (length (blocks_of m' rid))" by simp_all
next
  fix rid i b assume "map_of (partial_hit_reqs m') rid = Some (i, b)"
  then have "map_of (partial_hit_reqs m) rid = Some (i, b)" using grow by (simp add: mgr_grow_def)
  then show "0 \<le> i" "b \<noteq> Block 0" using inv unfolding mgr_inv_def by blast+
qed (use inv grow in \<open>simp_all add: mgr_inv_def mgr_grow_def\<close>)

lemma set_blocks_allocated [simp]: "allocated_block_reqs (set_blocks rid bs m) = allocated_block_reqs m"
  by (simp add: set_blocks_def)

lemma mgr_growD:
  assumes "mgr_grow m m'"
  shows "length (blocks_of m rid) \<le> length (blocks_of m' rid)" and "mspec m' = mspec m"
  using assms by (simp_all add: mgr_grow_def)

lemma mgr_grow_refl [simp]: "mgr_grow m m"
  by (simp add: mgr_grow_def)

lemma mgr_grow_trans: "mgr_grow m m1 \<Longrightarrow> mgr_grow m1 m2 \<Longrightarrow> mgr_grow m m2"
  by (auto simp: mgr_grow_def intro: order_trans)

lemma mgr_grow_setdefault [simp]: "mgr_grow m (m\<lparr>req_to_blocks := dict_setdefault rid [] (req_to_blocks m)\<rparr>)"
  by (simp add: mgr_grow_def blocks_of_def)

lemma mgr_grow_set_blocks: "length (blocks_of m rid) \<le> length bs \<Longrightarrow> mgr_grow m (set_blocks rid bs m)"
  by (simp add: mgr_grow_def set_blocks_def blocks_of_def)

lemma mgr_grow_update:
  assumes "length (blocks_of m rid) \<le> length bs" and "mspec m' = mspec m" "mblock_size m' = mblock_size m" "num_cached_block m' = num_cached_block m"
    "allocated_block_reqs m' = allocated_block_reqs m" "req_to_blocks m' = req_to_blocks (set_blocks rid bs m)"
    "partial_hit_reqs m' = partial_hit_reqs m"
  shows "mgr_grow m m'"
  using assms by (simp add: mgr_grow_def set_blocks_def blocks_of_def)

lemma external_grow: "allocate_external_computed_blocks rid nl ne m p = Inr (m', p') \<Longrightarrow> mgr_grow m m'"
  unfolding allocate_external_computed_blocks_def Let_def
  by (auto elim!: rbindE split: if_splits simp: set_blocks_def intro: mgr_grow_update[of m rid "blocks_of m rid @ bs" for bs])

lemma py_set_length: "py_set xs i v = Inr ys \<Longrightarrow> length ys = length xs"
  by (auto simp: py_set_def split: if_splits)

lemma apply_cow_grow:
  assumes "apply_cow rid i src cow m p = Inr (m', p')" shows "mgr_grow m m'"
proof -
  from assms obtain bs where bs: "py_set (blocks_of m rid) i cow = Inr bs"
    and m': "m' = (set_blocks rid bs m)\<lparr>pending_cow_copies := pending_cow_copies m @ [(src, cow)]\<rparr>"
    by (auto simp: apply_cow_def py_assert_def split: if_splits elim!: rbindE)
  show ?thesis using py_set_length[OF bs] m' by (intro mgr_grow_update[of m rid bs]) (simp_all add: set_blocks_def)
qed

lemma redirect_grow:
  assumes "redirect_partial_hit rid m p = Inr (out, m', p')" shows "mgr_grow m m'"
proof (cases "map_of (partial_hit_reqs m) rid")
  case (Some h)
  obtain i src where h: "h = (i, src)" by (cases h)
  let ?m = "m\<lparr>partial_hit_reqs := dict_del rid (partial_hit_reqs m)\<rparr>"
  from assms Some obtain cow p1 m1 where ac: "apply_cow rid i src cow ?m p1 = Inr (m1, p')"
    and m': "m' = m1\<lparr>new_block_ids := new_block_ids m1 @ [block_id cow]\<rparr>"
    by (auto simp: redirect_partial_hit_def h elim!: rbindE)
  have "mgr_grow m ?m" by (simp add: mgr_grow_def blocks_of_def)
  moreover have "mgr_grow ?m m1" by (rule apply_cow_grow[OF ac])
  moreover have "mgr_grow m1 m'" by (simp add: m' mgr_grow_def blocks_of_def)
  ultimately show ?thesis by (blast intro: mgr_grow_trans)
qed (use assms in \<open>simp add: redirect_partial_hit_def\<close>)

lemma base_allocate_grow:
  assumes "base_allocate_new_blocks rid n m p = Inr (out, m', p')" shows "mgr_grow m m'"
proof -
  from assms obtain cows m1 p1 where red: "redirect_partial_hit rid m p = Inr (cows, m1, p1)"
    and rest: "m' = m1\<lparr>req_to_blocks := dict_setdefault rid [] (req_to_blocks m1)\<rparr> \<or>
      (\<exists>bs ids. m' = (set_blocks rid (blocks_of m1 rid @ bs) m1)\<lparr>new_block_ids := ids\<rparr>)"
    unfolding base_allocate_new_blocks_def Let_def by (fastforce elim!: rbindE split: if_splits)
  from rest have "mgr_grow m1 m'"
  proof (elim disjE exE)
    fix bs ids assume "m' = (set_blocks rid (blocks_of m1 rid @ bs) m1)\<lparr>new_block_ids := ids\<rparr>"
    then show ?thesis by (intro mgr_grow_update[of m1 rid "blocks_of m1 rid @ bs"]) (simp_all add: set_blocks_def)
  qed simp
  then show ?thesis using redirect_grow[OF red] by (blast intro: mgr_grow_trans)
qed

lemma remove_range_grow:
  assumes "remove_blocks_in_range rid a l m p = Inr (m', p')" and "0 \<le> a" shows "mgr_grow m m'"
proof -
  define ps where "ps = rev [a..min l (int (length (blocks_of m rid))) - 1]"
  obtain bs out where no: "null_out (null_block p) ps (blocks_of m rid) [] = (bs, out)"
    by (cases "null_out (null_block p) ps (blocks_of m rid) []")
  have "\<forall>i\<in>set ps. 0 \<le> i \<and> i < int (length (blocks_of m rid))" using assms(2) by (auto simp: ps_def)
  then have "length bs = length (blocks_of m rid)" using null_out_spec[OF no] by blast
  then have "mgr_grow m (set_blocks rid bs m)" by (intro mgr_grow_set_blocks) simp
  moreover have "m' = m \<or> m' = set_blocks rid bs m"
    using assms(1) no unfolding remove_blocks_in_range_def Let_def ps_def[symmetric] by (auto split: if_splits elim!: rbindE)
  ultimately show ?thesis by auto
qed

lemma base_remove_grow: "base_remove_skipped_blocks rid n m p = Inr (m', p') \<Longrightarrow> mgr_grow m m'"
  using skipped_in_range[of rid n m p m' p'] remove_range_grow[of rid 0] mgr_grow_trans[OF mgr_grow_setdefault] by (metis mgr_grow_refl order_refl)

lemma mamba_remove_grow:
  assumes run: "mamba_remove_skipped_blocks rid n m p = Inr (m', p')" shows "mgr_grow m m'"
proof -
  from run obtain m1 p1 where base: "base_remove_skipped_blocks rid n m p = Inr (m1, p1)" by (auto simp: mamba_remove_skipped_blocks_def elim!: rbindE)
  let ?m2 = "m1\<lparr>req_to_blocks := dict_setdefault rid [] (req_to_blocks m1)\<rparr>"
  from mamba_remove_cases[OF run base] have "mgr_grow m1 m'"
  proof cases
    case (3 idx b bs)
    then have "mgr_grow ?m2 m'" using py_set_length[OF 3(4)] by (auto intro: mgr_grow_set_blocks)
    then show ?thesis using mgr_grow_trans[OF mgr_grow_setdefault] by blast
  qed simp_all
  then show ?thesis using base_remove_grow[OF base] by (blast intro: mgr_grow_trans)
qed

lemma remove_skipped_grow:
  assumes run: "remove_skipped_blocks rid n np m p = Inr (m', p')" and "0 < mblock_size m" and "\<And>k. np = Some k \<Longrightarrow> 0 \<le> k"
  shows "mgr_grow m m'"
proof -
  have "0 \<le> cdiv k (mblock_size m)" if "np = Some k" for k using assms(2,3) that by (intro cdiv_nonneg) simp_all
  then show ?thesis
    using run base_remove_grow[of rid n m p m' p'] mamba_remove_grow[of rid n m p m' p'] remove_range_grow[of rid _ _ m p m' p']
    by (auto simp: remove_skipped_blocks_def rswa_remove_skipped_blocks_def Let_def split: kv_cache_spec.splits option.splits)
qed


lemma mgr_invD:
  assumes "mgr_inv m"
  shows "0 < mblock_size m" and "0 \<le> num_spec_blocks (mspec m)" and "0 \<le> dict_get 0 rid (num_cached_block m)"
    and "map_of (partial_hit_reqs m) rid = Some (i, b) \<Longrightarrow> 0 \<le> i \<and> b \<noteq> Block 0"
    and "rid \<in> set (allocated_block_reqs m) \<Longrightarrow> mamba_align (mspec m) \<and> num_spec_blocks (mspec m) \<le> int (length (blocks_of m rid))"
  using assms by (auto simp: mgr_inv_def dict_get_def split: option.splits)

text \<open>An operation that sets the counter of cached blocks, or records a partial hit.\<close>

lemma mgr_inv_record:
  assumes inv: "mgr_inv m" and same: "mspec m' = mspec m" "mblock_size m' = mblock_size m" "allocated_block_reqs m' = allocated_block_reqs m"
    and len: "\<And>rid. length (blocks_of m rid) \<le> length (blocks_of m' rid)"
    and cached: "\<And>rid' n. map_of (num_cached_block m') rid' = Some n \<Longrightarrow> 0 \<le> n \<or> map_of (num_cached_block m) rid' = Some n"
    and hits: "\<And>rid' i b. map_of (partial_hit_reqs m') rid' = Some (i, b) \<Longrightarrow> (0 \<le> i \<and> b \<noteq> Block 0) \<or> map_of (partial_hit_reqs m) rid' = Some (i, b)"
  shows "mgr_inv m'"
  unfolding mgr_inv_def
proof (intro conjI allI ballI impI)
  fix rid assume "rid \<in> set (allocated_block_reqs m')"
  then have "mamba_align (mspec m) \<and> num_spec_blocks (mspec m) \<le> int (length (blocks_of m rid))"
    using inv same by (simp add: mgr_inv_def)
  then show "mamba_align (mspec m')" "num_spec_blocks (mspec m') \<le> int (length (blocks_of m' rid))" using len[of rid] same by simp_all
next
  fix rid i b assume "map_of (partial_hit_reqs m') rid = Some (i, b)"
  then show "0 \<le> i" "b \<noteq> Block 0" using hits inv unfolding mgr_inv_def by blast+
next
  fix rid n assume "map_of (num_cached_block m') rid = Some n"
  then show "0 \<le> n" using cached inv unfolding mgr_inv_def by blast
qed (use inv same in \<open>simp_all add: mgr_inv_def\<close>)

lemma add_local_inv:
  assumes inv: "mgr_inv m" and run: "add_local_computed_blocks rid new nl ne m p = Inr (m', p')"
    and nl: "0 \<le> nl" and tail: "nl mod mblock_size m \<noteq> 0 \<Longrightarrow> new \<noteq> [] \<Longrightarrow> last new \<noteq> Block 0"
  shows "mgr_inv m'"
proof (cases "is_cross_attention (mspec m)")
  case True
  then show ?thesis using inv run by (auto simp: add_local_computed_blocks_def py_assert_def split: if_splits)
next
  case False
  define skip where "skip = get_num_skipped_tokens (mspec m) (nl + ne) div mblock_size m"
  define computed where "computed = (if skip > 0 then py_drop new skip else new)"
  let ?bs = "replicate (nat skip) (null_block p) @ computed"
  have empty: "blocks_of m rid = []"
    using run False by (auto simp: add_local_computed_blocks_def py_assert_def split: if_splits)
  have "\<exists>k. computed = drop k new" unfolding computed_def py_drop_def by (metis drop0)
  then have last: "computed \<noteq> [] \<Longrightarrow> new \<noteq> [] \<and> last computed = last new" by auto
  let ?m1 = "(set_blocks rid ?bs m)\<lparr>num_cached_block := dict_put rid (int (length ?bs)) (num_cached_block m)\<rparr>"
  let ?m2 = "?m1\<lparr>partial_hit_reqs := dict_put rid (nl div mblock_size m, last computed) (partial_hit_reqs m),
               num_cached_block := dict_put rid (nl div mblock_size m) (num_cached_block m)\<rparr>"
  have "m' = (if has_partial_local_hit m computed nl then ?m2 else ?m1)"
    using run False empty unfolding add_local_computed_blocks_def Let_def skip_def[symmetric] computed_def[symmetric]
    by (auto elim!: rbindE simp: py_assert_def split: if_splits)
  moreover have "mgr_inv ?m1"
    by (rule mgr_inv_record[OF inv]) (auto simp: set_blocks_def blocks_of_def empty[unfolded blocks_of_def] split: if_splits)
  moreover have "mgr_inv ?m2" if hit: "has_partial_local_hit m computed nl"
  proof (rule mgr_inv_record[OF inv])
    have "last computed \<noteq> Block 0" using hit last tail by (auto simp: has_partial_local_hit_def)
    moreover have "0 \<le> nl div mblock_size m" using nl mgr_invD(1)[OF inv] by (simp add: pos_imp_zdiv_nonneg_iff)
    ultimately show "map_of (partial_hit_reqs ?m2) rid' = Some (i, b) \<Longrightarrow>
        (0 \<le> i \<and> b \<noteq> Block 0) \<or> map_of (partial_hit_reqs m) rid' = Some (i, b)"
      and "map_of (num_cached_block ?m2) rid' = Some n \<Longrightarrow> 0 \<le> n \<or> map_of (num_cached_block m) rid' = Some n" for rid' i b n
      by (auto split: if_splits)
  qed (auto simp: set_blocks_def blocks_of_def empty[unfolded blocks_of_def])
  ultimately show ?thesis by simp
qed

lemma base_cache_inv:
  assumes inv: "mgr_inv m" and run: "base_cache_blocks sha256 r n ri m p = Inr (r', m', p')"
  shows "mgr_inv m' \<and> mspec m' = mspec m \<and> mblock_size m' = mblock_size m"
proof -
  have "m' = m \<or> (m' = m\<lparr>req_to_blocks := dict_setdefault (request_id r) [] (req_to_blocks m),
      num_cached_block := dict_put (request_id r) (n div mblock_size m) (num_cached_block m)\<rparr> \<and>
      dict_get 0 (request_id r) (num_cached_block m) < n div mblock_size m)"
    using run unfolding base_cache_blocks_def Let_def by (auto elim!: rbindE split: if_splits)
  then show ?thesis
  proof (elim disjE conjE)
    assume m': "m' = m\<lparr>req_to_blocks := dict_setdefault (request_id r) [] (req_to_blocks m),
      num_cached_block := dict_put (request_id r) (n div mblock_size m) (num_cached_block m)\<rparr>"
      and "dict_get 0 (request_id r) (num_cached_block m) < n div mblock_size m"
    then have "0 \<le> n div mblock_size m" using mgr_invD(3)[OF inv, of "request_id r"] by linarith
    then have "mgr_inv m'" unfolding m' by (intro mgr_inv_record[OF inv]) (auto simp: blocks_of_def split: if_splits)
    then show ?thesis using m' by simp
  qed (use inv in simp)
qed

lemma full_tail_grow: "full_cache_partial_tail_block sha256 r n m p = Inr (r', m', p') \<Longrightarrow> mgr_grow m m'"
  unfolding full_cache_partial_tail_block_def Let_def by (auto elim!: rbindE split: if_splits)

lemma mamba_tail_inv:
  assumes inv: "mgr_inv m" and ok: "mgr_refs c ext m p" and n: "0 \<le> n"
    and run: "mamba_cache_partial_tail_block sha256 r n m p = Inr (key, r', m', p')"
  shows "mgr_inv m'"
proof -
  obtain xs where "pool_inv xs p" and sub: "\<forall>rid. set (blocks_of m rid) \<subseteq> set (all_blocks p)" using ok by (rule refs_okE)
  then have nulls: "nulls_ok p" by (intro pool_inv_nulls_ok)
  let ?m1 = "m\<lparr>req_to_blocks := dict_setdefault (request_id r) [] (req_to_blocks m)\<rparr>"
  let ?m2 = "\<lambda>b. ?m1\<lparr>partial_hit_reqs := dict_put (request_id r) (n div mblock_size m, b) (partial_hit_reqs ?m1),
      num_cached_block := dict_put (request_id r) (n div mblock_size m) (num_cached_block ?m1),
      producer_partial_tail_reqs := dict_put (request_id r) n (producer_partial_tail_reqs ?m1)\<rparr>"
  have i: "0 \<le> n div mblock_size m" using n mgr_invD(1)[OF inv] by (simp add: pos_imp_zdiv_nonneg_iff)
  have m2: "mgr_inv (?m2 b)" if "b \<noteq> Block 0" for b
    by (rule mgr_inv_record[OF inv]) (use i that in \<open>auto simp: blocks_of_def split: if_splits\<close>)
  have m1: "mgr_inv ?m1" by (rule mgr_inv_grow[OF inv mgr_grow_setdefault])
  from run refl[of ?m1] show ?thesis
  proof (cases rule: mamba_tail_cases[case_names none default cached])
    case (cached b)
    then have "b \<noteq> Block 0" using nulls by (simp add: nulls_ok_def)
    then show ?thesis using m1 m2[of b] cached(4) by simp
  qed (use inv m1 in simp_all)
qed


lemma mamba_cache_inv:
  assumes inv: "mgr_inv m" and ok: "mgr_refs c ext m p" and n: "0 \<le> n"
    and run: "mamba_cache_blocks sha256 r n ri m p = Inr (r', m', p')"
  shows "mgr_inv m'"
proof -
  from run obtain r1 m1 p1 r2 m2 where base: "base_cache_blocks sha256 r n ri m p = Inr (r1, m1, p1)"
    and tail: "(m2 = m1 \<and> p' = p1) \<or> (\<exists>key m3 ks. mamba_cache_partial_tail_block sha256 r1 n m1 p1 = Inr (key, r2, m3, p') \<and>
       m2 = m3\<lparr>cached_blocks_this_step := ks\<rparr>)"
    and last: "m' = m2 \<or> (\<exists>ks. m' = m2\<lparr>req_to_blocks := dict_setdefault (request_id r) [] (req_to_blocks m2), cached_blocks_this_step := ks\<rparr>)"
    by (rule mamba_cache_cases)
  have inv1: "mgr_inv m1" using base_cache_inv[OF inv base] by blast
  have ok1: "mgr_refs c ext m1 p1" by (rule base_cache_refs[OF ok base mgr_invD(3)[OF inv]])
  from tail have inv2: "mgr_inv m2"
  proof (elim disjE exE conjE)
    fix key m3 ks assume run: "mamba_cache_partial_tail_block sha256 r1 n m1 p1 = Inr (key, r2, m3, p')"
      and m2: "m2 = m3\<lparr>cached_blocks_this_step := ks\<rparr>"
    have "mgr_grow m3 m2" by (simp add: m2 mgr_grow_def blocks_of_def)
    then show ?thesis by (rule mgr_inv_grow[OF mamba_tail_inv[OF inv1 ok1 n run]])
  qed (use inv1 in simp)
  from last have "mgr_grow m2 m'" by (auto simp: mgr_grow_def blocks_of_def)
  then show ?thesis by (rule mgr_inv_grow[OF inv2])
qed

lemma cache_inv:
  assumes inv: "mgr_inv m" and ok: "mgr_refs c ext m p" and n: "0 \<le> n"
    and run: "cache_blocks sha256 r n ri m p = Inr (r', m', p')"
  shows "mgr_inv m'"
proof -
  have "mgr_inv m'" if full: "full_cache_blocks sha256 r n ri m p = Inr (r', m', p')"
  proof -
    from full obtain r1 m1 p1 where base: "base_cache_blocks sha256 r n ri m p = Inr (r1, m1, p1)"
      and rest: "m' = m1 \<or> full_cache_partial_tail_block sha256 r1 n m1 p1 = Inr (r', m', p')"
      unfolding full_cache_blocks_def by (auto elim!: rbindE split: if_splits)
    have "mgr_inv m1" using base_cache_inv[OF inv base] by blast
    then show ?thesis using rest mgr_inv_grow full_tail_grow by blast
  qed
  then show ?thesis
    using run mamba_cache_inv[OF inv ok n, of sha256 r ri r' m' p'] base_cache_inv[OF inv, of sha256 r n ri p r' m' p']
    by (auto simp: cache_blocks_def split: if_splits)
qed

lemma align_redirect_grow: "align_redirect rid new ret m p = Inr (new', ret', m', p') \<Longrightarrow> mgr_grow m m' \<and>
    (map_of (partial_hit_reqs m) rid = None \<longrightarrow> new' = new) \<and> (map_of (partial_hit_reqs m) rid \<noteq> None \<longrightarrow> length new = Suc (length new'))"
  by (erule align_redirect_cases)
    (auto simp: mamba_running_cow_def Let_def mgr_grow_def blocks_of_def elim!: rbindE dest!: apply_cow_grow)

lemma align_allocate_inv:
  assumes inv: "mgr_inv m0" and run: "mamba_align_allocate rid n s m0 p = Inr (out, m', p')" and n: "0 \<le> n"
    and spec: "mspec m0 = MambaSpec bs0 ''align'' s" and ok: "mgr_refs c ext m0 p"
  shows "mgr_inv m'"
proof -
  define m where "m = m0\<lparr>req_to_blocks := dict_setdefault rid [] (req_to_blocks m0)\<rparr>"
  define req where "req = cdiv n (mblock_size m) + s"
  define hit where "hit = has_key rid (partial_hit_reqs m)"
  have grow0: "mgr_grow m0 m" by (simp add: m_def)
  have inv0: "mgr_inv m" by (rule mgr_inv_grow[OF inv grow0])
  have s: "0 \<le> s" "num_spec_blocks (mspec m0) = s" using mgr_invD(2)[OF inv] by (simp_all add: spec num_spec_blocks_def)
  have "0 \<le> cdiv n (mblock_size m)" using cdiv_nonneg[OF mgr_invD(1)[OF inv0] n] .
  then have req: "s \<le> req" by (simp add: req_def)
  from run m_def req_def hit_def show ?thesis
  proof (cases rule: align_allocate_cases[case_names stay go])
    case (go bs k new p1 new' m1 ret ret')
    obtain xs where pinv: "pool_inv xs p" and null: "null_block p = Block 0" using ok by (rule refs_okE)
    have alloc: "rid \<in> set (allocated_block_reqs m) \<longrightarrow> s \<le> int (length (blocks_of m rid))"
      using mgr_invD(5)[OF inv0, of rid] s grow0 by (simp add: mgr_grow_def)
    note sh = align_shift_spec[OF go(2) null s(1) alloc]
    have k: "0 \<le> k" using go(1,3) sh by (auto split: if_splits)
    have lnew: "int (length new) = k" using get_new_blocks_delta[OF go(4) pinv k] k by simp
    let ?m2 = "set_blocks rid bs (align_record_state rid s m)"
    have "mgr_grow m (align_record_state rid s m)" by (simp add: align_record_state_def Let_def mgr_grow_def blocks_of_def)
    moreover have "mgr_grow (align_record_state rid s m) ?m2"
      by (rule mgr_grow_set_blocks) (use sh in \<open>simp add: align_record_state_def Let_def blocks_of_def\<close>)
    moreover have red: "mgr_grow ?m2 m1" "map_of (partial_hit_reqs ?m2) rid = None \<longrightarrow> new' = new"
      "map_of (partial_hit_reqs ?m2) rid \<noteq> None \<longrightarrow> length new = Suc (length new')" using align_redirect_grow[OF go(5)] by blast+
    moreover have "mgr_grow m1 (set_blocks rid (blocks_of m1 rid @ new') m1)" by (rule mgr_grow_set_blocks) simp
    ultimately have grow: "mgr_grow m (set_blocks rid (blocks_of m1 rid @ new') m1)" by (blast intro: mgr_grow_trans)
    let ?m3 = "set_blocks rid (blocks_of m1 rid @ new') m1"
    have inv3: "mgr_inv ?m3" by (rule mgr_inv_grow[OF inv0 grow])
    have hit2: "hit = (map_of (partial_hit_reqs ?m2) rid \<noteq> None)" by (simp add: hit_def has_key_def align_record_state_def Let_def)
    have "int (length bs) \<le> int (length (blocks_of m1 rid))" using mgr_growD(1)[OF red(1), of rid] by simp
    then have "req \<le> int (length (blocks_of ?m3 rid))" using red(2,3) lnew go(3) hit2 by (cases hit) auto
    then have len: "s \<le> int (length (blocks_of m' rid))" using req go(6) by (simp add: blocks_of_def)
    have spec': "mspec m1 = mspec m0" using mgr_growD(2)[OF red(1)] by (simp add: align_record_state_def Let_def m_def)
    show ?thesis using inv3 len s(2) spec' spec unfolding mgr_inv_def go(6)
      by (auto simp: set_add_def blocks_of_def split: if_splits)
  qed (use inv0 in simp)
qed


lemma pop_inv:
  assumes inv: "mgr_inv m" and run: "pop_blocks_for_free rid m = (bs, m')"
  shows "mgr_inv m'"
proof -
  have alloc: "rid' \<in> set (allocated_block_reqs m') \<Longrightarrow> rid' \<in> set (allocated_block_reqs m) \<and> rid' \<noteq> rid" for rid'
    using run mgr_invD(5)[OF inv, of rid'] by (auto simp: pop_blocks_for_free_def Let_def split: if_splits)
  have m': "mspec m' = mspec m" "mblock_size m' = mblock_size m" "req_to_blocks m' = dict_del rid (req_to_blocks m)"
    "num_cached_block m' = dict_del rid (num_cached_block m)" "partial_hit_reqs m' = dict_del rid (partial_hit_reqs m)"
    using run by (auto simp: pop_blocks_for_free_def Let_def split: if_splits)
  show ?thesis unfolding mgr_inv_def
  proof (intro conjI allI ballI impI)
    fix rid' assume "rid' \<in> set (allocated_block_reqs m')"
    with alloc have "rid' \<in> set (allocated_block_reqs m)" "rid' \<noteq> rid" by blast+
    with mgr_invD(5)[OF inv] show "mamba_align (mspec m')" "num_spec_blocks (mspec m') \<le> int (length (blocks_of m' rid'))"
      by (simp_all add: m' blocks_of_def)
  next
    fix rid' i b assume "map_of (partial_hit_reqs m') rid' = Some (i, b)"
    then have "map_of (partial_hit_reqs m) rid' = Some (i, b)" by (simp add: m' split: if_splits)
    from mgr_invD(4)[OF inv this] show "0 \<le> i" "b \<noteq> Block 0" by simp_all
  next
    fix rid' n assume "map_of (num_cached_block m') rid' = Some n"
    then show "0 \<le> n" using inv by (simp add: m' mgr_inv_def split: if_splits)
  qed (use inv in \<open>simp_all add: m' mgr_inv_def\<close>)
qed

lemma free_request_inv: "mgr_inv m \<Longrightarrow> free_request rid m p = Inr (m', p') \<Longrightarrow> mgr_inv m'"
  by (auto simp: free_request_def split: prod.splits elim!: rbindE intro: pop_inv)

lemma allocate_new_ok:
  assumes inv: "mgr_inv m" and ok: "mgr_refs c ext m p" and run: "allocate_new_blocks rid n nm m p = Inr (out, m', p')" and nm: "0 \<le> nm"
  shows "mgr_refs c ext m' p' \<and> mgr_inv m'"
proof -
  note hit = mgr_invD(4)[OF inv, of rid]
  have base: "mgr_refs c ext m' p' \<and> mgr_inv m'" if "base_allocate_new_blocks rid k m p = Inr (out, m', p')" for k
    using base_allocate_refs[OF ok that] hit mgr_inv_grow[OF inv base_allocate_grow[OF that]] by blast
  show ?thesis
  proof (cases "mamba_align (mspec m)")
    case True
    then obtain bs0 s where spec: "mspec m = MambaSpec bs0 ''align'' s" by (cases "mspec m") auto
    then have a: "mamba_align_allocate rid nm s m p = Inr (out, m', p')" using run by (simp add: allocate_new_blocks_def)
    have s: "num_spec_blocks (mspec m) = s" by (simp add: spec num_spec_blocks_def)
    have "mgr_refs c ext m' p'"
      by (rule align_allocate_refs[OF ok a]) (use mgr_invD(2,5)[OF inv] s hit in auto)
    then show ?thesis using align_allocate_inv[OF inv a nm spec ok] by simp
  next
    case False
    then show ?thesis using run base by (auto simp: allocate_new_blocks_def split: kv_cache_spec.splits if_splits)
  qed
qed

lemma get_num_blocks_same:
  assumes "get_num_blocks_to_allocate m p rid n new tc nl nm cap = Inr (k, m')"
  shows "m' = m \<or> m' = m\<lparr>req_to_blocks := dict_setdefault rid [] (req_to_blocks m)\<rparr>"
  using assms by (auto simp: get_num_blocks_to_allocate_def mamba_get_num_blocks_to_allocate_def Let_def elim!: rbindE
      split: if_splits kv_cache_spec.splits)

end
