(* ===== verification/Manager_Machine.thy ===== *)
theory Manager_Machine
  imports Manager_Inv
begin

text \<open>
  The machine of several managers on one block pool.  Its state is the list of managers, the blocks whose
  references a caller holds, and the pool.  In every reachable state the reference count of a block is the
  number of its places in block tables, in queued copies and with callers.
\<close>

section \<open>Steps\<close>

text \<open>
  One operation of a manager; the third argument is the list of blocks whose references go to the caller.  The
  conditions are what the coordinator guarantees: prefix-cache hits are blocks of the pool, each given once;
  token counts are not negative; and external tokens are allocated after the local hit.
\<close>

inductive mgr_op :: "(bytes \<Rightarrow> bytes) \<Rightarrow> kv_manager \<Rightarrow> block_pool \<Rightarrow> block_ref list \<Rightarrow> kv_manager \<Rightarrow> block_pool \<Rightarrow> bool"
  for sha256 where
  op_count: "get_num_blocks_to_allocate m p rid n new tc nl nm cap = Inr (k, m') \<Longrightarrow> mgr_op sha256 m p [] m' p"
| op_add_local: "add_local_computed_blocks rid new nl ne m p = Inr (m', p') \<Longrightarrow> set new \<subseteq> set (all_blocks p) \<Longrightarrow>
    distinct (filter (\<lambda>b. b \<noteq> null_block p) new) \<Longrightarrow> 0 \<le> nl \<Longrightarrow>
    (nl mod mblock_size m \<noteq> 0 \<longrightarrow> new \<noteq> [] \<longrightarrow> last new \<noteq> null_block p) \<Longrightarrow> mgr_op sha256 m p [] m' p'"
| op_external: "allocate_external_computed_blocks rid nl ne m p = Inr (m', p') \<Longrightarrow>
    int (length (blocks_of m rid)) \<le> cdiv (nl + ne) (mblock_size m) \<Longrightarrow> mgr_op sha256 m p [] m' p'"
| op_allocate: "allocate_new_blocks rid n nm m p = Inr (out, m', p') \<Longrightarrow> 0 \<le> nm \<Longrightarrow> mgr_op sha256 m p [] m' p'"
| op_cache: "cache_blocks sha256 r n ri m p = Inr (r', m', p') \<Longrightarrow> 0 \<le> n \<Longrightarrow> mgr_op sha256 m p [] m' p'"
| op_skip: "remove_skipped_blocks rid n np m p = Inr (m', p') \<Longrightarrow> (\<forall>k. np = Some k \<longrightarrow> 0 \<le> k) \<Longrightarrow> mgr_op sha256 m p [] m' p'"
| op_free: "free_request rid m p = Inr (m', p') \<Longrightarrow> mgr_op sha256 m p [] m' p'"
| op_pop: "pop_blocks_for_free rid m = (bs, m') \<Longrightarrow> mgr_op sha256 m p bs m' p"
| op_copies: "take_pending_cow_copies m = (cps, m') \<Longrightarrow> mgr_op sha256 m p (map fst cps @ map snd cps) m' p"
| op_ids: "take_new_block_ids m = (ids, m') \<Longrightarrow> mgr_op sha256 m p [] m' p"
| op_offloads: "take_pending_partial_tail_offloads m = (offl, m') \<Longrightarrow> mgr_op sha256 m p [] m' p"
| op_new_step: "new_step_starts m = m' \<Longrightarrow> mgr_op sha256 m p [] m' p"
| op_common: "get_num_common_prefix_blocks rid m p = (k, m') \<Longrightarrow> mgr_op sha256 m p [] m' p"

type_synonym mgr_state = "kv_manager list \<times> block_ref list \<times> block_pool"

inductive mgr_step :: "(bytes \<Rightarrow> bytes) \<Rightarrow> mgr_state \<Rightarrow> mgr_state \<Rightarrow> bool" for sha256 where
  mstep_op: "i < length ms \<Longrightarrow> mgr_op sha256 (ms ! i) p extra m' p' \<Longrightarrow> mgr_step sha256 (ms, owed, p) (ms[i := m'], owed @ extra, p')"
| mstep_release: "free_blocks bs p = Inr p' \<Longrightarrow> (\<forall>b. count_list owed b = count_list owed' b + count_list bs b) \<Longrightarrow>
    mgr_step sha256 (ms, owed, p) (ms, owed', p')"
| mstep_pin: "touch bs p = Inr p' \<Longrightarrow> set bs \<subseteq> set (all_blocks p) \<Longrightarrow> mgr_step sha256 (ms, owed, p) (ms, owed @ bs, p')"
| mstep_evict: "evict_blocks ids p = Inr p' \<Longrightarrow> (\<forall>i\<in>set ids. 0 \<le> i \<and> i < num_gpu_blocks p) \<Longrightarrow> mgr_step sha256 (ms, owed, p) (ms, owed, p')"
| mstep_reset: "reset_prefix_cache p = (done, p') \<Longrightarrow> mgr_step sha256 (ms, owed, p) (ms, owed, p')"

definition new_manager :: "bool \<Rightarrow> kv_manager \<Rightarrow> bool" where
  "new_manager caching m \<longleftrightarrow> (\<exists>spec inflight maxlen gid dcp sbs zeroing.
     get_manager_for_kv_cache_spec spec inflight maxlen caching gid dcp sbs zeroing = Inr m \<and>
     0 < spec_block_size spec \<and> 0 \<le> num_spec_blocks spec)"

inductive mgr_reach :: "(bytes \<Rightarrow> bytes) \<Rightarrow> mgr_state \<Rightarrow> bool" for sha256 where
  reach_init: "init_pool n caching hbs events use_int = Inr p \<Longrightarrow> 0 < n \<Longrightarrow> (\<forall>m\<in>set ms. new_manager caching m) \<Longrightarrow>
    mgr_reach sha256 (ms, [], p)"
| reach_step: "mgr_reach sha256 s \<Longrightarrow> mgr_step sha256 s s' \<Longrightarrow> mgr_reach sha256 s'"

section \<open>The invariant\<close>

definition holdings :: "kv_manager list \<Rightarrow> block_ref \<Rightarrow> nat" where
  "holdings ms b = sum_list (map (\<lambda>m. held m b) ms)"

definition refs_inv :: "block_ref list \<times> bool \<Rightarrow> mgr_state \<Rightarrow> bool" where
  "refs_inv c = (\<lambda>(ms, owed, p). pool_shape p = c \<and> (\<exists>xs. pool_inv xs p) \<and> (\<forall>m\<in>set ms. table_ok m p \<and> mgr_inv m) \<and>
     set owed \<subseteq> set (all_blocks p) \<and>
     (\<forall>b\<in>set (all_blocks p). b \<noteq> Block 0 \<longrightarrow> ref_cnt (blocks p b) = int (count_list owed b + holdings ms b)))"

lemma holdings_split:
  assumes "i < length ms"
  shows "holdings (ms[i := m]) b = held m b + (holdings (take i ms) b + holdings (drop (Suc i) ms) b)"
    and "holdings ms b = held (ms ! i) b + (holdings (take i ms) b + holdings (drop (Suc i) ms) b)"
proof -
  show "holdings (ms[i := m]) b = held m b + (holdings (take i ms) b + holdings (drop (Suc i) ms) b)"
    unfolding upd_conv_take_nth_drop[OF assms] by (simp add: holdings_def)
  have "holdings (take i ms @ ms ! i # drop (Suc i) ms) b = held (ms ! i) b + (holdings (take i ms) b + holdings (drop (Suc i) ms) b)"
    by (simp add: holdings_def)
  then show "holdings ms b = held (ms ! i) b + (holdings (take i ms) b + holdings (drop (Suc i) ms) b)"
    by (simp add: id_take_nth_drop[OF assms, symmetric])
qed

text \<open>The view of one manager: the others and the callers hold the rest.\<close>

lemma refs_inv_focus:
  assumes "refs_inv c (ms, owed, p)" and "i < length ms"
  shows "mgr_refs c (\<lambda>b. count_list owed b + (holdings (take i ms) b + holdings (drop (Suc i) ms) b)) (ms ! i) p"
    and "mgr_inv (ms ! i)"
  using assms nth_mem[OF assms(2)] by (auto simp: refs_inv_def mgr_refs_def holdings_split(2)[OF assms(2)])

lemma table_ok_shape: "table_ok m p \<Longrightarrow> pool_shape p' = pool_shape p \<Longrightarrow> table_ok m p'"
  by (simp add: table_ok_def pool_shape_def)

lemma refs_inv_unfocus:
  assumes inv: "refs_inv c (ms, owed, p)" and i: "i < length ms" and owed: "set owed' \<subseteq> set (fst c)"
    and ok: "mgr_refs c (\<lambda>b. count_list owed' b + (holdings (take i ms) b + holdings (drop (Suc i) ms) b)) m' p'" and m': "mgr_inv m'"
  shows "refs_inv c (ms[i := m'], owed', p')"
proof -
  have shape: "pool_shape p' = pool_shape p" using inv ok by (simp add: refs_inv_def mgr_refs_def)
  have "table_ok m p' \<and> mgr_inv m" if "m \<in> set (ms[i := m'])" for m
  proof (cases "m = m'")
    case True
    then show ?thesis using ok m' by (simp add: mgr_refs_def)
  next
    case False
    then have "m \<in> set ms" using that set_update_subset_insert[of ms i m'] by blast
    then show ?thesis using inv table_ok_shape[OF _ shape, of m] by (simp add: refs_inv_def)
  qed
  then show ?thesis
    using ok owed refs_ok_shape[OF ok] by (auto simp: refs_inv_def mgr_refs_def holdings_split(1)[OF i])
qed

text \<open>Every operation of a manager keeps its references accounted and its invariant.\<close>

lemma mgr_op_ok:
  assumes "mgr_op sha256 m p extra m' p'" and ok: "mgr_refs c ext m p" and inv: "mgr_inv m"
  shows "mgr_refs c (\<lambda>b. ext b + count_list extra b) m' p' \<and> mgr_inv m' \<and> set extra \<subseteq> set (fst c)"
proof -
  obtain xs where null: "null_block p = Block 0" using ok by (rule refs_okE)
  have all: "all_blocks p = fst c" using refs_ok_shape[OF ok] by simp
  have quiet: "mgr_refs c ext m1 p \<and> mgr_inv m1"
    if "req_to_blocks m1 = req_to_blocks m" "pending_cow_copies m1 = pending_cow_copies m" "mgr_grow m m1" for m1
    using ok inv refs_ok_fields[OF that(1,2)] mgr_inv_grow[OF inv that(3)] by simp
  have default: "mgr_refs c ext (m\<lparr>req_to_blocks := dict_setdefault rid [] (req_to_blocks m)\<rparr>) p \<and>
      mgr_inv (m\<lparr>req_to_blocks := dict_setdefault rid [] (req_to_blocks m)\<rparr>)" for rid
    using refs_ok_setdefault[OF ok] mgr_inv_grow[OF inv mgr_grow_setdefault] by simp
  from assms(1) show ?thesis
  proof cases
    case op_count
    then show ?thesis using get_num_blocks_same[OF op_count(3)] ok inv default by auto
  next
    case op_add_local
    then show ?thesis using add_local_refs[OF ok op_add_local(2,3)] add_local_inv[OF inv op_add_local(2,5)] null by simp
  next
    case op_external
    then show ?thesis using allocate_external_refs[OF ok op_external(2,3)] mgr_inv_grow[OF inv external_grow[OF op_external(2)]] by simp
  next
    case op_allocate
    then show ?thesis using allocate_new_ok[OF inv ok op_allocate(2,3)] by simp
  next
    case op_cache
    then show ?thesis using cache_refs[OF ok op_cache(2) mgr_invD(3)[OF inv]] cache_inv[OF inv ok op_cache(3,2)] by simp
  next
    case (op_skip rid n np)
    then have "\<And>k. np = Some k \<Longrightarrow> 0 \<le> k" by blast
    then show ?thesis
      using remove_skipped_refs[OF ok op_skip(2) mgr_invD(1)[OF inv]] mgr_inv_grow[OF inv remove_skipped_grow[OF op_skip(2) mgr_invD(1)[OF inv]]]
        op_skip(1) by simp
  next
    case op_free
    then show ?thesis using free_request_refs[OF ok op_free(2)] free_request_inv[OF inv op_free(2)] by simp
  next
    case op_pop
    then show ?thesis using pop_blocks_refs[OF ok op_pop(2)] pop_inv[OF inv op_pop(2)] all by simp
  next
    case (op_copies cps)
    have "mgr_grow m m'" using op_copies by (auto simp: take_pending_cow_copies_def mgr_grow_def blocks_of_def)
    then show ?thesis using take_copies_refs[OF ok op_copies(3)] op_copies(1,2) mgr_inv_grow[OF inv] all by simp
  next
    case op_ids
    then show ?thesis using quiet[of m'] by (auto simp: take_new_block_ids_def mgr_grow_def blocks_of_def)
  next
    case op_offloads
    then show ?thesis using quiet[of m'] by (auto simp: take_pending_partial_tail_offloads_def mgr_grow_def blocks_of_def)
  next
    case op_new_step
    then show ?thesis using quiet[of m'] by (auto simp: new_step_starts_def mgr_grow_def blocks_of_def)
  next
    case op_common
    then show ?thesis using ok inv default by (auto simp: get_num_common_prefix_blocks_def Let_def split: if_splits)
  qed
qed

text \<open>A step that leaves the managers as they are.\<close>

lemma refs_inv_pool:
  assumes inv: "refs_inv c (ms, owed, p)" and d: "pool_delta p d p'" and owed: "set owed' \<subseteq> set (all_blocks p)"
    and cnt: "\<And>b. b \<noteq> Block 0 \<Longrightarrow> int (count_list owed' b) = int (count_list owed b) + d b"
  shows "refs_inv c (ms, owed', p')"
proof -
  have shape: "pool_shape p' = pool_shape p" using d by (simp add: pool_delta_def pool_shape_def)
  have t: "table_ok m p'" if "m \<in> set ms" for m using inv that table_ok_shape[OF _ shape, of m] by (simp add: refs_inv_def)
  show ?thesis using inv d shape t owed cnt unfolding refs_inv_def pool_delta_def by auto
qed

lemma mgr_step_ok:
  assumes "mgr_step sha256 s s'" and "refs_inv c s"
  shows "refs_inv c s'"
  using assms
proof (induction rule: mgr_step.induct)
  case (mstep_op i ms p extra m' p' owed)
  let ?rest = "\<lambda>b. holdings (take i ms) b + holdings (drop (Suc i) ms) b"
  note focus = refs_inv_focus[OF mstep_op.prems mstep_op.hyps(1)]
  note op = mgr_op_ok[OF mstep_op.hyps(2) focus]
  have "set (owed @ extra) \<subseteq> set (fst c)"
    using op mstep_op.prems refs_ok_shape[OF focus(1)] by (auto simp: refs_inv_def)
  moreover have "(\<lambda>b. count_list owed b + ?rest b + count_list extra b) = (\<lambda>b. count_list (owed @ extra) b + ?rest b)" by auto
  ultimately show ?case using op refs_inv_unfocus[OF mstep_op.prems mstep_op.hyps(1), of "owed @ extra" m' p'] by simp
next
  case (mstep_release bs p p' owed owed' ms)
  obtain xs where inv: "pool_inv xs p" using mstep_release.prems by (auto simp: refs_inv_def)
  have sub: "set bs \<subseteq> set owed" "set owed' \<subseteq> set owed"
    using mstep_release.hyps(2) by (metis count_list_0_iff add_is_0 subsetI)+
  have "set owed \<subseteq> set (all_blocks p)" using mstep_release.prems by (simp add: refs_inv_def)
  moreover have "int (count_list bs b) \<le> ref_cnt (blocks p b)" if "b \<in> set (all_blocks p)" "b \<noteq> Block 0" for b
    using mstep_release.prems mstep_release.hyps(2) that by (simp add: refs_inv_def)
  ultimately have may: "may_free bs p" using sub(1) unfolding may_free_def by blast
  have sub': "set owed' \<subseteq> set (all_blocks p)" using sub(2) \<open>set owed \<subseteq> set (all_blocks p)\<close> by blast
  show ?case
    by (rule refs_inv_pool[OF mstep_release.prems free_delta[OF mstep_release.hyps(1) inv may] sub']) (use mstep_release.hyps(2) in simp)
next
  case (mstep_pin bs p p' ms owed)
  obtain xs where inv: "pool_inv xs p" using mstep_pin.prems by (auto simp: refs_inv_def)
  show ?case
    by (rule refs_inv_pool[OF mstep_pin.prems touch_delta[OF mstep_pin.hyps(1) inv mstep_pin.hyps(2)]])
      (use mstep_pin in \<open>auto simp: refs_inv_def\<close>)
next
  case (mstep_evict ids p p' ms owed)
  obtain xs where inv: "pool_inv xs p" using mstep_evict.prems by (auto simp: refs_inv_def)
  have "index_ok p' \<and> same_alloc p p'" using evict_blocks_spec[OF pool_invD(2)[OF inv] mstep_evict.hyps(2)] mstep_evict.hyps(1) by auto
  then have "pool_delta p (\<lambda>_. 0) p'" using pool_delta_same_alloc pool_inv_same_alloc[OF inv] by blast
  then show ?case by (rule refs_inv_pool[OF mstep_evict.prems]) (use mstep_evict.prems in \<open>simp_all add: refs_inv_def\<close>)
next
  case (mstep_reset p d p' ms owed)
  obtain xs where inv: "pool_inv xs p" using mstep_reset.prems by (auto simp: refs_inv_def)
  have "pool_inv xs p' \<and> same_alloc p p'" using reset_prefix_cache_spec[OF inv] mstep_reset.hyps by auto
  then have "pool_delta p (\<lambda>_. 0) p'" using pool_delta_same_alloc by blast
  then show ?case by (rule refs_inv_pool[OF mstep_reset.prems]) (use mstep_reset.prems in \<open>simp_all add: refs_inv_def\<close>)
qed


lemma new_manager_inv:
  assumes "new_manager caching m"
  shows "mgr_inv m" and "table_ok m p" and "held m b = 0"
proof -
  from assms obtain spec inflight maxlen gid dcp sbs zeroing
    where get: "get_manager_for_kv_cache_spec spec inflight maxlen caching gid dcp sbs zeroing = Inr m"
      and s: "0 < spec_block_size spec" "0 \<le> num_spec_blocks spec"
    unfolding new_manager_def by blast
  from get obtain cap where m: "m = init_manager spec caching gid sbs dcp zeroing cap"
    by (cases spec) (auto simp: get_manager_for_kv_cache_spec_def)
  show "mgr_inv m" using s by (simp add: m init_manager_def mgr_inv_def)
  show "table_ok m p" by (simp add: m init_manager_def table_ok_def copy_ends_def blocks_of_def dict_get_def)
  show "held m b = 0" by (simp add: m init_manager_def held_def copy_ends_def)
qed

lemma mgr_reach_ok: "mgr_reach sha256 s \<Longrightarrow> \<exists>c. refs_inv c s"
proof (induction rule: mgr_reach.induct)
  case (reach_init n caching hbs events use_int p ms)
  then have p: "pool_inv (map Block [1..<nat n]) p" "\<forall>b. ref_cnt (blocks p b) = 0" using init_pool_spec[of n caching hbs events use_int] by auto
  have "holdings ms b = 0" for b
    using reach_init.hyps(3) new_manager_inv(3) by (induction ms) (auto simp: holdings_def)
  then have "refs_inv (pool_shape p) (ms, [], p)"
    using p reach_init.hyps(3) new_manager_inv(1,2) by (auto simp: refs_inv_def)
  then show ?case by blast
qed (use mgr_step_ok in blast)

lemma held_zero_iff: "held m b = 0 \<longleftrightarrow> (\<forall>rid bs. (rid, bs) \<in> set (req_to_blocks m) \<longrightarrow> b \<notin> set bs) \<and> b \<notin> set (copy_ends m)"
  by (auto simp: held_def dict_sum_def count_list_0_iff)

lemma blocks_of_mem: "b \<in> set (blocks_of m rid) \<Longrightarrow> \<exists>bs. (rid, bs) \<in> set (req_to_blocks m) \<and> b \<in> set bs"
  by (auto simp: blocks_of_def dict_get_def split: option.splits dest!: map_of_SomeD[OF sym])

section \<open>References are accounted for\<close>

lemma refs_inv_accounted:
  assumes "refs_inv c (ms, owed, p)"
  shows "(\<forall>b\<in>set (all_blocks p). b \<noteq> null_block p \<longrightarrow> ref_cnt (blocks p b) = int (count_list owed b + holdings ms b)) \<and>
    (\<exists>xs. free_list (free_block_queue p) xs \<and> get_num_free_blocks p = int (length xs) \<and>
      (\<forall>b\<in>set xs. b \<notin> set owed \<and> (\<forall>m\<in>set ms. b \<notin> set (copy_ends m) \<and> (\<forall>rid. b \<notin> set (blocks_of m rid)))) \<and>
      (owed = [] \<and> (\<forall>m\<in>set ms. \<forall>b. held m b = 0) \<longrightarrow> get_num_free_blocks p = num_gpu_blocks p - 1))"
proof -
  from assms obtain xs where inv: "pool_inv xs p"
    and refs: "\<forall>b\<in>set (all_blocks p). b \<noteq> Block 0 \<longrightarrow> ref_cnt (blocks p b) = int (count_list owed b + holdings ms b)"
    by (auto simp: refs_inv_def)
  note q = pool_invD(1)[OF inv] and nb = pool_invD(3)[OF inv]
  have free: "get_num_free_blocks p = int (length xs)"
    using free_list_size[OF queue_okD(1)[OF q]] by (simp add: get_num_free_blocks_def)
  have unused: "b \<notin> set owed \<and> (\<forall>m\<in>set ms. b \<notin> set (copy_ends m) \<and> (\<forall>rid. b \<notin> set (blocks_of m rid)))" if "b \<in> set xs" for b
  proof -
    have "ref_cnt (blocks p b) = 0" "b \<in> set (all_blocks p)" "b \<noteq> Block 0" using queue_okD(3)[OF q that] by blast+
    then have "count_list owed b + holdings ms b = 0" using refs by fastforce
    then have "b \<notin> set owed" "\<forall>m\<in>set ms. held m b = 0" by (auto simp: count_list_0_iff holdings_def)
    then show ?thesis using blocks_of_mem unfolding held_zero_iff by blast
  qed
  have leak: "get_num_free_blocks p = num_gpu_blocks p - 1" if "owed = []" "\<forall>m\<in>set ms. \<forall>b. held m b = 0"
  proof -
    have "holdings ms b = 0" for b using that(2) by (simp add: holdings_def)
    then have "\<forall>b\<in>set (all_blocks p). b \<noteq> Block 0 \<longrightarrow> ref_cnt (blocks p b) = 0" using refs that(1) by simp
    then have "set xs = set (all_blocks p) - {Block 0}" using queue_okD(3,5)[OF q] by blast
    then have "length xs = card (set (all_blocks p) - {Block 0})" using distinct_card[OF queue_okD(7)[OF q]] by simp
    also have "\<dots> = nat (num_gpu_blocks p) - 1"
      using Block_0_in_pool[OF inv] by (simp add: all_blocks_def card_image inj_on_def)
    finally have "length xs = nat (num_gpu_blocks p) - 1" .
    moreover have "0 < num_gpu_blocks p" using q by (simp add: queue_ok_def)
    ultimately show ?thesis using free by linarith
  qed
  show ?thesis using refs nb queue_okD(1)[OF q] free unused leak by (intro conjI exI[of _ xs]) auto
qed

text \<open>
  C5: In every reachable state of any number of managers on one pool, the reference count of every block
  other than the null block is the number of its places in block tables and queued copies of all managers plus the
  references held by callers.  So a block of the free queue is in no block table and no queued copy: it is
  never handed out while somebody still uses it.  And when nobody holds anything, all blocks but the null block
  are free: nothing leaks.
\<close>

theorem references_accounted:
  assumes "mgr_reach sha256 (ms, owed, p)"
  shows "(\<forall>b\<in>set (all_blocks p). b \<noteq> null_block p \<longrightarrow> ref_cnt (blocks p b) = int (count_list owed b + holdings ms b)) \<and>
    (\<exists>xs. free_list (free_block_queue p) xs \<and> get_num_free_blocks p = int (length xs) \<and>
      (\<forall>b\<in>set xs. b \<notin> set owed \<and> (\<forall>m\<in>set ms. b \<notin> set (copy_ends m) \<and> (\<forall>rid. b \<notin> set (blocks_of m rid)))) \<and>
      (owed = [] \<and> (\<forall>m\<in>set ms. \<forall>b. held m b = 0) \<longrightarrow> get_num_free_blocks p = num_gpu_blocks p - 1))"
  using mgr_reach_ok[OF assms] refs_inv_accounted by blast

lemma sample_managers:
  obtains m p where "mgr_reach id ([m], [], p)" and "length (blocks_of m ''a'') = 2" and "num_gpu_blocks p = 4"
proof -
  obtain p0 where p0: "init_pool 4 True 2 False False = Inr p0" "pool_inv (map Block [1..<nat 4]) p0" "num_gpu_blocks p0 = 4"
    using init_pool_spec[of 4 True 2 False False] by auto
  define m0 where "m0 = init_manager (FullAttentionSpec 2) True 0 2 1 False None"
  have "get_manager_for_kv_cache_spec (FullAttentionSpec 2) 8 8 True 0 1 2 False = Inr m0"
    by (simp add: get_manager_for_kv_cache_spec_def m0_def)
  then have "new_manager True m0"
    unfolding new_manager_def by (intro exI conjI, assumption) (simp_all add: num_spec_blocks_def)
  then have r0: "mgr_reach id ([m0], [], p0)" by (intro reach_init[OF p0(1)]) simp_all
  have req: "cdiv 3 (mblock_size m0) = 2" "blocks_of m0 ''a'' = []" "map_of (partial_hit_reqs m0) ''a'' = None" "mspec m0 = FullAttentionSpec 2"
    by (simp_all add: m0_def init_manager_def cdiv_def blocks_of_def dict_get_def)
  obtain p1 where p1: "get_new_blocks 2 p0 = Inr (take 2 (map Block [1..<nat 4]), p1)" "frame (set (take 2 (map Block [1..<nat 4]))) p0 p1"
    using get_new_blocks_spec[OF p0(2), of 2] by auto
  have len: "length (take 2 (map Block [1..<nat 4])) = 2" by simp
  obtain bs where bs: "get_new_blocks 2 p0 = Inr (bs, p1)" "length bs = 2" using p1(1) len by metis
  let ?m = "(set_blocks ''a'' bs m0)\<lparr>new_block_ids := new_block_ids m0\<rparr>"
  have "allocate_new_blocks ''a'' 3 3 m0 p0 = Inr (bs, ?m, p1)"
    using bs(1) by (simp add: allocate_new_blocks_def base_allocate_new_blocks_def redirect_partial_hit_def req)
      (simp add: m0_def init_manager_def)
  then have "mgr_op id m0 p0 [] ?m p1" by (rule op_allocate) simp
  from mstep_op[of 0 "[m0]", simplified, OF this] have "mgr_step id ([m0], [], p0) ([?m], [], p1)" by simp
  with r0 have "mgr_reach id ([?m], [], p1)" by (rule reach_step)
  moreover have "length (blocks_of ?m ''a'') = 2" using bs(2) by (simp add: blocks_of_def set_blocks_def)
  ultimately show thesis using that p1(2) p0(3) by (simp add: frame_def)
qed

theorem references_accounted_witness:
  "\<exists>m p xs. mgr_reach id ([m], [], p) \<and> length (blocks_of m ''a'') = 2 \<and> free_list (free_block_queue p) xs \<and>
     (\<forall>b\<in>set xs. b \<notin> set (blocks_of m ''a''))"
proof -
  obtain m p where r: "mgr_reach id ([m], [], p)" and len: "length (blocks_of m ''a'') = 2" by (rule sample_managers)
  from references_accounted[OF r] obtain xs where "free_list (free_block_queue p) xs" "\<forall>b\<in>set xs. b \<notin> set (blocks_of m ''a'')"
    by auto
  then show ?thesis using r len by blast
qed

end
