(* ===== verification/KV_Manager.thy ===== *)
theory KV_Manager
  imports KV_Coordinator Manager_Machine
begin

text \<open>
  \<^verbatim>\<open>src/vllm/v1/core/kv_cache_manager.py\<close>: the interface of the KV cache to the scheduler.  Its state is the
  coordinator with managers and pool, the statistics and the pins on blocks that a connector offloads.
\<close>

section \<open>Blocks of a request in all groups\<close>

text \<open>
  \<^verbatim>\<open>KVCacheBlocks\<close>.  \<^verbatim>\<open>allocate_slots\<close> asks for the identity of the one empty object that the manager keeps,
  so that object is a constructor of its own; its argument is the number of groups.
\<close>

datatype kv_block_groups = Empty_KVCacheBlocks nat | KVCacheBlocks "block_ref list list"

fun kv_blocks :: "kv_block_groups \<Rightarrow> block_ref list list" where
  "kv_blocks (Empty_KVCacheBlocks n) = replicate n []"
| "kv_blocks (KVCacheBlocks bss) = bss"

definition add_kv_blocks :: "kv_block_groups \<Rightarrow> kv_block_groups \<Rightarrow> kv_block_groups" where
  "add_kv_blocks a b = KVCacheBlocks (map (\<lambda>(x, y). x @ y) (zip (kv_blocks a) (kv_blocks b)))"

definition get_block_ids :: "bool \<Rightarrow> kv_block_groups \<Rightarrow> int list list option" where
  "get_block_ids allow_none b =
     (if allow_none \<and> (\<forall>g\<in>set (kv_blocks b). length g = 0) then None else Some (map (map block_id) (kv_blocks b)))"

definition get_unhashed_block_ids :: "block_pool \<Rightarrow> kv_block_groups \<Rightarrow> int list result" where
  "get_unhashed_block_ids p b =
     py_assert (length (kv_blocks b) = 1)
       (rbind (py_nth (kv_blocks b) 0) (\<lambda>g. Inr (map block_id (filter (\<lambda>x. bhash (blocks p x) = None) g))))"

definition get_unhashed_block_ids_all_groups :: "block_pool \<Rightarrow> kv_block_groups \<Rightarrow> int list list" where
  "get_unhashed_block_ids_all_groups p b =
     map (\<lambda>g. map block_id (filter (\<lambda>x. bhash (blocks p x) = None \<and> \<not> is_null (blocks p x)) g)) (kv_blocks b)"

definition new_empty :: "kv_block_groups \<Rightarrow> kv_block_groups" where
  "new_empty b = KVCacheBlocks (replicate (length (kv_blocks b)) [])"

section \<open>Statistics\<close>

record prefix_cache_stats =
  ps_reset :: bool
  ps_requests :: int
  ps_queries :: int
  ps_hits :: int
  ps_preempted_requests :: int
  ps_preempted_queries :: int
  ps_preempted_hits :: int

definition new_prefix_cache_stats :: prefix_cache_stats where
  "new_prefix_cache_stats = \<lparr>ps_reset = False, ps_requests = 0, ps_queries = 0, ps_hits = 0, ps_preempted_requests = 0,
     ps_preempted_queries = 0, ps_preempted_hits = 0\<rparr>"

definition record_stats :: "int \<Rightarrow> int \<Rightarrow> bool \<Rightarrow> prefix_cache_stats \<Rightarrow> prefix_cache_stats" where
  "record_stats num_toks num_hits preempted s =
     (if preempted
      then s\<lparr>ps_preempted_requests := ps_preempted_requests s + 1, ps_preempted_queries := ps_preempted_queries s + num_toks,
             ps_preempted_hits := ps_preempted_hits s + num_hits\<rparr>
      else s\<lparr>ps_requests := ps_requests s + 1, ps_queries := ps_queries s + num_toks, ps_hits := ps_hits s + num_hits\<rparr>)"

section \<open>Kinds of specifications\<close>

text \<open>
  Whether a specification is one of the classes with an MLA page layout is the flag \<open>mla\<close>; groups of
  \<^verbatim>\<open>UniformTypeKVCacheSpecs\<close> are not modelled.
\<close>

fun get_kv_cache_spec_kind :: "bool \<Rightarrow> kv_cache_spec \<Rightarrow> string" where
  "get_kv_cache_spec_kind mla (SlidingWindowSpec _ _) = (if mla then ''sliding_window_mla'' else ''sliding_window'')"
| "get_kv_cache_spec_kind mla (FullAttentionSpec _) = (if mla then ''mla_attention'' else ''full_attention'')"
| "get_kv_cache_spec_kind mla (RSWASpec _ _) = ''full_attention''"
| "get_kv_cache_spec_kind mla (SinkFullAttentionSpec _ _) = ''sink_full_attention''"
| "get_kv_cache_spec_kind mla (ChunkedLocalAttentionSpec _ _) = ''chunked_local_attention''"
| "get_kv_cache_spec_kind mla (MambaSpec _ _ _) = ''mamba''"
| "get_kv_cache_spec_kind mla (EncoderOnlyAttentionSpec _) = ''encoder_only_attention''"
| "get_kv_cache_spec_kind mla (CrossAttentionSpec _) = ''cross_attention''"

fun get_kv_cache_spec_sliding_window :: "kv_cache_spec \<Rightarrow> int option" where
  "get_kv_cache_spec_sliding_window (SlidingWindowSpec _ w) = Some w"
| "get_kv_cache_spec_sliding_window _ = None"

section \<open>The manager\<close>

record kv_cache_manager =
  km_max_model_len :: int
  km_enable_caching :: bool
  km_enable_kv_cache_events :: bool
  km_log_stats :: bool
  km_stats :: "prefix_cache_stats option"
  km_coordinator :: coordinator
  km_config :: kv_cache_config
  watermark_blocks :: int
  kv_cache_event_metadata :: "(string \<times> int option) list"
  partial_tail_pins :: "(string \<times> block_ref list) list"

text \<open>
  \<^verbatim>\<open>__init__\<close>.  The watermark is a floating-point number in the source and a rational here; \<open>mla\<close> tells which
  page layouts are those of MLA.
\<close>

definition init_kv_cache_manager ::
  "(nat \<Rightarrow> bool) \<Rightarrow> kv_cache_config \<Rightarrow> int \<Rightarrow> int \<Rightarrow> int \<Rightarrow> int option \<Rightarrow> bool \<Rightarrow> bool \<Rightarrow> bool \<Rightarrow> bool \<Rightarrow> int \<Rightarrow> int \<Rightarrow> rat \<Rightarrow>
   int option \<Rightarrow> bool \<Rightarrow> kv_cache_manager result" where
  "init_kv_cache_manager mla cfg max_model_len sched_block_size hash_bs max_in_flight_tokens caching eagle log_stats events
     dcp_world_size pcp_world_size watermark retention use_int =
     rbind (get_kv_cache_coordinator cfg max_model_len (case max_in_flight_tokens of None \<Rightarrow> max_model_len | Some n \<Rightarrow> n) eagle caching
              events dcp_world_size pcp_world_size sched_block_size hash_bs retention use_int) (\<lambda>c.
       py_assert (watermark \<ge> 0)
         (Inr \<lparr>km_max_model_len = max_model_len, km_enable_caching = caching, km_enable_kv_cache_events = events,
               km_log_stats = log_stats, km_stats = (if log_stats then Some new_prefix_cache_stats else None),
               km_coordinator = c, km_config = cfg, watermark_blocks = \<lfloor>watermark * rat_of_int (num_blocks cfg)\<rfloor>,
               kv_cache_event_metadata =
                 map (\<lambda>g. (get_kv_cache_spec_kind (mla (glayout g)) (gspec g), get_kv_cache_spec_sliding_window (gspec g)))
                   (kv_cache_groups cfg),
               partial_tail_pins = []\<rparr>))"

abbreviation km_pool :: "kv_cache_manager \<Rightarrow> block_pool" where
  "km_pool km \<equiv> coord_pool (km_coordinator km)"

definition with_coordinator :: "coordinator \<Rightarrow> kv_cache_manager \<Rightarrow> kv_cache_manager" where
  "with_coordinator c km = km\<lparr>km_coordinator := c\<rparr>"

definition with_pool :: "block_pool \<Rightarrow> kv_cache_manager \<Rightarrow> kv_cache_manager" where
  "with_pool p km = km\<lparr>km_coordinator := (km_coordinator km)\<lparr>coord_pool := p\<rparr>\<rparr>"

definition empty_kv_cache_blocks :: "kv_cache_manager \<Rightarrow> kv_block_groups" where
  "empty_kv_cache_blocks km = Empty_KVCacheBlocks (length (kv_cache_groups (km_config km)))"

definition create_kv_cache_blocks :: "kv_cache_manager \<Rightarrow> block_ref list list \<Rightarrow> kv_block_groups" where
  "create_kv_cache_blocks km bss = (if \<exists>g\<in>set bss. g \<noteq> [] then KVCacheBlocks bss else empty_kv_cache_blocks km)"

definition km_usage :: "kv_cache_manager \<Rightarrow> rat" where
  "km_usage km = get_usage (km_pool km)"

definition make_prefix_cache_stats :: "kv_cache_manager \<Rightarrow> prefix_cache_stats option \<times> kv_cache_manager" where
  "make_prefix_cache_stats km =
     (if \<not> km_log_stats km then (None, km) else (km_stats km, km\<lparr>km_stats := Some new_prefix_cache_stats\<rparr>))"

definition prefix_cache_lookup_enabled :: "kv_cache_manager \<Rightarrow> request \<Rightarrow> bool" where
  "prefix_cache_lookup_enabled km r \<longleftrightarrow> km_enable_caching km \<and> \<not> skip_reading_prefix_cache r"

definition record_prefix_cache_stats :: "request \<Rightarrow> int \<Rightarrow> kv_cache_manager \<Rightarrow> kv_cache_manager result" where
  "record_prefix_cache_stats r num_hits km =
     (if \<not> km_log_stats km \<or> \<not> prefix_cache_lookup_enabled km r then Inr km
      else case km_stats km of
             None \<Rightarrow> Inl AssertionError
           | Some s \<Rightarrow> Inr (km\<lparr>km_stats := Some (record_stats (num_tokens r) num_hits (num_preemptions r > 0) s)\<rparr>))"

section \<open>Prefix-cache hits of a request\<close>

text \<open>In the report mode \<^verbatim>\<open>full\<close> the reused blocks are reported again; \<open>(request, pool)\<close> is passed along.\<close>

definition report_reused_blocks ::
  "(bytes \<Rightarrow> bytes) \<Rightarrow> kv_cache_manager \<Rightarrow> block_ref list list \<Rightarrow> request \<Rightarrow> block_pool \<Rightarrow> (request \<times> block_pool) result" where
  "report_reused_blocks sha256 km computed_blocks r0 p0 =
     rfold (\<lambda>i (r, p).
              let n = length (computed_blocks ! i)
              in if n > 0
                 then rbind (py_nth (kv_cache_groups (km_config km)) (int i)) (\<lambda>g.
                        emit_cached_block_events sha256 r (int n) (spec_block_size (gspec g)) (int i) p)
                 else Inr (r, p)) [0..<length computed_blocks] (r0, p0)"

definition get_computed_blocks ::
  "(bytes \<Rightarrow> bytes) \<Rightarrow> request \<Rightarrow> kv_cache_manager \<Rightarrow> ((kv_block_groups \<times> int \<times> int) \<times> request \<times> kv_cache_manager) result option" where
  "get_computed_blocks sha256 r km =
     (if \<not> prefix_cache_lookup_enabled km r then Some (Inr ((empty_kv_cache_blocks km, 0, 0), r, km))
      else case coord_find_longest_cache_hit (km_coordinator km) (Raw_hashes (block_hashes r)) (num_tokens r - 1) of
             None \<Rightarrow> None
           | Some (Inl e) \<Rightarrow> Some (Inl e)
           | Some (Inr (computed_blocks, num_new_computed_tokens, num_uncached)) \<Rightarrow>
               Some (rbind (if num_new_computed_tokens > 0 \<and> km_enable_kv_cache_events km \<and> kv_cache_report_mode r = Some ''full''
                            then report_reused_blocks sha256 km computed_blocks r (km_pool km) else Inr (r, km_pool km)) (\<lambda>(r', p').
                 let boundary = (if num_uncached \<noteq> 0 then num_new_computed_tokens + num_uncached else 0)
                 in Inr ((create_kv_cache_blocks km computed_blocks, num_new_computed_tokens, boundary), r', with_pool p' km))))"

definition get_computed_blocks_for_connector ::
  "(bytes \<Rightarrow> bytes) \<Rightarrow> request \<Rightarrow> kv_cache_manager \<Rightarrow> ((kv_block_groups \<times> int \<times> int \<times> bool) \<times> request \<times> kv_cache_manager) result option" where
  "get_computed_blocks_for_connector sha256 r km =
     (let c = km_coordinator km;
          reconciled = (case get_computed_blocks sha256 r km of
                          None \<Rightarrow> None
                        | Some (Inl e) \<Rightarrow> Some (Inl e)
                        | Some (Inr ((b, n, s), r', km')) \<Rightarrow> Some (Inr ((b, n, s, False), r', km')))
      in if \<not> (has_mamba_layers (km_config km) \<and> coord_class c = HybridCoordinator \<and> full_attention_group_id c \<noteq> None)
         then reconciled
         else if \<not> prefix_cache_lookup_enabled km r then Some (Inr ((empty_kv_cache_blocks km, 0, 0, False), r, km))
         else case find_longest_cache_hit_per_group c (Raw_hashes (block_hashes r)) (num_tokens r - 1) of
                Inl e \<Rightarrow> Some (Inl e)
              | Inr (computed, group_hits) \<Rightarrow>
                  (case py_nth group_hits (int (the (full_attention_group_id c))) of
                     Inl e \<Rightarrow> Some (Inl e)
                   | Inr num_local \<Rightarrow>
                       if \<exists>hit\<in>set group_hits. hit > num_local then reconciled
                       else Some (Inr ((create_kv_cache_blocks km computed, num_local, 0, \<exists>hit\<in>set group_hits. hit < num_local), r, km))))"

section \<open>Slots for a request\<close>

text \<open>The check of \<^verbatim>\<open>full_sequence_must_fit\<close>.\<close>

definition full_sequence_fits ::
  "request \<Rightarrow> block_ref list list \<Rightarrow> int \<Rightarrow> int \<Rightarrow> int \<Rightarrow> int \<Rightarrow> kv_cache_manager \<Rightarrow> (bool \<times> coordinator) result" where
  "full_sequence_fits r block_list num_encoder_tokens total_computed_tokens num_local_computed_tokens watermark km =
     (let full_num_tokens = min (num_tokens r) (km_max_model_len km)
      in rbind (coord_get_num_blocks_to_allocate (km_coordinator km) (request_id r) full_num_tokens block_list num_encoder_tokens
                  total_computed_tokens num_local_computed_tokens full_num_tokens True) (\<lambda>(n, c).
           Inr (n + watermark \<le> get_num_free_blocks (coord_pool c), c)))"

text \<open>The allocation once there is room: the hit, the new blocks, and what is cached.\<close>

definition take_slots ::
  "(bytes \<Rightarrow> bytes) \<Rightarrow> request \<Rightarrow> block_ref list list \<Rightarrow> bool \<Rightarrow> int \<Rightarrow> int \<Rightarrow> int \<Rightarrow> int \<Rightarrow> int \<Rightarrow> bool \<Rightarrow> coordinator \<Rightarrow>
   kv_cache_manager \<Rightarrow> (kv_block_groups option \<times> request \<times> kv_cache_manager) result" where
  "take_slots sha256 r block_list is_empty_object num_local_computed_tokens num_external_computed_tokens num_tokens_need_slot
     num_tokens_main_model num_encoder_tokens delay_cache_blocks c3 km =
     rbind (if \<not> is_empty_object \<or> num_external_computed_tokens > 0
            then coord_allocate_new_computed_blocks (request_id r) block_list num_local_computed_tokens num_external_computed_tokens c3
            else Inr c3) (\<lambda>c4.
     rbind (coord_allocate_new_blocks (request_id r) num_tokens_need_slot num_tokens_main_model num_encoder_tokens c4) (\<lambda>(new_blocks, c5).
       if \<not> km_enable_caching km \<or> delay_cache_blocks
       then Inr (Some (create_kv_cache_blocks km new_blocks), r, with_coordinator c5 km)
       else rbind (coord_cache_blocks sha256 r (min num_tokens_main_model (num_tokens r)) c5) (\<lambda>(r', c6).
              Inr (Some (create_kv_cache_blocks km new_blocks), r', with_coordinator c6 km))))"

definition allocate_slots ::
  "(bytes \<Rightarrow> bytes) \<Rightarrow> request \<Rightarrow> int \<Rightarrow> int \<Rightarrow> kv_block_groups option \<Rightarrow> int \<Rightarrow> int \<Rightarrow> bool \<Rightarrow> int \<Rightarrow> bool \<Rightarrow> int \<Rightarrow> bool \<Rightarrow>
   kv_cache_manager \<Rightarrow> (kv_block_groups option \<times> request \<times> kv_cache_manager) result" where
  "allocate_slots sha256 r num_new_tokens num_new_computed_tokens new_computed_blocks num_lookahead_tokens
     num_external_computed_tokens delay_cache_blocks num_encoder_tokens full_sequence_must_fit reserved_blocks has_scheduled_reqs km =
     (if num_new_tokens = 0 \<and> num_external_computed_tokens = 0 then Inl ValueError
      else
       let block_list = kv_blocks (case new_computed_blocks of None \<Rightarrow> empty_kv_cache_blocks km | Some b \<Rightarrow> b);
           is_empty_object = (case new_computed_blocks of Some (KVCacheBlocks _) \<Rightarrow> False | _ \<Rightarrow> True);
           num_local_computed_tokens = num_computed_tokens r + num_new_computed_tokens;
           total_computed_tokens = min (num_local_computed_tokens + num_external_computed_tokens) (km_max_model_len km);
           watermark = (if has_scheduled_reqs \<and> (status r = WAITING \<or> status r = PREEMPTED) then watermark_blocks km else 0)
       in rbind (if full_sequence_must_fit
                 then full_sequence_fits r block_list num_encoder_tokens total_computed_tokens num_local_computed_tokens watermark km
                 else Inr (True, km_coordinator km)) (\<lambda>(fits, c1).
          if \<not> fits then Inr (None, r, with_coordinator c1 km)
          else
            let num_tokens_main_model = total_computed_tokens + num_new_tokens;
                num_tokens_need_slot = min (num_tokens_main_model + num_lookahead_tokens) (km_max_model_len km)
            in rbind (coord_remove_skipped_blocks (request_id r) (max 0 (total_computed_tokens - num_in_flight_tokens r))
                        (Some (num_prompt_tokens r)) c1) (\<lambda>c2.
               rbind (coord_get_num_blocks_to_allocate c2 (request_id r) num_tokens_need_slot block_list num_encoder_tokens
                        (num_local_computed_tokens + num_external_computed_tokens) num_local_computed_tokens num_tokens_main_model False)
                 (\<lambda>(n, c3).
               if n + watermark > get_num_free_blocks (coord_pool c3) - reserved_blocks then Inr (None, r, with_coordinator c3 km)
               else take_slots sha256 r block_list is_empty_object num_local_computed_tokens num_external_computed_tokens
                      num_tokens_need_slot num_tokens_main_model num_encoder_tokens delay_cache_blocks c3 km))))"

section \<open>Release\<close>

definition km_free :: "request \<Rightarrow> kv_cache_manager \<Rightarrow> kv_cache_manager result" where
  "km_free r km =
     (let pins = dict_get [] (request_id r) (partial_tail_pins km);
          km1 = km\<lparr>partial_tail_pins := dict_del (request_id r) (partial_tail_pins km)\<rparr>
      in rbind (if pins \<noteq> [] then free_blocks pins (km_pool km) else Inr (km_pool km)) (\<lambda>p.
         rbind (coord_free (request_id r) ((km_coordinator km)\<lparr>coord_pool := p\<rparr>)) (\<lambda>c.
           Inr (with_coordinator c km1))))"

definition km_remove_skipped_blocks :: "string \<Rightarrow> int \<Rightarrow> int option \<Rightarrow> kv_cache_manager \<Rightarrow> kv_cache_manager result" where
  "km_remove_skipped_blocks rid processed_computed_tokens num_prompt km =
     rbind (coord_remove_skipped_blocks rid processed_computed_tokens num_prompt (km_coordinator km)) (\<lambda>c.
       Inr (with_coordinator c km))"

definition km_pop_blocks_for_free :: "request \<Rightarrow> kv_cache_manager \<Rightarrow> block_ref list \<times> kv_cache_manager" where
  "km_pop_blocks_for_free r km =
     (case coord_pop_blocks_for_free (request_id r) (km_coordinator km) of
        (bs, c) \<Rightarrow> (dict_get [] (request_id r) (partial_tail_pins km) @ bs,
                    with_coordinator c (km\<lparr>partial_tail_pins := dict_del (request_id r) (partial_tail_pins km)\<rparr>)))"

definition km_evict_blocks :: "int list \<Rightarrow> kv_cache_manager \<Rightarrow> kv_cache_manager result" where
  "km_evict_blocks ids km = rbind (evict_blocks ids (km_pool km)) (\<lambda>p. Inr (with_pool p km))"

definition km_reset_prefix_cache :: "kv_cache_manager \<Rightarrow> (bool \<times> kv_cache_manager) result" where
  "km_reset_prefix_cache km =
     (case reset_prefix_cache (km_pool km) of
        (ok, p) \<Rightarrow>
          if \<not> ok then Inr (False, with_pool p km)
          else if km_log_stats km
               then (case km_stats km of
                       None \<Rightarrow> Inl AssertionError
                     | Some s \<Rightarrow> Inr (True, (with_pool p km)\<lparr>km_stats := Some (s\<lparr>ps_reset := True\<rparr>)\<rparr>))
               else Inr (True, with_pool p km))"

section \<open>Queries\<close>

definition km_get_num_common_prefix_blocks :: "string \<Rightarrow> kv_cache_manager \<Rightarrow> int list \<times> kv_cache_manager" where
  "km_get_num_common_prefix_blocks rid km =
     (case coord_get_num_common_prefix_blocks rid (km_coordinator km) of (ns, c) \<Rightarrow> (ns, with_coordinator c km))"

text \<open>\<^verbatim>\<open>take_events\<close> writes kind and window of the group into each event of stored blocks; here they stand beside the event.\<close>

definition annotate_event :: "(string \<times> int option) list \<Rightarrow> kv_cache_event \<Rightarrow> kv_cache_event \<times> (string \<times> int option) option" where
  "annotate_event metadata ev =
     (case ev of
        BlockStored b \<Rightarrow>
          if ev_group_idx b < 0 \<or> ev_group_idx b \<ge> int (length metadata) then (ev, None) else (ev, Some (metadata ! nat (ev_group_idx b)))
      | _ \<Rightarrow> (ev, None))"

definition km_take_events :: "kv_cache_manager \<Rightarrow> (kv_cache_event \<times> (string \<times> int option) option) list \<times> kv_cache_manager" where
  "km_take_events km =
     (case take_events (km_pool km) of
        (events, p) \<Rightarrow> (map (annotate_event (kv_cache_event_metadata km)) events, with_pool p km))"

definition get_blocks :: "string \<Rightarrow> kv_cache_manager \<Rightarrow> kv_block_groups" where
  "get_blocks rid km = create_kv_cache_blocks km (coord_get_blocks rid (km_coordinator km))"

definition km_get_block_ids :: "string \<Rightarrow> kv_cache_manager \<Rightarrow> int list list" where
  "km_get_block_ids rid km = map (map block_id) (kv_blocks (get_blocks rid km))"

fun is_decoder_attention :: "kv_cache_spec \<Rightarrow> bool" where
  "is_decoder_attention (MambaSpec _ _ _) = False"
| "is_decoder_attention (CrossAttentionSpec _) = False"
| "is_decoder_attention (EncoderOnlyAttentionSpec _) = False"
| "is_decoder_attention _ = True"

definition get_block_ids_for_computed_tokens :: "string \<Rightarrow> int \<Rightarrow> kv_cache_manager \<Rightarrow> int list list" where
  "get_block_ids_for_computed_tokens rid num_computed km =
     map (\<lambda>(g, ids). if is_decoder_attention (gspec g) then py_take ids (cdiv num_computed (spec_block_size (gspec g))) else ids)
       (zip (kv_cache_groups (km_config km)) (km_get_block_ids rid km))"

fun is_prefix_cached_spec :: "kv_cache_spec \<Rightarrow> bool" where
  "is_prefix_cached_spec (CrossAttentionSpec _) = False"
| "is_prefix_cached_spec (EncoderOnlyAttentionSpec _) = False"
| "is_prefix_cached_spec _ = True"

definition group_cached_tokens :: "block_pool \<Rightarrow> block_ref list \<Rightarrow> int" where
  "group_cached_tokens p bs = fold (\<lambda>b n. max n (case bhash_num_tokens (blocks p b) of None \<Rightarrow> 0 | Some k \<Rightarrow> k)) bs 0"

definition estimate_cached_tokens :: "request \<Rightarrow> kv_cache_manager \<Rightarrow> int" where
  "estimate_cached_tokens r km =
     (let cached = fold (\<lambda>(g, bs) acc.
            if \<not> is_prefix_cached_spec (gspec g) then acc
            else (let n = group_cached_tokens (km_pool km) bs
                  in case acc of None \<Rightarrow> Some n | Some k \<Rightarrow> Some (min k n)))
            (zip (kv_cache_groups (km_config km)) (kv_blocks (get_blocks (request_id r) km))) None
      in case cached of None \<Rightarrow> 0 | Some k \<Rightarrow> k)"

definition km_cache_blocks :: "(bytes \<Rightarrow> bytes) \<Rightarrow> request \<Rightarrow> int \<Rightarrow> kv_cache_manager \<Rightarrow> (request \<times> kv_cache_manager) result" where
  "km_cache_blocks sha256 r num_computed km =
     (if km_enable_caching km
      then rbind (coord_cache_blocks sha256 r num_computed (km_coordinator km)) (\<lambda>(r', c). Inr (r', with_coordinator c km))
      else Inr (r, km))"

fun truncate_groups :: "int \<Rightarrow> block_ref list list \<Rightarrow> kv_manager list \<Rightarrow> block_ref list list result" where
  "truncate_groups n [] [] = Inr []"
| "truncate_groups n (bs # bss) (m # ms) =
     py_assert (n mod mblock_size m = 0)
       (let num = n div mblock_size m
        in py_assert (num \<le> int (length bs)) (rbind (truncate_groups n bss ms) (\<lambda>rest. Inr (py_take bs num # rest))))"
| "truncate_groups n _ _ = Inl ValueError"

definition truncate_computed_blocks :: "kv_block_groups \<Rightarrow> int \<Rightarrow> kv_cache_manager \<Rightarrow> kv_block_groups result" where
  "truncate_computed_blocks b num_computed km =
     rbind (truncate_groups num_computed (kv_blocks b) (single_type_managers (km_coordinator km))) (\<lambda>t.
       Inr (create_kv_cache_blocks km t))"

section \<open>Work for the next step\<close>

definition with_each_manager :: "(kv_manager \<Rightarrow> kv_manager) \<Rightarrow> kv_cache_manager \<Rightarrow> kv_cache_manager" where
  "with_each_manager f km =
     km\<lparr>km_coordinator := (km_coordinator km)\<lparr>single_type_managers := map f (single_type_managers (km_coordinator km))\<rparr>\<rparr>"

definition km_take_new_block_ids :: "kv_cache_manager \<Rightarrow> int list list \<times> kv_cache_manager" where
  "km_take_new_block_ids km =
     (map (\<lambda>m. fst (take_new_block_ids m)) (single_type_managers (km_coordinator km)), with_each_manager (\<lambda>m. snd (take_new_block_ids m)) km)"

definition get_zeroing_block_ids_in_range :: "string \<Rightarrow> int \<Rightarrow> int \<Rightarrow> kv_cache_manager \<Rightarrow> int list list \<times> kv_cache_manager" where
  "get_zeroing_block_ids_in_range rid start_token end_token km =
     (map (\<lambda>m. if record_new_block_ids m
               then map block_id (py_slice (blocks_of m rid) (start_token div mblock_size m) (cdiv end_token (mblock_size m)))
               else []) (single_type_managers (km_coordinator km)),
      with_each_manager (\<lambda>m. if record_new_block_ids m then m\<lparr>req_to_blocks := dict_setdefault rid [] (req_to_blocks m)\<rparr> else m) km)"

fun zero_from :: "string \<Rightarrow> int \<Rightarrow> kv_manager list \<Rightarrow> kv_manager list result" where
  "zero_from rid start_token [] = Inr []"
| "zero_from rid start_token (m # ms) =
     rbind (if record_new_block_ids m
            then py_assert (start_token mod mblock_size m = 0)
                   (Inr (m\<lparr>req_to_blocks := dict_setdefault rid [] (req_to_blocks m),
                           new_block_ids := new_block_ids m @ map block_id (py_drop (blocks_of m rid) (start_token div mblock_size m))\<rparr>))
            else Inr m) (\<lambda>m'.
     rbind (zero_from rid start_token ms) (\<lambda>ms'. Inr (m' # ms')))"

definition record_blocks_for_zeroing :: "string \<Rightarrow> int \<Rightarrow> kv_cache_manager \<Rightarrow> kv_cache_manager result" where
  "record_blocks_for_zeroing rid start_token km =
     rbind (zero_from rid start_token (single_type_managers (km_coordinator km))) (\<lambda>ms.
       Inr (with_coordinator ((km_coordinator km)\<lparr>single_type_managers := ms\<rparr>) km))"

definition take_kv_cache_block_copies :: "kv_cache_manager \<Rightarrow> ((int \<times> int) list \<times> block_ref list) \<times> kv_cache_manager" where
  "take_kv_cache_block_copies km =
     (let pending = concat (map (\<lambda>m. fst (take_pending_cow_copies m)) (single_type_managers (km_coordinator km)))
      in ((map (\<lambda>(s, d). (block_id s, block_id d)) pending, concat (map (\<lambda>(s, d). [s, d]) pending)),
          with_each_manager (\<lambda>m. snd (take_pending_cow_copies m)) km))"

text \<open>A block handed over for offloading is pinned, and listed for the connector under its request.\<close>

definition pin_offload ::
  "string \<times> int \<times> block_ref \<times> int \<Rightarrow> (string \<times> (int \<times> int \<times> int) list) list \<times> (string \<times> block_ref list) list \<times> block_pool \<Rightarrow>
   ((string \<times> (int \<times> int \<times> int) list) list \<times> (string \<times> block_ref list) list \<times> block_pool) result" where
  "pin_offload offl st =
     (case offl of (rid, gid, b, boundary_tokens) \<Rightarrow> case st of (offloads, pins, p) \<Rightarrow>
        rbind (touch [b] p) (\<lambda>p'.
          Inr (dict_put rid (dict_get [] rid offloads @ [(gid, block_id b, boundary_tokens)]) offloads,
               dict_put rid (dict_get [] rid pins @ [b]) pins, p')))"

definition take_partial_tail_offloads ::
  "kv_cache_manager \<Rightarrow> ((string \<times> (int \<times> int \<times> int) list) list \<times> kv_cache_manager) result" where
  "take_partial_tail_offloads km =
     (let pending = concat (map (\<lambda>m. fst (take_pending_partial_tail_offloads m)) (single_type_managers (km_coordinator km)));
          km1 = with_each_manager (\<lambda>m. snd (take_pending_partial_tail_offloads m)) km
      in rbind (rfold pin_offload pending ([], partial_tail_pins km, km_pool km)) (\<lambda>(offloads, pins, p).
           Inr (offloads, with_pool p (km1\<lparr>partial_tail_pins := pins\<rparr>))))"

definition km_new_step_starts :: "kv_cache_manager \<Rightarrow> kv_cache_manager" where
  "km_new_step_starts km = with_coordinator (coord_new_step_starts (km_coordinator km)) km"

end
