(* ===== verification/KV_Machine.thy ===== *)
theory KV_Machine
  imports KV_Manager
begin

text \<open>
  The KV-cache manager as a state machine of its public methods.  In every reachable state the reference count of
  a block is the number of its places in block tables and queued copies, of the pins for offloading and of the
  references that the scheduler was given.
\<close>

section \<open>Hand-overs for offloading\<close>

text \<open>The blocks queued for a connector are blocks of the pool.\<close>

definition offl_blocks :: "kv_manager \<Rightarrow> block_ref set" where
  "offl_blocks m = set (map (\<lambda>x. fst (snd (snd x))) (pending_partial_tail_offloads m))"


lemma set_blocks_offl [simp]: "pending_partial_tail_offloads (set_blocks rid bs m) = pending_partial_tail_offloads m"
  by (simp add: set_blocks_def)















section \<open>Loops over the managers\<close>







section \<open>Operations of the coordinator\<close>



lemma with_managers_simps [simp]:
  "single_type_managers (with_managers ms p co) = ms" "coord_pool (with_managers ms p co) = p"
  "coord_class (with_managers ms p co) = coord_class co" "coord_retention_interval (with_managers ms p co) = coord_retention_interval co"
  by (simp_all add: with_managers_def)















lemma concat_Nils [simp]: "concat (map (\<lambda>_. []) xs) = []"
  by simp



section \<open>The machine\<close>



abbreviation km_managers :: "kv_cache_manager \<Rightarrow> kv_manager list" where
  "km_managers km \<equiv> single_type_managers (km_coordinator km)"





lemma with_pool_simps [simp]:
  "km_pool (with_pool p km) = p" "km_managers (with_pool p km) = km_managers km" "partial_tail_pins (with_pool p km) = partial_tail_pins km"
  "km_coordinator (with_coordinator co km) = co" "partial_tail_pins (with_coordinator co km) = partial_tail_pins km"
  "km_pool (with_each_manager g km) = km_pool km" "km_managers (with_each_manager g km) = map g (km_managers km)"
  "partial_tail_pins (with_each_manager g km) = partial_tail_pins km"
  by (simp_all add: with_pool_def with_coordinator_def with_each_manager_def)













text \<open>Changes of a manager that the accounting does not see.\<close>

definition quiet_change :: "kv_manager \<Rightarrow> kv_manager \<Rightarrow> bool" where
  "quiet_change m m' \<longleftrightarrow> (\<forall>b. held m' b = held m b) \<and> (\<forall>p. table_ok m p \<longrightarrow> table_ok m' p) \<and> (mgr_inv m \<longrightarrow> mgr_inv m') \<and>
     offl_blocks m' = offl_blocks m"


lemma quiet_refl [simp]: "quiet_change m m"
  by (simp add: quiet_change_def)



section \<open>Every step keeps the accounting\<close>













end
