(* ===== verification/Window_Lookup.thy ===== *)
theory Window_Lookup
  imports Cache_Lookup
begin

text \<open>
  What \<open>swa_find_longest_cache_hit\<close>, \<open>chunked_find_longest_cache_hit\<close> and \<open>mamba_find_longest_cache_hit\<close>
  find, and that \<open>reachable_block_mask\<close> keeps the blocks these lookups need.
\<close>

section \<open>The longest hit of a sliding window\<close>

lemma py_take_nat: "py_take xs (int n) = take n xs"
  by simp

text \<open>
  The right edge \<open>e\<close> of a run of cached blocks serves a hit when the length left after the eagle drop is
  aligned and the blocks of the window, \<open>need\<close> of them or as many as there are, are cached.
\<close>

definition edge_ok :: "int \<Rightarrow> int \<Rightarrow> bool \<Rightarrow> nat \<Rightarrow> bool" where
  "edge_ok al bs eagle e \<longleftrightarrow> al dvd (int e - (if eagle then 1 else 0)) * bs"

definition window_cached :: "block_pool \<Rightarrow> int list \<Rightarrow> (nat \<Rightarrow> bytes) \<Rightarrow> int \<Rightarrow> nat \<Rightarrow> bool" where
  "window_cached p gids h need e \<longleftrightarrow> (\<forall>j<e. int e - need \<le> int j \<longrightarrow> cached_for p gids (h j))"

definition none_above :: "block_pool \<Rightarrow> int list \<Rightarrow> (nat \<Rightarrow> bytes) \<Rightarrow> int \<Rightarrow> (nat \<Rightarrow> bool) \<Rightarrow> nat \<Rightarrow> nat \<Rightarrow> bool" where
  "none_above p gids h need ok e upto_e \<longleftrightarrow> (\<forall>e'. e < e' \<and> e' \<le> upto_e \<and> ok e' \<longrightarrow> \<not> window_cached p gids h need e')"

definition rows_window :: "block_pool \<Rightarrow> int list \<Rightarrow> (nat \<Rightarrow> bytes) \<Rightarrow> nat \<Rightarrow> nat \<Rightarrow> nat \<Rightarrow> block_ref list list \<Rightarrow> bool" where
  "rows_window p gids h lo hi len rows \<longleftrightarrow> rows_len (length gids) len rows \<and> rows_hold p gids h {lo..<hi} rows \<and>
     (\<forall>g < length gids. \<forall>j<lo. rows ! g ! j = null_block p)"

lemma rows_window_grow:
  assumes "rows_window p gids h (Suc i) e n rows" and "list_all2 (holds_key p (h i)) gids cached" and "i < e" and "e \<le> n"
  shows "rows_window p gids h i e n (set_each i rows cached)"
proof -
  have len: "length cached = length gids" using assms(2) by (simp add: list_all2_lengthD)
  have "{i..<e} = insert i {Suc i..<e}" using assms(3) by auto
  then show ?thesis
    using assms rows_len_set_each[of "length gids" n rows cached i] rows_hold_set_each[of p gids h "{Suc i..<e}" rows n i cached] len
    by (auto simp: rows_window_def set_each_nth rows_len_def)
qed

lemma rows_window_take:
  assumes "rows_window p gids h i e n rows" and "i \<le> e" and "e \<le> n"
  shows "rows_window p gids h i e e (map (take e) rows)"
  using assms by (auto simp: rows_window_def rows_len_def rows_hold_def)

lemma rows_window_shrink:
  assumes "rows_window p gids h (Suc i) e n rows"
  shows "rows_window p gids h i i n rows"
  using assms by (auto simp: rows_window_def rows_hold_def rows_len_def)

lemma rows_window_start: "rows_window p gids h n n n (replicate (length gids) (replicate n (null_block p)))"
  by (auto simp: rows_window_def rows_hold_def)

lemma miss_none_above:
  assumes "\<not> cached_for p gids (h i)" and "int (e - i) \<le> need"
  shows "none_above p gids h need ok i e"
  using assms by (auto simp: none_above_def window_cached_def)

lemma none_above_trans:
  "none_above p gids h need ok e i \<Longrightarrow> none_above p gids h need ok i upto_e \<Longrightarrow> none_above p gids h need ok e upto_e"
  unfolding none_above_def by (meson not_le)

text \<open>What the search gives for the edges up to \<open>e\<close>: a run of \<open>need\<close> blocks, or the run at the start.\<close>

definition swa_result ::
  "block_pool \<Rightarrow> int list \<Rightarrow> (nat \<Rightarrow> bytes) \<Rightarrow> int \<Rightarrow> (nat \<Rightarrow> bool) \<Rightarrow> nat \<Rightarrow> nat \<Rightarrow> block_ref list list \<Rightarrow> nat \<Rightarrow> bool \<Rightarrow> bool" where
  "swa_result p gids h need ok n e rows nc found \<longleftrightarrow>
     (if found then \<exists>e'. nc \<le> e' \<and> e' \<le> e \<and> int nc = need \<and> ok e' \<and> window_cached p gids h need e' \<and>
           rows_window p gids h (e' - nc) e' e' rows \<and> none_above p gids h need ok e' e
      else int nc < need \<and> nc \<le> e \<and> (0 < nc \<longrightarrow> ok nc) \<and> window_cached p gids h need nc \<and>
           rows_window p gids h 0 nc n rows \<and> none_above p gids h need ok nc e)"

lemma swa_result_extend:
  assumes "swa_result p gids h need ok n i rows nc found" and "none_above p gids h need ok i e" and "i \<le> e"
  shows "swa_result p gids h need ok n e rows nc found"
proof (cases found)
  case True
  then obtain e' where "nc \<le> e'" "e' \<le> i" "int nc = need" "ok e'" "window_cached p gids h need e'"
    "rows_window p gids h (e' - nc) e' e' rows" "none_above p gids h need ok e' i"
    using assms(1) unfolding swa_result_def by auto
  then show ?thesis
    using True assms(3) none_above_trans[OF _ assms(2)] unfolding swa_result_def by (auto intro!: exI[of _ e'])
next
  case False
  then show ?thesis
    using assms none_above_trans[OF _ assms(2)] unfolding swa_result_def by auto
qed

lemma swa_loop_spec:
  assumes lo: "lookup_ok p gids" and hash: "\<forall>j<n. view_get v (int j) = Inr (h j)"
  shows "i \<le> e \<Longrightarrow> e \<le> n \<Longrightarrow> int (e - i) < need \<Longrightarrow> \<forall>j. i \<le> j \<and> j < e \<longrightarrow> cached_for p gids (h j) \<Longrightarrow>
    (i < e \<longrightarrow> edge_ok al bs eagle e) \<Longrightarrow> rows_window p gids h i e n rows \<Longrightarrow>
    \<exists>rows' nc found. swa_loop v gids p need bs al eagle (rev [0..int i - 1]) rows (int (e - i)) = Inr (rows', int nc, found) \<and>
      swa_result p gids h need (edge_ok al bs eagle) n e rows' nc found"
proof (induction i arbitrary: e rows)
  case 0
  then show ?case
    by (intro exI[of _ rows] exI[of _ e] exI[of _ False]) (auto simp: window_cached_def none_above_def swa_result_def)
next
  case (Suc i)
  let ?ok = "edge_ok al bs eagle"
  let ?res = "\<lambda>e rows nc found. swa_result p gids h need ?ok n e rows nc found"
  have suc: "int (Suc i) - 1 = int i" by simp
  have range: "rev [0..int i] = int i # rev [0..int i - 1]" by (simp add: upto_rec2)
  have h: "view_get v (int i) = Inr (h i)" using hash Suc.prems by simp
  have on: ?case if call: "swa_loop v gids p need bs al eagle (rev [0..int (Suc i) - 1]) rows (int (e - Suc i)) =
      swa_loop v gids p need bs al eagle (rev [0..int i - 1]) rows 0" and none: "none_above p gids h need ?ok i e"
  proof -
    have "\<exists>rows' nc found. swa_loop v gids p need bs al eagle (rev [0..int i - 1]) rows (int (i - i)) = Inr (rows', int nc, found) \<and>
      ?res i rows' nc found"
      by (rule Suc.IH[OF _ _ _ _ _ rows_window_shrink[OF Suc.prems(6)]]) (use Suc.prems(1-3) in auto)
    then obtain rows' nc found where "swa_loop v gids p need bs al eagle (rev [0..int i - 1]) rows 0 = Inr (rows', int nc, found)"
      and res: "?res i rows' nc found" by auto
    moreover have "?res e rows' nc found" by (rule swa_result_extend[OF res none]) (use Suc.prems(1) in simp)
    ultimately show ?thesis unfolding call by blast
  qed
  show ?case
  proof (cases rule: get_cached_cases[OF lo, of "h i", case_names hit miss])
    case (miss r)
    have "none_above p gids h need ?ok i e"
      by (rule miss_none_above[of p gids h i e need, OF miss(3)]) (use Suc.prems(1,3) in linarith)
    then show ?thesis using miss(1,2) h by (intro on) (simp_all add: range)
  next
    case (hit r cached)
    let ?skip = "int (e - Suc i) = 0 \<and> bs \<noteq> al \<and> ((if eagle then int i else int i + 1) * bs) mod al \<noteq> 0"
    have edge: "?ok (Suc i) \<longleftrightarrow> ((if eagle then int i else int i + 1) * bs) mod al = 0"
      unfolding edge_ok_def dvd_eq_mod_eq_0 by (cases eagle) (simp_all add: algebra_simps)
    show ?thesis
    proof (cases ?skip)
      case True
      then have e: "e = Suc i" using Suc.prems(1) by simp
      have "none_above p gids h need ?ok i e"
        using edge True by (auto simp: none_above_def le_Suc_eq e)
      then show ?thesis using hit(1,2) h True by (intro on) (simp_all add: range)
    next
      case False
      let ?rows = "set_each i rows cached"
      have nc: "int (e - Suc i) + 1 = int (e - i)" using Suc.prems(1) by simp
      have ok: "?ok e"
      proof (cases "Suc i < e")
        case False
        then have "e = Suc i" using Suc.prems(1) by simp
        then show ?thesis using \<open>\<not> ?skip\<close> edge by (auto simp: edge_ok_def)
      qed (use Suc.prems(5) in simp)
      have win: "rows_window p gids h i e n ?rows"
        by (rule rows_window_grow[OF Suc.prems(6) hit(3)]) (use Suc.prems(1,2) in simp_all)
      have run: "\<forall>j. i \<le> j \<and> j < e \<longrightarrow> cached_for p gids (h j)"
        using hit(4) Suc.prems(4) by (metis Suc_leI le_neq_implies_less)
      have step: "swa_loop v gids p need bs al eagle (rev [0..int (Suc i) - 1]) rows (int (e - Suc i)) =
          (if int (e - i) \<ge> need then Inr (map (\<lambda>c. py_take c (int i + int (e - i))) ?rows, int (e - i), True)
           else swa_loop v gids p need bs al eagle (rev [0..int i - 1]) ?rows (int (e - i)))"
        unfolding nc[symmetric] suc range swa_loop.simps h rbind_Inr hit(1,2) option.case if_not_P[OF False] Let_def nat_int
        by (rule refl)
      show ?thesis
      proof (cases "int (e - i) \<ge> need")
        case True
        have trim: "map (\<lambda>c. py_take c (int i + int (e - i))) ?rows = map (take e) ?rows"
          using win Suc.prems(1,2) by (auto simp: rows_window_def rows_len_def py_take_def slice_bound_def)
        have need: "int (e - i) = need" using True Suc.prems(3) nc by linarith
        have "window_cached p gids h need e"
          unfolding window_cached_def need[symmetric] using run Suc.prems(1) by auto
        then have res: "?res e (map (take e) ?rows) (e - i) True"
          using rows_window_take[OF win] ok Suc.prems(1,2) need unfolding swa_result_def
          by (auto simp: none_above_def intro!: exI[of _ e])
        show ?thesis unfolding step if_P[OF True] trim by (intro exI conjI, rule refl, rule res)
      next
        case small: False
        have "\<exists>rows' nc found. swa_loop v gids p need bs al eagle (rev [0..int i - 1]) ?rows (int (e - i)) = Inr (rows', int nc, found) \<and>
          ?res e rows' nc found"
          by (rule Suc.IH[OF _ Suc.prems(2) _ run _ win]) (use Suc.prems(1) ok small in simp_all)
        then show ?thesis using step small by simp
      qed
    qed
  qed
qed


text \<open>The hashes a lookup at a coarser block size sees.\<close>

lemma coarse_view:
  assumes "0 < hash_block_size p" and "0 < bs" and "hash_block_size p dvd bs"
    and "0 \<le> max_length" and "max_length div bs * bs \<le> int (length hs) * hash_block_size p"
  obtains v where "resolve_block_hashes (Raw_hashes hs) (hash_block_size p) bs False (Some al) = Inr v"
    and "\<forall>j < nat (max_length div bs). view_get v (int j) = Inr (boundary_hash p hs (int (Suc j) * bs))"
proof -
  obtain v where v: "resolve_block_hashes (Raw_hashes hs) (hash_block_size p) bs False None = Inr v"
    "view_len v = int (length hs) * hash_block_size p div bs"
    "\<And>i. 0 \<le> i \<Longrightarrow> i < view_len v \<Longrightarrow> view_get v i = Inr (hs ! (nat ((i + 1) * bs div hash_block_size p) - 1))"
    using resolved_view[OF assms(1,2), of hs] assms(3) by (metis dvd_imp_mod_0)
  have "max_length div bs \<le> view_len v"
    unfolding v(2) using assms(5) le_div_iff_int[OF assms(2)] by blast
  then have "\<forall>j < nat (max_length div bs). view_get v (int j) = Inr (boundary_hash p hs (int (Suc j) * bs))"
    using v(3) by (auto simp: boundary_hash_def add.commute)
  moreover have "resolve_block_hashes (Raw_hashes hs) (hash_block_size p) bs False (Some al) = Inr v"
    using v(1) unfolding resolve_block_hashes_def by (simp split: if_splits)
  ultimately show thesis using that by blast
qed

lemma pop_until_aligned_done:
  assumes "rows_len n k rows" and "0 < n" and "al dvd int k * bs"
  shows "pop_until_aligned bs al rows = Inr rows"
  using assms by (cases rows) (auto simp: rows_len_def dvd_eq_mod_eq_0)

lemma rows_window_butlast:
  assumes "rows_window p gids h lo (Suc k) (Suc k) rows" and "lo \<le> k"
  shows "rows_window p gids h lo k k (map butlast rows)"
  using assms by (auto simp: rows_window_def rows_len_def rows_hold_def nth_butlast)

lemma rows_window_nonempty: "rows_window p gids h lo e k rows \<Longrightarrow> gids \<noteq> [] \<Longrightarrow>
    py_nth rows 0 = Inr (rows ! 0) \<and> length (rows ! 0) = k \<and> (0 < k \<longrightarrow> [] \<notin> set rows)"
  by (auto simp: rows_window_def rows_len_def py_nth_def)

lemma swa_hit:
  assumes lo: "lookup_ok p gids" and sizes: "0 < hash_block_size p" "0 < bs" "hash_block_size p dvd bs" "0 < al" "bs dvd al"
    and w: "2 \<le> w" and eagle: "eagle \<longrightarrow> al = bs"
    and len: "0 \<le> max_length" "max_length div bs * bs \<le> int (length hs) * hash_block_size p"
    and need_def: "need = contiguous_blocks_for_hit w bs eagle" and h_def: "h = (\<lambda>j. boundary_hash p hs (int (Suc j) * bs))"
    and n_def: "n = nat (max_length div bs)" and dropped_def: "dropped = (if eagle then 1 else 0)"
  shows "\<exists>rows k. swa_find_longest_cache_hit (Raw_hashes hs) max_length gids p (SlidingWindowSpec bs w) eagle al 1 = Inr (rows, int k * bs) \<and>
    al dvd int k * bs \<and> int k * bs \<le> max_length \<and>
    (k = 0 \<or> k + dropped \<le> n \<and> window_cached p gids h need (k + dropped)) \<and>
    (\<forall>k'. k' + dropped \<le> n \<and> al dvd int k' * bs \<and> window_cached p gids h need (k' + dropped) \<longrightarrow> k' \<le> k) \<and>
    rows_window p gids h (k + dropped - nat need) k k rows"
proof -
  let ?ok = "edge_ok al bs eagle"
  obtain v where v: "resolve_block_hashes (Raw_hashes hs) (hash_block_size p) bs False (Some al) = Inr v"
    and hash: "\<forall>j < n. view_get v (int j) = Inr (h j)"
    unfolding n_def h_def by (rule coarse_view[OF sizes(1-3) len])
  have gids: "gids \<noteq> []" using lo by (simp add: lookup_ok_def)
  have need: "0 < need"
    using w less_cdiv_iff[OF sizes(2), of 0 "w - 1"] by (simp add: need_def contiguous_blocks_for_hit_def)
  have ok: "?ok (k + dropped) \<longleftrightarrow> al dvd int k * bs" for k
    by (simp add: edge_ok_def dropped_def)
  have nmax: "int n = max_length div bs" unfolding n_def using len(1) sizes(2) by (simp add: pos_imp_zdiv_nonneg_iff)
  have "\<exists>rows nc found. swa_loop v gids p need bs al eagle (rev [0..int n - 1]) (replicate (length gids) (replicate n (null_block p))) (int (n - n)) =
      Inr (rows, int nc, found) \<and> swa_result p gids h need ?ok n n rows nc found"
    by (intro swa_loop_spec[OF lo hash] rows_window_start) (use need in auto)
  then obtain rows nc found where loop: "swa_loop v gids p need bs al eagle (rev [0..max_length div bs - 1])
      (replicate (length gids) (replicate (nat (max_length div bs)) (null_block p))) 0 = Inr (rows, int nc, found)"
    and res: "swa_result p gids h need ?ok n n rows nc found"
    unfolding nmax[symmetric] by auto
  text \<open>The rows after the search, \<open>e\<close> blocks long.\<close>
  obtain e rows1 where e: "e \<le> n" "0 < e \<longrightarrow> ?ok e" "window_cached p gids h need e" "none_above p gids h need ?ok e n"
      "rows_window p gids h (e - nat need) e e rows1"
    and matched: "(if found then Inr rows else pop_until_aligned bs al (map (\<lambda>c. py_take c (int nc)) rows)) = Inr rows1"
  proof (cases found)
    case True
    then obtain e where "nc \<le> e" "e \<le> n" "int nc = need" "?ok e" "window_cached p gids h need e"
      "rows_window p gids h (e - nc) e e rows" "none_above p gids h need ?ok e n"
      using res by (auto simp: swa_result_def)
    then show ?thesis using True by (intro that[of e rows]) auto
  next
    case False
    then have nc: "int nc < need" "nc \<le> n" "0 < nc \<longrightarrow> ?ok nc" "window_cached p gids h need nc"
      "rows_window p gids h 0 nc n rows" "none_above p gids h need ?ok nc n"
      using res by (auto simp: swa_result_def)
    have take: "map (\<lambda>c. py_take c (int nc)) rows = map (take nc) rows"
      using nc(2,5) by (auto simp: rows_window_def rows_len_def py_take_def slice_bound_def)
    have win: "rows_window p gids h 0 nc nc (map (take nc) rows)" by (rule rows_window_take[OF nc(5)]) (use nc in simp_all)
    have "al dvd int nc * bs"
    proof (cases "nc = 0 \<or> eagle")
      case True
      then show ?thesis using eagle by auto
    next
      case False
      then show ?thesis using nc(3) by (simp add: edge_ok_def)
    qed
    then have "pop_until_aligned bs al (map (take nc) rows) = Inr (map (take nc) rows)"
      using win gids by (intro pop_until_aligned_done[of "length gids" nc]) (simp_all add: rows_window_def)
    moreover have "nc - nat need = 0" using nc(1) by simp
    ultimately show ?thesis using nc(2-4,6) win False take by (intro that[of nc "map (take nc) rows"]) simp_all
  qed
  note first = rows_window_nonempty[OF e(5) gids]
  let ?k = "e - dropped" and ?rows = "if eagle \<and> 0 < e then map butlast rows1 else rows1"
  have final: "(if eagle \<and> rows1 ! 0 \<noteq> [] then if [] \<in> set rows1 then Inl IndexError
       else pop_until_aligned bs al (map butlast rows1) else Inr rows1) = Inr ?rows \<and>
     rows_window p gids h (?k + dropped - nat need) ?k ?k ?rows"
  proof (cases "eagle \<and> 0 < e")
    case True
    then obtain m where m: "e = Suc m" by (cases e) auto
    have win: "rows_window p gids h (e - nat need) m m (map butlast rows1)"
      using rows_window_butlast[of p gids h "e - nat need" m rows1] e(5) need unfolding m by simp
    then have "pop_until_aligned bs al (map butlast rows1) = Inr (map butlast rows1)"
      using True eagle gids by (intro pop_until_aligned_done[of "length gids" m]) (simp_all add: rows_window_def)
    then show ?thesis using True first win m by (auto simp: dropped_def)
  next
    case False
    have "e = 0" if eagle using False that by simp
    then have "?k = e" and "?k + dropped - nat need = e - nat need" using need by (auto simp: dropped_def)
    then show ?thesis using False first e(5) by auto
  qed
  note last = rows_window_nonempty[OF conjunct2[OF final] gids]
  have call: "swa_find_longest_cache_hit (Raw_hashes hs) max_length gids p (SlidingWindowSpec bs w) eagle al 1 = Inr (?rows, int ?k * bs)"
    unfolding swa_find_longest_cache_hit_def Let_def kv_cache_spec.case
    using sizes(5) v loop matched conjunct1[OF first] conjunct1[OF final] last
    by (simp add: need_def[symmetric] dvd_imp_mod_0 split del: if_split)
  have kk: "?k = 0 \<or> ?k + dropped = e" by (auto simp: dropped_def)
  have hit: "?k = 0 \<or> ?k + dropped \<le> n \<and> window_cached p gids h need (?k + dropped)"
  proof (cases "?k = 0")
    case False
    then have "?k + dropped = e" using kk by simp
    then show ?thesis using e(1,3) by simp
  qed simp
  have aligned: "al dvd int ?k * bs"
    using kk
  proof
    assume eq: "?k + dropped = e"
    then show ?thesis using ok[of ?k] e(2) by (cases "e = 0") auto
  qed simp
  have bound: "int ?k * bs \<le> max_length" using e(1) by (intro blocks_within[OF sizes(2) len(1)]) (simp add: n_def)
  have most: "\<forall>k'. k' + dropped \<le> n \<and> al dvd int k' * bs \<and> window_cached p gids h need (k' + dropped) \<longrightarrow> k' \<le> ?k"
  proof (intro allI impI, elim conjE)
    fix k' assume k': "k' + dropped \<le> n" "al dvd int k' * bs" "window_cached p gids h need (k' + dropped)"
    then have "\<not> e < k' + dropped" using e(4) ok[of k'] unfolding none_above_def by blast
    then show "k' \<le> ?k" by simp
  qed
  show ?thesis
    by (rule exI[of _ ?rows], rule exI[of _ ?k]) (intro conjI call aligned bound hit most conjunct2[OF final])
qed

text \<open>
  C30: A sliding-window lookup finds the longest prefix it may use.  Unless a block is dropped for EAGLE in a
  model with several block sizes, the result is the greatest aligned number of blocks within \<open>max_length\<close> such that the
  blocks of the window before its end (and the block dropped behind it) are cached for all groups.  The
  blocks before the window are the null block, those of the window are registered under their hashes.
\<close>

theorem swa_hit_longest:
  assumes lo: "lookup_ok p gids" and sizes: "0 < hash_block_size p" "0 < bs" "hash_block_size p dvd bs" "0 < al" "bs dvd al"
    and w: "2 \<le> w" and eagle: "eagle \<longrightarrow> al = bs"
    and len: "0 \<le> max_length" "max_length div bs * bs \<le> int (length hs) * hash_block_size p"
    and need_def: "need = contiguous_blocks_for_hit w bs eagle" and h_def: "h = (\<lambda>j. boundary_hash p hs (int (Suc j) * bs))"
    and n_def: "n = nat (max_length div bs)" and dropped_def: "dropped = (if eagle then 1 else 0)"
  shows "\<exists>rows k. swa_find_longest_cache_hit (Raw_hashes hs) max_length gids p (SlidingWindowSpec bs w) eagle al 1 = Inr (rows, int k * bs) \<and>
    al dvd int k * bs \<and> int k * bs \<le> max_length \<and>
    (k = 0 \<or> k + dropped \<le> n \<and> window_cached p gids h need (k + dropped)) \<and>
    (\<forall>k'. k' + dropped \<le> n \<and> al dvd int k' * bs \<and> window_cached p gids h need (k' + dropped) \<longrightarrow> k' \<le> k) \<and>
    rows_window p gids h (k + dropped - nat need) k k rows"
  by (rule swa_hit[OF assms])


text \<open>A pool in which a block is registered under each of some hashes.\<close>

lemma pool_with_group_hashes:
  assumes gids: "gids \<noteq> []" "\<forall>g\<in>set gids. 0 \<le> g \<and> g < 2 ^ 32"
  obtains p where "lookup_ok p gids" and "hash_block_size p = hbs" and "\<forall>h\<in>set hs. cached_for p gids h"
proof -
  obtain p where p: "pool_inv (map Block [1..<nat 2]) p" "num_gpu_blocks p = 2" "hash_block_size p = hbs"
    using init_pool_spec[of 2 True hbs False False] by auto
  have b: "Block 1 \<in> set (all_blocks p)" using p(2) by (simp add: all_blocks_def)
  let ?key = "\<lambda>(h, g). the (case make_block_hash_with_group_id h g of Inr key \<Rightarrow> Some key | Inl e \<Rightarrow> None)"
  let ?keys = "map ?key (List.product hs gids)"
  obtain p' where p': "index_ok p'" "same_alloc p p'" "set (block_keys (Block 1) p') = set ?keys \<union> set (block_keys (Block 1) p)"
    using insert_many_spec[OF pool_invD(2)[OF p(1)] b, of None ?keys] by auto
  have "holds_key p' h g (Block 1)" if m: "h \<in> set hs" "g \<in> set gids" for h g
  proof -
    obtain k where k: "make_block_hash_with_group_id h g = Inr k" using make_key_ok[of g h] gids(2) m(2) by auto
    then have "k \<in> set ?keys" using m by force
    then show ?thesis
      using k b p'(3) same_alloc_all_blocks[OF p'(2)] by (auto simp: holds_key_def)
  qed
  then show thesis
    using that[of p'] p'(1,2) p(3) gids by (auto simp: lookup_ok_def cached_for_def same_alloc_def)
qed

lemma pool_with_hashes:
  obtains p where "lookup_ok p [0]" and "hash_block_size p = hbs" and "\<forall>h\<in>set hs. cached_for p [0] h"
  using pool_with_group_hashes[of "[0]" hbs hs thesis] by simp

theorem swa_hit_longest_witness:
  "\<exists>p rows. swa_find_longest_cache_hit (Raw_hashes [[1], [2]]) 4 [0] p (SlidingWindowSpec 2 3) False 2 1 = Inr (rows, 4)"
proof -
  obtain p where p: "lookup_ok p [0]" "hash_block_size p = 2" "\<forall>h\<in>set [[1], [2]]. cached_for p [0] h"
    by (rule pool_with_hashes)
  let ?h = "\<lambda>j. boundary_hash p [[1], [2]] (int (Suc j) * 2)"
  have need: "contiguous_blocks_for_hit 3 2 False = 1" by (simp add: contiguous_blocks_for_hit_def cdiv_def)
  have win: "window_cached p [0] ?h 1 2" using p(2,3) by (auto simp: window_cached_def boundary_hash_def less_2_cases_iff)
  from swa_hit_longest[OF p(1), of 2 2 3 False 4 "[[1], [2]]" 1 ?h 2 0] p(2) need
  obtain rows k where r: "swa_find_longest_cache_hit (Raw_hashes [[1], [2]]) 4 [0] p (SlidingWindowSpec 2 3) False 2 1 = Inr (rows, int k * 2)"
    "int k * 2 \<le> 4" "\<forall>k'. k' \<le> 2 \<and> 2 dvd int k' * 2 \<and> window_cached p [0] ?h 1 k' \<longrightarrow> k' \<le> k"
    by auto
  have "2 \<le> k" using r(3) win by simp
  then have "k = 2" using r(2) by simp
  then show ?thesis using r(1) by auto
qed

lemma pop_until_aligned_spec:
  assumes "0 < bs" and "0 < m"
  shows "rows_len n k rows \<Longrightarrow> 0 < n \<Longrightarrow> pop_until_aligned bs (int m * bs) rows = Inr (map (take (k - k mod m)) rows)"
proof (induction k arbitrary: rows)
  case 0
  have "map (take (0 - 0 mod m)) rows = rows" by (intro map_idI) (use 0 in \<open>auto simp: rows_len_def\<close>)
  moreover have "pop_until_aligned bs (int m * bs) rows = Inr rows"
    using 0 by (cases rows) (auto simp: rows_len_def)
  ultimately show ?case by simp
next
  case (Suc k)
  then obtain c cs where rows: "rows = c # cs" "length c = Suc k" "\<forall>r\<in>set rows. length r = Suc k"
    by (cases rows) (auto simp: rows_len_def)
  have aligned: "int (Suc k) * bs mod (int m * bs) = 0 \<longleftrightarrow> Suc k mod m = 0"
    unfolding mod_mult_mult2 using assms(1) by (metis mult_eq_0_iff of_nat_eq_0_iff of_nat_mod order_less_irrefl)
  show ?case
  proof (cases "Suc k mod m = 0")
    case True
    then have "pop_until_aligned bs (int m * bs) rows = Inr rows"
      using aligned rows by simp
    moreover have "map (take (Suc k)) rows = rows" using rows(3) by (simp add: map_idI)
    ultimately show ?thesis using True by simp
  next
    case False
    then have "m \<noteq> 1" by auto
    then have "bs \<noteq> int m * bs" using assms(1) by simp
    moreover have "[] \<notin> set cs" using rows by auto
    ultimately have "pop_until_aligned bs (int m * bs) rows = pop_until_aligned bs (int m * bs) (map butlast rows)"
      using False aligned rows(1,2) by simp
    also have "\<dots> = Inr (map (take (k - k mod m)) (map butlast rows))"
      by (rule Suc.IH) (use Suc.prems rows(3) in \<open>auto simp: rows_len_def\<close>)
    also have "k - k mod m = Suc k - Suc k mod m"
      using False by (simp add: mod_Suc split: if_splits)
    also have "map (take (Suc k - Suc k mod m)) (map butlast rows) = map (take (Suc k - Suc k mod m)) rows"
      using rows(3) False by (auto simp: take_butlast)
    finally show ?thesis .
  qed
qed

text \<open>
  C32: With EAGLE and an alignment of several blocks, a sliding-window lookup can give less than the longest hit.  The
  alignment is \<open>m > 1\<close> blocks, the first \<open>m q + 1\<close> blocks are cached, and these are fewer than a full window.
  A hit of \<open>m q\<close> blocks is aligned and leaves the block behind it to be dropped, but the search rounds
  down to the alignment before it drops the block and again after it, and gives \<open>m (q - 1)\<close> blocks.
\<close>

theorem swa_eagle_falls_short:
  assumes lo: "lookup_ok p gids" and sizes: "0 < hash_block_size p" "0 < bs" "hash_block_size p dvd bs"
    and mq: "2 \<le> m" "1 \<le> q" and window: "int (m * q + 1) < contiguous_blocks_for_hit w bs True"
    and len: "int (m * q + 1) * bs \<le> int (length hs) * hash_block_size p"
    and cached: "\<forall>j \<le> m * q. cached_for p gids (boundary_hash p hs (int (Suc j) * bs))"
  shows "\<exists>rows. swa_find_longest_cache_hit (Raw_hashes hs) (int (m * q + 1) * bs) gids p (SlidingWindowSpec bs w) True (int m * bs) 1 =
    Inr (rows, int (m * (q - 1)) * bs)"
proof -
  let ?n = "m * q + 1" and ?h = "\<lambda>j. boundary_hash p hs (int (Suc j) * bs)" and ?al = "int m * bs"
  let ?need = "contiguous_blocks_for_hit w bs True" and ?ok = "edge_ok ?al bs True"
  have n: "int ?n * bs div bs = int ?n" "0 \<le> int ?n * bs" using sizes(2) by (simp_all only: nonzero_mult_div_cancel_right) auto
  obtain v where v: "resolve_block_hashes (Raw_hashes hs) (hash_block_size p) bs False (Some ?al) = Inr v"
    and hash: "\<forall>j < ?n. view_get v (int j) = Inr (?h j)"
    using coarse_view[OF sizes n(2), of hs ?al] len unfolding n(1) nat_int by blast
  let ?start = "replicate (length gids) (replicate ?n (null_block p))"
  have "0 \<le> int ?n" by simp
  then have need: "0 < ?need" using window by linarith
  have "\<exists>rows nc found. swa_loop v gids p ?need bs ?al True (rev [0..int ?n - 1]) ?start (int (?n - ?n)) =
      Inr (rows, int nc, found) \<and> swa_result p gids ?h ?need ?ok ?n ?n rows nc found"
    by (intro swa_loop_spec[OF lo hash] rows_window_start) (use need in auto)
  then obtain rows nc found where loop: "swa_loop v gids p ?need bs ?al True (rev [0..int ?n - 1]) ?start 0 = Inr (rows, int nc, found)"
    and res: "swa_result p gids ?h ?need ?ok ?n ?n rows nc found" by auto
  have "\<not> found"
  proof
    assume found
    then obtain e' where "nc \<le> e'" "e' \<le> ?n" "int nc = ?need" using res by (auto simp: swa_result_def)
    then have "?need \<le> int ?n" by (metis order_trans of_nat_le_iff)
    then show False using window by linarith
  qed
  then have nc: "nc \<le> ?n" "rows_window p gids ?h 0 nc ?n rows" "none_above p gids ?h ?need ?ok nc ?n"
    using res by (auto simp: swa_result_def)
  have "window_cached p gids ?h ?need ?n" using cached by (auto simp: window_cached_def)
  moreover have "?ok ?n" by (simp add: edge_ok_def)
  ultimately have "nc = ?n" using nc(1,3) unfolding none_above_def by (meson le_neq_implies_less le_refl)
  define r1 where "r1 = map (take (m * q)) (map (take ?n) rows)"
  have len0: "rows_len (length gids) ?n (map (take ?n) rows)" using nc(2) by (auto simp: rows_window_def rows_len_def)
  have gids: "0 < length gids" using lo by (simp add: lookup_ok_def)
  have m: "0 < m" "?n mod m = 1" using mq(1) mod_mult_self2[of 1 m q] by (simp_all only: add.commute) auto
  have pop1: "pop_until_aligned bs ?al (map (\<lambda>c. py_take c (int nc)) rows) = Inr r1"
    using pop_until_aligned_spec[OF sizes(2) m(1) len0 gids] 
    unfolding m(2) add_diff_cancel_right' r1_def py_take_nat \<open>nc = ?n\<close> .
  have mq0: "0 < m * q" using mq by simp
  have len1: "rows_len (length gids) (m * q) r1" using len0 by (auto simp: r1_def rows_len_def)
  have len2: "rows_len (length gids) (m * q - 1) (map butlast r1)" using len1 by (auto simp: rows_len_def)
  have less: "m * q - 1 - (m * q - 1) mod m = m * (q - 1)"
  proof -
    have "m * q - 1 = m * (q - 1) + (m - 1)" using mq by (cases q) (simp_all add: algebra_simps)
    moreover have "(m * (q - 1) + (m - 1)) mod m = m - 1"
      unfolding mod_mult_self4 using mq(1) by (intro mod_less) simp
    ultimately show ?thesis by simp
  qed
  define r2 where "r2 = map (take (m * (q - 1))) (map butlast r1)"
  have pop2: "pop_until_aligned bs ?al (map butlast r1) = Inr r2"
    using pop_until_aligned_spec[OF sizes(2) m(1) len2 gids] unfolding less r2_def .
  have "m * (q - 1) \<le> m * q - 1" using less by (metis diff_le_self)
  then have len3: "rows_len (length gids) (m * (q - 1)) r2" using len2 by (auto simp: r2_def rows_len_def)
  have "length (r1 ! 0) \<noteq> 0" using rows_len_nth[OF len1 gids] mq0 by linarith
  then have nth: "py_nth r1 0 = Inr (r1 ! 0)" "r1 ! 0 \<noteq> []" "[] \<notin> set r1" "py_nth r2 0 = Inr (r2 ! 0)" "length (r2 ! 0) = m * (q - 1)"
    using len1 len3 gids mq0 by (auto simp: rows_len_def py_nth_def)
  have "swa_find_longest_cache_hit (Raw_hashes hs) (int ?n * bs) gids p (SlidingWindowSpec bs w) True ?al 1 = Inr (r2, int (m * (q - 1)) * bs)"
    unfolding swa_find_longest_cache_hit_def Let_def kv_cache_spec.case n(1) nat_int
    using v loop pop1 pop2 nth \<open>\<not> found\<close> by (simp del: of_nat_add of_nat_mult)
  then show ?thesis by blast
qed

theorem swa_eagle_falls_short_witness:
  "\<exists>p rows. (\<forall>h\<in>set [[1], [2], [3]]. cached_for p [0] h) \<and>
     swa_find_longest_cache_hit (Raw_hashes [[1], [2], [3]]) 6 [0] p (SlidingWindowSpec 2 7) True 4 1 = Inr (rows, 0)"
proof -
  obtain p where p: "lookup_ok p [0]" "hash_block_size p = 2" "\<forall>h\<in>set [[1], [2], [3]]. cached_for p [0] h"
    by (rule pool_with_hashes)
  have "contiguous_blocks_for_hit 7 2 True = 4" by (simp add: contiguous_blocks_for_hit_def cdiv_def)
  moreover have "\<forall>j \<le> 2. cached_for p [0] (boundary_hash p [[1], [2], [3]] (int (Suc j) * 2))"
  proof (intro allI impI)
    fix j :: nat assume "j \<le> 2"
    then consider "j = 0" | "j = 1" | "j = 2" by linarith
    then show "cached_for p [0] (boundary_hash p [[1], [2], [3]] (int (Suc j) * 2))"
      by cases (use p(2,3) in \<open>simp_all add: boundary_hash_def\<close>)
  qed
  ultimately show ?thesis
    using swa_eagle_falls_short[OF p(1), of 2 2 1 7 "[[1], [2], [3]]"] p(2,3) by auto
qed


section \<open>Chunked local attention and Mamba\<close>

text \<open>
  Blocks before the chunk of the next token are null blocks; from there the lookup takes cached
  blocks up to the first miss.
\<close>

lemma chunked_hit:
  assumes lo: "lookup_ok p gids" and sizes: "0 < hash_block_size p" "0 < bs" "hash_block_size p dvd bs" "0 < cs"
    and len: "0 \<le> max_length" "max_length div bs * bs \<le> int (length hs) * hash_block_size p"
    and h_def: "h = (\<lambda>j. boundary_hash p hs (int (Suc j) * bs))" and n_def: "n = nat (max_length div bs)"
    and a_def: "a = nat (max_length div cs * cs div bs)"
  shows "\<exists>rows k. chunked_find_longest_cache_hit (Raw_hashes hs) max_length gids p (ChunkedLocalAttentionSpec bs cs) False bs 1 =
      Inr (rows, int k * bs) \<and> a \<le> k \<and> k \<le> n \<and> (\<forall>j. a \<le> j \<and> j < k \<longrightarrow> cached_for p gids (h j)) \<and>
      (k < n \<longrightarrow> \<not> cached_for p gids (h k)) \<and> rows_window p gids h a k k rows"
proof -
  obtain v where v: "resolve_block_hashes (Raw_hashes hs) (hash_block_size p) bs False (Some bs) = Inr v"
    and hash: "\<forall>j < n. view_get v (int j) = Inr (h j)"
    unfolding n_def h_def by (rule coarse_view[OF sizes(1-3) len])
  have start: "(if max_length > 0 then max_length div cs * cs else 0) div bs = int a"
  proof -
    have "0 \<le> max_length div cs * cs div bs" using len(1) sizes(2,4) by (simp add: pos_imp_zdiv_nonneg_iff)
    then show ?thesis using len(1) by (auto simp: a_def)
  qed
  have nmax: "max_length div bs = int n" unfolding n_def using len(1) sizes(2) by (simp add: pos_imp_zdiv_nonneg_iff)
  have an: "a \<le> n"
  proof -
    have "max_length div cs * cs \<le> max_length" using sizes(4) le_div_iff_int[OF sizes(4), of "max_length div cs" max_length] by simp
    then have "max_length div cs * cs div bs \<le> max_length div bs" using sizes(2) by (rule zdiv_mono1)
    then show ?thesis by (simp add: a_def n_def)
  qed
  let ?hs = "map (view_get v) [int a..int n - 1]"
  let ?start = "replicate (length gids) (replicate a (null_block p))"
  have hs: "?hs ! j = Inr (h (a + j))" if "j < length ?hs" for j
    using that hash[rule_format, of "a + j"] by (simp add: nth_upto add.commute)
  have acc: "rows_hold p gids h {} ?start" by (simp add: rows_hold_def)
  have hlen: "length ?hs = n - a" using an by simp
  obtain rows k where r: "append_while_cached ?hs gids p ?start = Inr rows" "k \<le> n - a" "rows_len (length gids) (a + k) rows"
    "rows_hold p gids h {a..<a + k} rows" "\<forall>g < length gids. take a (rows ! g) = ?start ! g"
    "\<forall>j < k. cached_for p gids (h (a + j))" "k < n - a \<longrightarrow> \<not> cached_for p gids (h (a + k))"
    using append_while_cached_spec[OF lo hs rows_len_replicate(1) acc, of ] unfolding hlen by auto
  have "rows ! g ! j = null_block p" if "g < length gids" "j < a" for g j
  proof -
    have "rows ! g ! j = take a (rows ! g) ! j" using that by simp
    then show ?thesis using r(5) that by simp
  qed
  then have win: "rows_window p gids h a (a + k) (a + k) rows" using r(3,4) by (simp add: rows_window_def)
  have gids: "gids \<noteq> []" using lo by (simp add: lookup_ok_def)
  have "chunked_find_longest_cache_hit (Raw_hashes hs) max_length gids p (ChunkedLocalAttentionSpec bs cs) False bs 1 = Inr (rows, int (a + k) * bs)"
    unfolding chunked_find_longest_cache_hit_def Let_def kv_cache_spec.case start nmax nat_int
    using v r(1) rows_window_nonempty[OF win gids] by simp
  moreover have "cached_for p gids (h j)" if "a \<le> j" "j < a + k" for j
    using r(6) that by (metis le_add_diff_inverse nat_add_left_cancel_less)
  ultimately show ?thesis
    using r(2,7) an win by (intro exI[of _ rows] exI[of _ "a + k"]) auto
qed

text \<open>The Mamba lookup takes the last aligned block that is cached; one state block is enough.\<close>

lemma mamba_hit:
  assumes lo: "lookup_ok p gids" and sizes: "0 < hash_block_size p" "0 < bs" "hash_block_size p dvd bs" "0 < al" "bs dvd al"
    and len: "0 \<le> max_length" "max_length div bs * bs \<le> int (length hs) * hash_block_size p"
    and h_def: "h = (\<lambda>j. boundary_hash p hs (int (Suc j) * bs))" and n_def: "n = nat (max_length div bs)"
  shows "\<exists>rows k. mamba_find_longest_cache_hit (Raw_hashes hs) max_length gids p (MambaSpec bs mode spec) eagle al 1 =
      Inr (rows, int k * bs) \<and> k \<le> n \<and> al dvd int k * bs \<and> (0 < k \<longrightarrow> cached_for p gids (h (k - 1))) \<and>
      (\<forall>k'. k < k' \<and> k' \<le> n \<and> al dvd int k' * bs \<longrightarrow> \<not> cached_for p gids (h (k' - 1))) \<and>
      rows_window p gids h (k - 1) k k rows"
proof -
  obtain v where v: "resolve_block_hashes (Raw_hashes hs) (hash_block_size p) bs False (Some al) = Inr v"
    and hash: "\<forall>j < n. view_get v (int j) = Inr (h j)"
    unfolding n_def h_def by (rule coarse_view[OF sizes(1-3) len])
  have fine: "\<not> fine_grained_lookup al bs" using sizes(4,5) by (auto simp: fine_grained_lookup_def dest: zdvd_imp_le)
  have resolve: "resolve_block_hashes (Raw_hashes hs) (hash_block_size p) bs True (Some al) = Inr v"
    using v fine unfolding resolve_block_hashes_def fine_grained_lookup_def by (auto split: if_splits)
  have nmax: "max_length div bs = int n" unfolding n_def using len(1) sizes(2) by (simp add: pos_imp_zdiv_nonneg_iff)
  let ?ok = "\<lambda>i. \<not> (bs \<noteq> al \<and> (i + 1) * bs mod al \<noteq> 0)" and ?none = "replicate (length gids) []"
  have ok: "?ok (int j) \<longleftrightarrow> al dvd int (Suc j) * bs" for j
    by (auto simp: dvd_eq_mod_eq_0 add.commute)
  have call: "mamba_find_longest_cache_hit (Raw_hashes hs) max_length gids p (MambaSpec bs mode spec) eagle al 1 =
      rbind (first_cached (view_get v) gids p ?ok (rev [0..int n - 1])) (\<lambda>r.
        Inr (case r of None \<Rightarrow> (?none, 0) | Some (i, cached) \<Rightarrow> (null_padded p i ?none cached, (i + 1) * bs)))"
    unfolding mamba_find_longest_cache_hit_def Let_def is_mamba.simps spec_block_size.simps nmax resolve rbind_Inr if_not_P[OF fine]
    by (rule py_assert_True) (rule conjI[OF TrueI refl])
  have "\<forall>i. 0 \<le> i \<and> i < int n \<longrightarrow> view_get v i = Inr (h (nat i))" using hash by (metis int_nat_eq nat_less_iff)
  from first_cached_down[OF lo this, of ?ok] show ?thesis
  proof (elim disjE exE conjE)
    assume none: "first_cached (view_get v) gids p ?ok (rev [0..int n - 1]) = Inr None"
      "\<forall>i. 0 \<le> i \<and> i < int n \<and> ?ok i \<longrightarrow> \<not> cached_for p gids (h (nat i))"
    have "mamba_find_longest_cache_hit (Raw_hashes hs) max_length gids p (MambaSpec bs mode spec) eagle al 1 = Inr (?none, int 0 * bs)"
      unfolding call none(1) by simp
    moreover have "\<not> cached_for p gids (h (k' - 1))" if "0 < k'" "k' \<le> n" "al dvd int k' * bs" for k'
    proof -
      obtain m where m: "k' = Suc m" using \<open>0 < k'\<close> by (cases k') auto
      have "0 \<le> int m" "int m < int n" using that(2) m by simp_all
      moreover have "?ok (int m)" using that(3) unfolding ok m .
      ultimately have "0 \<le> int m \<and> int m < int n \<and> ?ok (int m)" by blast
      then have "\<not> cached_for p gids (h (nat (int m)))" by (rule none(2)[rule_format])
      then show ?thesis by (simp add: m)
    qed
    moreover have "rows_window p gids h (0 - 1) 0 0 ?none" by (simp add: rows_window_def rows_hold_def)
    ultimately show ?thesis by (intro exI[of _ ?none] exI[of _ 0]) auto
  next
    fix i cached
    assume i: "0 \<le> i" "i < int n" and some: "first_cached (view_get v) gids p ?ok (rev [0..int n - 1]) = Inr (Some (i, cached))"
      and hit: "?ok i" "cached_for p gids (h (nat i))" "list_all2 (holds_key p (h (nat i))) gids cached"
      and above: "\<forall>j. i < j \<and> j < int n \<and> ?ok j \<longrightarrow> \<not> cached_for p gids (h (nat j))"
    obtain j where j: "i = int j" using i(1) nonneg_int_cases by blast
    let ?rows = "null_padded p i ?none cached"
    have lens: "length cached = length gids" using hit(3) by (simp add: list_all2_lengthD)
    have nth: "?rows ! g = replicate j (null_block p) @ [cached ! g]" if "g < length gids" for g
      using that lens by (simp add: null_padded_def j)
    have "rows_window p gids h j (Suc j) (Suc j) ?rows"
      using lens hit(3) nth by (auto simp: rows_window_def rows_len_def rows_hold_def in_set_conv_nth nth_append list_all2_conv_all_nth null_padded_def j)
    moreover have "mamba_find_longest_cache_hit (Raw_hashes hs) max_length gids p (MambaSpec bs mode spec) eagle al 1 = Inr (?rows, int (Suc j) * bs)"
      unfolding call some by (simp add: j add.commute)
    moreover have "\<not> cached_for p gids (h (k' - 1))" if "Suc j < k'" "k' \<le> n" "al dvd int k' * bs" for k'
    proof -
      obtain m where m: "k' = Suc m" using \<open>Suc j < k'\<close> by (cases k') auto
      have "i < int m" "int m < int n" using that(1,2) m j by simp_all
      moreover have "?ok (int m)" using that(3) unfolding ok m .
      ultimately have "i < int m \<and> int m < int n \<and> ?ok (int m)" by blast
      then have "\<not> cached_for p gids (h (nat (int m)))" by (rule above[rule_format])
      then show ?thesis by (simp add: m)
    qed
    ultimately show ?thesis
      using i(2) hit(1,2) ok[of j] j by (intro exI[of _ ?rows] exI[of _ "Suc j"]) auto
  qed
qed


section \<open>The mask keeps what a hit needs\<close>

lemma marks_fold:
  assumes "\<And>m x. length (f x m) = length m"
  shows "length (fold f xs m) = length m"
  using assms by (induction xs arbitrary: m) simp_all

lemma mark_range_length [simp]: "length (mark_range s a b m) = length m"
  unfolding mark_range_def by (rule marks_fold) simp_all

lemma fold_mark_keeps: "m ! i \<Longrightarrow> fold (\<lambda>j m. m[nat (j - s) := True]) js m ! i"
proof (induction js arbitrary: m)
  case (Cons j js)
  have "m[nat (j - s) := True] ! i" using Cons.prems by (cases "nat (j - s) = i"; cases "i < length m") (auto simp: list_update_beyond)
  then show ?case using Cons.IH by simp
qed simp

lemma fold_mark_sets: "k \<in> set js \<Longrightarrow> nat (k - s) < length m \<Longrightarrow> fold (\<lambda>j m. m[nat (j - s) := True]) js m ! nat (k - s)"
proof (induction js arbitrary: m)
  case (Cons j js)
  show ?case
  proof (cases "k = j")
    case True
    then show ?thesis using Cons.prems by (simp add: fold_mark_keeps)
  next
    case False
    then show ?thesis using Cons by simp
  qed
qed simp

lemma mark_range_keeps: "m ! i \<Longrightarrow> mark_range s a b m ! i"
  by (simp add: mark_range_def fold_mark_keeps)

lemma mark_range_sets: "a \<le> k \<Longrightarrow> k < b \<Longrightarrow> nat (k - s) < length m \<Longrightarrow> mark_range s a b m ! nat (k - s)"
  unfolding mark_range_def by (rule fold_mark_sets) simp_all

lemma swa_mark_boundary_length [simp]: "length (swa_mark_boundary s e al bs need shift b m) = length m"
  by (simp add: swa_mark_boundary_def Let_def)

lemma swa_mark_boundaries_length [simp]: "length (fold (swa_mark_boundary s e al bs need shift) boundaries m) = length m"
  by (rule marks_fold) simp_all

lemma swa_mark_boundaries_keeps: "m ! i \<Longrightarrow> fold (swa_mark_boundary s e al bs need shift) boundaries m ! i"
  by (induction boundaries arbitrary: m) (simp_all add: swa_mark_boundary_def Let_def mark_range_keeps)

lemma swa_mark_boundaries_sets:
  assumes "b \<in> set boundaries" and "k = b div al * al div bs + shift" and "max s (k - need) \<le> i" and "i < min e k"
    and "length m = nat (e - s)"
  shows "fold (swa_mark_boundary s e al bs need shift) boundaries m ! nat (i - s)"
  using assms(1,5)
proof (induction boundaries arbitrary: m)
  case (Cons b' boundaries)
  show ?case
  proof (cases "b = b'")
    case True
    have "nat (i - s) < length m" using assms(3,4) Cons.prems(2) by auto
    then have "swa_mark_boundary s e al bs need shift b m ! nat (i - s)"
      using assms(2-4) by (auto simp: swa_mark_boundary_def Let_def intro: mark_range_sets)
    then show ?thesis using True by (simp add: swa_mark_boundaries_keeps)
  next
    case False
    then show ?thesis using Cons by simp
  qed
qed simp

text \<open>The last \<open>need\<close> positions before a multiple of a segment have the greatest remainders.\<close>

lemma tail_of_segment:
  fixes i k need per :: int
  assumes "per dvd k" and "k - need \<le> i" and "i < k" and "need < per"
  shows "per - need \<le> i mod per"
proof -
  have per: "0 < per" using assms(2-4) by linarith
  obtain c where c: "k = per * c" using assms(1) by (rule dvdE)
  define r where "r = per - (k - i)"
  have eq: "i = per * (c - 1) + r" by (simp add: r_def c algebra_simps)
  have "(per * (c - 1) + r) mod per = r"
    unfolding mod_mult_self4 using assms(2-4) by (intro mod_pos_pos_trivial) (simp_all add: r_def)
  then have "i mod per = r" by (subst eq)
  then show ?thesis using assms(2) r_def by linarith
qed

text \<open>
  C31: The mask of reachable blocks keeps the tail of every boundary a sliding-window hit can end at.  These are the
  multiples of the alignment without a retention interval, the multiples of the interval with one, and
  with one also the boundaries given explicitly, rounded down to the alignment.  Of the blocks of the call, none of
  the \<open>need\<close> blocks before such a boundary (shifted by the block dropped for EAGLE) is masked out.
\<close>

theorem mask_keeps_window:
  assumes mask: "swa_reachable_block_mask start_block end_block (Some al) (SlidingWindowSpec bs w) eagle retention boundaries = Inr marks"
    and sizes: "0 < bs" "0 < al" "0 < k" and need: "need = contiguous_blocks_for_hit w bs eagle" and shift: "shift = (if eagle then 1 else 0)"
    and boundary: "retention = None \<and> al dvd k * bs \<or> (\<exists>r. retention = Some r \<and> 0 < r \<and> bs dvd r \<and> r dvd k * bs) \<or>
      (retention \<noteq> None \<and> (\<exists>b\<in>set boundaries. k = b div al * al div bs))"
    and i: "max start_block (k + shift - need) \<le> i" "i < min end_block (k + shift)"
  shows "\<not> masked_out marks (nat (i - start_block))"
proof (cases marks)
  case None
  then show ?thesis by (simp add: masked_out_def)
next
  case (Some m)
  let ?fold = "fold (swa_mark_boundary start_block end_block al bs need shift) boundaries"
  let ?seg = "case retention of None \<Rightarrow> Some al | Some r \<Rightarrow> if r = 0 then None else Some r"
  let ?marks0 = "case ?seg of None \<Rightarrow> replicate (nat (end_block - start_block)) False
    | Some seg \<Rightarrow> map (\<lambda>i. i \<ge> shift \<and> (i - shift) mod (seg div bs) \<ge> seg div bs - need) [start_block..end_block - 1]"
  have al: "al mod bs = 0" using mask by (auto simp: swa_reachable_block_mask_def py_assert_def split: if_splits)
  have m: "m = (if retention = None then ?marks0 else ?fold ?marks0)" and small: "\<And>seg. ?seg = Some seg \<Longrightarrow> need < seg div bs"
    using mask[unfolded Some] al unfolding swa_reachable_block_mask_def need shift
    by (auto simp: Let_def split: option.splits if_splits)
  have len: "length ?marks0 = nat (end_block - start_block)" by (auto split: option.splits)
  have seg: "?marks0 ! nat (i - start_block)" if s: "?seg = Some seg" "bs dvd seg" "seg dvd k * bs" for seg
  proof -
    have per: "seg div bs dvd k" "need < seg div bs"
      using s(2,3) sizes(1) small[OF s(1)] by (auto elim!: dvdE simp: mult.assoc)
    have "seg div bs \<le> k" using per(1) sizes(3) by (rule zdvd_imp_le)
    then have "shift \<le> i" using i(1) per(2) shift by auto
    moreover have "seg div bs - need \<le> (i - shift) mod (seg div bs)"
      by (rule tail_of_segment[OF per(1) _ _ per(2)]) (use i in auto)
    ultimately show ?thesis using i s(1) by (simp add: nth_upto)
  qed
  from boundary have "m ! nat (i - start_block)"
  proof (elim disjE exE conjE)
    assume "retention = None" "al dvd k * bs"
    then show ?thesis using seg[of al] al m by (auto simp: dvd_eq_mod_eq_0)
  next
    fix r assume "retention = Some r" "0 < r" "bs dvd r" "r dvd k * bs"
    then show ?thesis using seg[of r] m by (simp add: swa_mark_boundaries_keeps)
  next
    assume "retention \<noteq> None" "\<exists>b\<in>set boundaries. k = b div al * al div bs"
    then obtain b where "b \<in> set boundaries" "k + shift = b div al * al div bs + shift" by auto
    from swa_mark_boundaries_sets[OF this i len] show ?thesis using m \<open>retention \<noteq> None\<close> by simp
  qed
  then show ?thesis using Some by (simp add: masked_out_def)
qed

theorem mask_keeps_window_witness:
  "\<exists>m. swa_reachable_block_mask 0 8 (Some 8) (SlidingWindowSpec 2 3) False None [] = Inr (Some m) \<and> m ! 7 \<and> \<not> m ! 6"
proof -
  have mask: "swa_reachable_block_mask 0 8 (Some 8) (SlidingWindowSpec 2 3) False None [] =
      Inr (Some [False, False, False, True, False, False, False, True])"
    by code_simp
  have "contiguous_blocks_for_hit 3 2 False = 1" by code_simp
  then have "\<not> masked_out (Some [False, False, False, True, False, False, False, True]) (nat (7 - 0))"
    by (intro mask_keeps_window[OF mask, of 8 1 0 7]) simp_all
  then show ?thesis using mask by (simp add: masked_out_def)
qed

end
