(* ===== verification/Hybrid_Lookup.thy ===== *)
theory Hybrid_Lookup
  imports Window_Lookup KV_Coordinator
begin

text \<open>
  The fixed-point loop of \<^verbatim>\<open>HybridKVCacheCoordinator.find_longest_cache_hit\<close>.  It returns for every input; and
  without EAGLE groups and partial hits, what it returns is the longest prefix that every group can serve.
\<close>

section \<open>Lookups return a length\<close>

lemma first_cached_in:
  "first_cached hash_at gids p ok is = Inr (Some (i, cached)) \<Longrightarrow> i \<in> set is"
  by (induction "is") (auto split: option.splits if_splits elim!: rbindE)

lemma full_partial_tail_cases:
  assumes "full_partial_tail hs mx gids p al bs computed hit = Inr (rows, n)" and "0 \<le> bs div al"
  shows "n = hit \<or> (\<exists>i\<ge>0. n = (i + 1) * al)"
proof -
  let ?first = "int (length (computed ! 0)) * (bs div al)"
  let ?is = "rev [?first..min (min (?first + bs div al - 1) (mx div al)) (int (length hs)) - 1]"
  from assms(1) consider "n = hit" | i cached where "first_cached (py_nth hs) gids p (\<lambda>_. True) ?is = Inr (Some (i, cached))" "n = (i + 1) * al"
    by (auto simp: full_partial_tail_def Let_def elim!: rbindE split: option.splits)
  then show ?thesis
  proof cases
    case 2
    have "i \<in> set ?is" using first_cached_in[OF 2(1)] .
    then have "?first \<le> i" by simp
    moreover have "0 \<le> ?first" using assms(2) by simp
    ultimately show ?thesis using 2(2) by (intro disjI2 exI[of _ i]) simp
  qed simp
qed

lemma full_finish_nonneg:
  assumes "0 < al" and "0 < bs" and "0 \<le> hit" and "0 < hit \<Longrightarrow> min al bs \<le> hit"
  shows "0 \<le> snd (full_finish eagle al bs rows hit)"
proof -
  let ?d = "if eagle \<and> hit > 0 then hit - min al bs else hit"
  have "0 \<le> ?d" using assms(3,4) by auto
  then have "?d mod al \<le> ?d" using zmod_le_nonneg_dividend by blast
  then show ?thesis by (simp add: full_finish_def Let_def)
qed

lemma full_find_nonneg:
  assumes run: "full_find_longest_cache_hit hs mx gids p spec eagle al dcp = Inr (rows, n)"
    and al: "0 < al" and spec: "0 < spec_block_size spec"
  shows "0 \<le> n"
proof -
  define bs where "bs = (if dcp > 1 then spec_block_size spec * dcp else spec_block_size spec)"
  have bs: "0 < bs" using spec by (simp add: bs_def)
  from run obtain computed computed' hit' first raw where r: "py_nth computed 0 = Inr first"
    "(if fine_grained_lookup al bs then full_partial_tail raw mx gids p al bs computed (int (length first) * bs)
      else Inr (computed, int (length first) * bs)) = Inr (computed', hit')"
    "full_finish eagle al bs computed' hit' = (rows, n)"
    unfolding full_find_longest_cache_hit_def Let_def bs_def[symmetric]
    by (auto simp: py_assert_def elim!: rbindE split: if_splits)
  have "0 \<le> hit' \<and> (0 < hit' \<longrightarrow> min al bs \<le> hit')"
  proof -
    have k: "0 \<le> int k * bs \<and> (0 < int k * bs \<longrightarrow> bs \<le> int k * bs)" for k
      using bs by (cases k) (auto simp: distrib_right)
    have al_k: "0 \<le> (i + 1) * al \<and> al \<le> (i + 1) * al" if "0 \<le> i" for i using al that by (auto simp: distrib_right)
    show ?thesis
    proof (cases "fine_grained_lookup al bs")
      case True
      have "0 \<le> bs div al" using al bs by (simp add: pos_imp_zdiv_nonneg_iff)
      with r(2) True full_partial_tail_cases[of raw mx gids p al bs computed "int (length first) * bs" computed' hit']
      show ?thesis using k[of "length first"] al_k by (auto intro: min.coboundedI1 min.coboundedI2)
    next
      case False
      then have "hit' = int (length first) * bs" using r(2) by simp
      then show ?thesis using k[of "length first"] by (auto intro: min.coboundedI2)
    qed
  qed
  then have "0 \<le> snd (full_finish eagle al bs computed' hit')" by (intro full_finish_nonneg[OF al bs]) auto
  then show ?thesis by (simp add: r(3))
qed

lemma mamba_find_nonneg:
  assumes run: "mamba_find_longest_cache_hit hs mx gids p spec eagle al dcp = Inr (rows, n)"
    and al: "0 < al" and spec: "0 < spec_block_size spec"
  shows "0 \<le> n"
proof -
  have "\<exists>u i. 0 < u \<and> 0 \<le> i \<and> (n = 0 \<or> n = (i + 1) * u)"
  proof (cases "fine_grained_lookup al (spec_block_size spec)")
    case True
    from run True obtain raw r where f: "first_cached (py_nth raw) gids p (\<lambda>_. True) (rev [0..min (mx div al) (int (length raw)) - 1]) = Inr r"
      and n: "n = (case r of None \<Rightarrow> 0 | Some (i, cached) \<Rightarrow> (i + 1) * al)"
      by (auto simp: mamba_find_longest_cache_hit_def Let_def py_assert_def elim!: rbindE split: if_splits option.splits)
    show ?thesis
    proof (cases r)
      case (Some ic)
      obtain i cached where "ic = (i, cached)" by (cases ic)
      then have "i \<in> set (rev [0..min (mx div al) (int (length raw)) - 1])" using f Some first_cached_in by blast
      then show ?thesis using n Some \<open>ic = (i, cached)\<close> al by (intro exI[of _ al] exI[of _ i]) simp
    next
      case None
      then show ?thesis using n al by (intro exI[of _ al] exI[of _ 0]) simp
    qed
  next
    case False
    from run False obtain v ok r where f: "first_cached (view_get v) gids p ok (rev [0..mx div spec_block_size spec - 1]) = Inr r"
      and n: "n = (case r of None \<Rightarrow> 0 | Some (i, cached) \<Rightarrow> (i + 1) * spec_block_size spec)"
      by (auto simp: mamba_find_longest_cache_hit_def Let_def py_assert_def elim!: rbindE split: if_splits option.splits)
    show ?thesis
    proof (cases r)
      case (Some ic)
      obtain i cached where "ic = (i, cached)" by (cases ic)
      then have "i \<in> set (rev [0..mx div spec_block_size spec - 1])" using f Some first_cached_in by blast
      then show ?thesis using n Some \<open>ic = (i, cached)\<close> spec by (intro exI[of _ "spec_block_size spec"] exI[of _ i]) simp
    next
      case None
      then show ?thesis using n spec by (intro exI[of _ "spec_block_size spec"] exI[of _ 0]) simp
    qed
  qed
  then show ?thesis by auto
qed

lemma find_nonneg:
  assumes run: "find_longest_cache_hit hs mx gids p spec eagle al dcp = Inr (rows, n)"
    and al: "0 < al" and spec: "0 < spec_block_size spec"
  shows "0 \<le> n"
proof (cases spec)
  case (SlidingWindowSpec bs w)
  then have "\<exists>k. n = int k * bs"
    using run by (auto simp: find_longest_cache_hit_def swa_find_longest_cache_hit_def Let_def py_assert_def elim!: rbindE split: if_splits)
  then show ?thesis using spec SlidingWindowSpec by auto
next
  case (ChunkedLocalAttentionSpec bs cs)
  then have "\<exists>k. n = int k * bs"
    using run by (auto simp: find_longest_cache_hit_def chunked_find_longest_cache_hit_def Let_def py_assert_def elim!: rbindE split: if_splits)
  then show ?thesis using spec ChunkedLocalAttentionSpec by auto
qed (use run al spec full_find_nonneg mamba_find_nonneg in \<open>simp_all add: find_longest_cache_hit_def\<close>)


section \<open>The groups joined by specification\<close>

definition group_ids_of :: "spec_group list \<Rightarrow> nat list" where
  "group_ids_of sgs = concat (map sg_group_ids sgs)"

definition group_matches :: "nat list \<Rightarrow> kv_cache_group list \<Rightarrow> spec_group \<Rightarrow> bool" where
  "group_matches eids gs sg \<longleftrightarrow> sg_group_ids sg \<noteq> [] \<and> (\<forall>i\<in>set (sg_group_ids sg). i < length gs \<and> gspec (gs ! i) = sg_spec sg) \<and>
     (sg_use_eagle sg \<longleftrightarrow> (\<exists>i\<in>set (sg_group_ids sg). i \<in> set eids))"

definition groups_partition :: "nat list \<Rightarrow> kv_cache_group list \<Rightarrow> nat \<Rightarrow> spec_group list \<Rightarrow> bool" where
  "groups_partition eids gs n sgs \<longleftrightarrow> (\<forall>sg\<in>set sgs. group_matches eids gs sg) \<and> distinct (group_ids_of sgs) \<and>
     set (group_ids_of sgs) = {..<n}"

lemma join_ids: "set (group_ids_of (join_spec_group i g e sgs)) = insert i (set (group_ids_of sgs))"
  by (induction sgs) (auto simp: group_ids_of_def)

lemma join_distinct:
  "i \<notin> set (group_ids_of sgs) \<Longrightarrow> distinct (group_ids_of sgs) \<Longrightarrow> distinct (group_ids_of (join_spec_group i g e sgs))"
proof (induction sgs)
  case (Cons sg sgs)
  have app: "group_ids_of (x # xs) = sg_group_ids x @ group_ids_of xs" for x xs by (simp add: group_ids_of_def)
  have IH: "distinct (group_ids_of (join_spec_group i g e sgs))" using Cons unfolding app by simp
  show ?case
  proof (cases "sg_spec sg = gspec g \<and> sg_layout sg = glayout g")
    case True
    then show ?thesis using Cons.prems unfolding app join_spec_group.simps if_P[OF True] by simp
  next
    case False
    then show ?thesis using Cons.prems IH join_ids[of i g e sgs] unfolding app join_spec_group.simps if_not_P[OF False] by simp
  qed
qed (simp add: group_ids_of_def)

lemma join_matches:
  assumes "\<forall>sg\<in>set sgs. group_matches eids gs sg" and "i < length gs"
  shows "\<forall>sg\<in>set (join_spec_group i (gs ! i) (i \<in> set eids) sgs). group_matches eids gs sg"
  using assms
proof (induction sgs)
  case (Cons sg sgs)
  show ?case
  proof (cases "sg_spec sg = gspec (gs ! i) \<and> sg_layout sg = glayout (gs ! i)")
    case True
    have "group_matches eids gs (sg\<lparr>sg_group_ids := sg_group_ids sg @ [i], sg_use_eagle := (sg_use_eagle sg \<or> i \<in> set eids)\<rparr>)"
      using Cons.prems True by (simp add: group_matches_def) metis
    then show ?thesis using Cons.prems unfolding join_spec_group.simps if_P[OF True] by simp
  next
    case False
    then show ?thesis using Cons unfolding join_spec_group.simps if_not_P[OF False] by simp
  qed
qed (simp add: group_matches_def)

lemma split_partition: "groups_partition eids gs (length gs) (split_spec_groups eids gs)"
proof -
  let ?join = "\<lambda>i. join_spec_group i (gs ! i) (i \<in> set eids)"
  have "groups_partition eids gs k (fold ?join [0..<k] [])" if "k \<le> length gs" for k
    using that
  proof (induction k)
    case (Suc k)
    let ?sgs = "fold ?join [0..<k] []"
    have IH: "groups_partition eids gs k ?sgs" using Suc by simp
    have "groups_partition eids gs (Suc k) (?join k ?sgs)"
      using IH join_ids[of k "gs ! k" "k \<in> set eids" ?sgs] join_distinct[of k ?sgs "gs ! k" "k \<in> set eids"] join_matches[of ?sgs eids gs k] Suc.prems
      by (simp add: groups_partition_def lessThan_Suc)
    then show ?case by simp
  qed (simp add: groups_partition_def group_ids_of_def)
  then have "groups_partition eids gs (length gs) (fold ?join [0..<length gs] [])" by simp
  moreover have "groups_partition eids gs n (filter P sgs @ filter (\<lambda>sg. \<not> P sg) sgs)" if "groups_partition eids gs n sgs" for n P sgs
  proof -
    have "set (group_ids_of (filter P sgs @ filter (\<lambda>sg. \<not> P sg) sgs)) = set (group_ids_of sgs)"
      by (auto simp: group_ids_of_def)
    moreover have "length (group_ids_of (filter P sgs @ filter (\<lambda>sg. \<not> P sg) sgs)) = length (group_ids_of sgs)"
      by (induction sgs) (auto simp: group_ids_of_def)
    ultimately have "distinct (group_ids_of (filter P sgs @ filter (\<lambda>sg. \<not> P sg) sgs))"
      using that by (metis card_distinct distinct_card groups_partition_def)
    then show ?thesis using that \<open>set _ = set _\<close> by (auto simp: groups_partition_def)
  qed
  ultimately show ?thesis by (simp add: split_spec_groups_def Let_def)
qed

text \<open>A hybrid coordinator, whatever its managers and its pool are by now.\<close>

definition hybrid_ok :: "coordinator \<Rightarrow> bool" where
  "hybrid_ok c \<longleftrightarrow> 0 < coord_hash_block_size c \<and> 0 < coord_scheduler_block_size c \<and> attention_groups c \<noteq> [] \<and>
     groups_partition (eagle_group_ids c) (kv_cache_groups (coord_config c)) (length (kv_cache_groups (coord_config c))) (attention_groups c) \<and>
     (\<forall>g\<in>set (kv_cache_groups (coord_config c)). 0 < spec_block_size (gspec g))"

lemma hybrid_ok_init:
  assumes init: "init_hybrid_coordinator cfg mml mif eagle caching ev dcp pcp sbs hbs ret ui = Inr c"
    and "0 < hbs" "0 < sbs" "\<forall>g\<in>set (kv_cache_groups cfg). 0 < spec_block_size (gspec g)"
  shows "hybrid_ok (with_managers ms p c)"
proof -
  from init obtain c0 where base: "init_base_coordinator HybridCoordinator cfg mml mif eagle caching ev dcp sbs hbs ret ui = Inr c0"
    and v: "verify_and_split_kv_cache_groups (c0\<lparr>enable_partial_hash_hits := partial_hits_possible cfg dcp hbs\<rparr>) = Inr c"
    by (auto simp: init_hybrid_coordinator_def py_assert_def elim!: rbindE split: if_splits)
  have c0: "coord_config c0 = cfg" "coord_hash_block_size c0 = hbs" "coord_scheduler_block_size c0 = sbs"
    using base by (auto simp: init_base_coordinator_def py_assert_def elim!: rbindE split: if_splits)
  let ?sgs = "split_spec_groups (eagle_group_ids c0) (kv_cache_groups cfg)"
  have "1 < length ?sgs" and c: "attention_groups c = ?sgs" "coord_config c = cfg" "coord_hash_block_size c = hbs"
    "coord_scheduler_block_size c = sbs" "eagle_group_ids c = eagle_group_ids c0"
    using v c0 by (auto simp: verify_and_split_kv_cache_groups_def Let_def py_assert_def split: if_splits)
  then show ?thesis using assms(2-4) split_partition[of "eagle_group_ids c0" "kv_cache_groups cfg"]
    by (auto simp: hybrid_ok_def with_managers_def)
qed

section \<open>The loop returns\<close>

definition lengths_ok :: "coordinator \<Rightarrow> hit_state \<Rightarrow> bool" where
  "lengths_ok c st \<longleftrightarrow> length (hit_length_by_group st) = length (kv_cache_groups (coord_config c)) \<and>
     (\<forall>n\<in>set (hit_length_by_group st). 0 \<le> n) \<and> 0 \<le> curr_hit_length st"

lemma store_hits_lengths:
  "0 \<le> n \<Longrightarrow> (\<forall>n\<in>set (hit_length_by_group st). 0 \<le> n) \<Longrightarrow>
   length (hit_length_by_group (store_hits gs bs n st)) = length (hit_length_by_group st) \<and>
   (\<forall>n\<in>set (hit_length_by_group (store_hits gs bs n st)). 0 \<le> n) \<and> curr_hit_length (store_hits gs bs n st) = curr_hit_length st"
proof (induction gs bs n st rule: store_hits.induct)
  case (1 g gs b bs n st)
  have "\<forall>x\<in>set ((hit_length_by_group st)[g := n]). 0 \<le> x" using 1(2,3) set_update_subset_insert[of "hit_length_by_group st" g n] by blast
  then show ?case using 1 by simp
qed simp_all

lemma alignment_pos: "hybrid_ok c \<Longrightarrow> 0 < cache_hit_alignment_tokens c"
  by (simp add: hybrid_ok_def cache_hit_alignment_tokens_def)

lemma hybrid_group_ok:
  assumes "hybrid_ok c" and "sg \<in> set (attention_groups c)"
  shows "sg_group_ids sg \<noteq> []" and "i \<in> set (sg_group_ids sg) \<Longrightarrow> i < length (kv_cache_groups (coord_config c))"
    and "0 < spec_block_size (sg_spec sg)"
proof -
  have m: "group_matches (eagle_group_ids c) (kv_cache_groups (coord_config c)) sg"
    and pos: "\<forall>g\<in>set (kv_cache_groups (coord_config c)). 0 < spec_block_size (gspec g)"
    using assms by (auto simp: hybrid_ok_def groups_partition_def)
  then show "sg_group_ids sg \<noteq> []" and "i \<in> set (sg_group_ids sg) \<Longrightarrow> i < length (kv_cache_groups (coord_config c))"
    by (auto simp: group_matches_def)
  obtain i where "i \<in> set (sg_group_ids sg)" using \<open>sg_group_ids sg \<noteq> []\<close> by fastforce
  then have "i < length (kv_cache_groups (coord_config c))" "gspec (kv_cache_groups (coord_config c) ! i) = sg_spec sg"
    using m by (auto simp: group_matches_def)
  then show "0 < spec_block_size (sg_spec sg)" using pos nth_mem by metis
qed

lemma hybrid_step_lengths:
  assumes ok: "hybrid_ok c" "sg \<in> set (attention_groups c)" and st: "lengths_ok c st"
    and run: "hybrid_group_step c hs mx idx sg st = Inr st'"
  shows "lengths_ok c st'"
proof (cases "is_full_attention (sg_spec sg) \<and> hit_blocks_by_group st ! hd (sg_group_ids sg) \<noteq> None")
  case True
  have "hd (sg_group_ids sg) < length (hit_length_by_group st)"
    using hybrid_group_ok(1,2)[OF ok] st by (simp add: lengths_ok_def)
  then have "0 \<le> hit_length_by_group st ! hd (sg_group_ids sg)" using st nth_mem by (auto simp: lengths_ok_def)
  then show ?thesis using run True st by (auto simp: hybrid_group_step_def Let_def lengths_ok_def)
next
  case False
  let ?drop = "sg_use_eagle sg \<and> idx \<notin> set (eagle_verified st)"
  let ?mx = "if ?drop \<and> \<not> is_mamba (sg_spec sg) then min (curr_hit_length st + eagle_margin c sg) mx else curr_hit_length st"
  let ?st = "\<lambda>n. st\<lparr>eagle_verified := (if ?drop then set_add idx (eagle_verified st) else if n < curr_hit_length st then [] else eagle_verified st),
                  curr_hit_length := n\<rparr>"
  from run[unfolded hybrid_group_step_def Let_def if_not_P[OF False]] obtain rows n where
    f: "find_longest_cache_hit hs ?mx (map int (sg_group_ids sg)) (coord_pool c) (sg_spec sg) ?drop
      (cache_hit_alignment_tokens c) (if is_full_attention (sg_spec sg) then coord_dcp_world_size c else 1) = Inr (rows, n)"
    and st': "st' = (store_hits (sg_group_ids sg) rows n (?st n))\<lparr>longest_hit_length := max (longest_hit_length (store_hits (sg_group_ids sg) rows n (?st n))) n\<rparr>"
    by (elim rbindE) auto
  define st1 where "st1 = ?st n"
  have st1: "hit_length_by_group st1 = hit_length_by_group st" "curr_hit_length st1 = n" by (simp_all add: st1_def)
  note st' = st'[folded st1_def]
  have n: "0 \<le> n" by (rule find_nonneg[OF f alignment_pos[OF ok(1)] hybrid_group_ok(3)[OF ok]])
  show ?thesis using store_hits_lengths[OF n, of st1 "sg_group_ids sg" rows] st st1 n by (simp add: lengths_ok_def st')
qed

lemma hybrid_pass_lengths:
  "hybrid_ok c \<Longrightarrow> set sgs \<subseteq> set (attention_groups c) \<Longrightarrow> lengths_ok c st \<Longrightarrow> hybrid_pass c hs mx idx sgs st = Inr st' \<Longrightarrow> lengths_ok c st'"
  by (induction sgs arbitrary: idx st) (auto elim!: rbindE dest: hybrid_step_lengths)

lemma hybrid_loop_returns:
  assumes ok: "hybrid_ok c"
  shows "lengths_ok c (st\<lparr>curr_hit_length := hit\<rparr>) \<Longrightarrow> \<exists>r. hybrid_loop c hs mx simple st hit = Some r"
proof (induction "nat hit" arbitrary: st hit rule: less_induct)
  case less
  show ?case
  proof (cases "hybrid_pass c hs mx 0 (attention_groups c) (st\<lparr>curr_hit_length := hit\<rparr>)")
    case (Inl e)
    then show ?thesis by (subst hybrid_loop.simps) simp
  next
    case (Inr st')
    have l: "lengths_ok c st'" by (rule hybrid_pass_lengths[OF ok subset_refl less.prems Inr])
    show ?thesis
    proof (cases "curr_hit_length st' \<ge> hit \<or> simple")
      case True
      then show ?thesis using Inr by (subst hybrid_loop.simps) auto
    next
      case False
      then have "nat (curr_hit_length st') < nat hit" using l by (simp add: lengths_ok_def)
      moreover have "lengths_ok c (st'\<lparr>curr_hit_length := curr_hit_length st'\<rparr>)" using l by simp
      ultimately have "\<exists>r. hybrid_loop c hs mx simple st' (curr_hit_length st') = Some r" by (rule less.hyps)
      then show ?thesis using Inr False by (subst hybrid_loop.simps) simp
    qed
  qed
qed

text \<open>
  C33: The search for a common prefix-cache hit of a hybrid model stops.  For every coordinator that
  \<^verbatim>\<open>HybridKVCacheCoordinator.__init__\<close> builds from positive sizes, whatever its managers and its pool are by
  now, and for all hashes and every maximal length, the loop returns a hit or raises: no combination of groups,
  EAGLE drops and partial hits makes the candidate length go round in circles.
\<close>

theorem hybrid_search_terminates:
  assumes "init_hybrid_coordinator cfg max_model_len max_in_flight eagle caching events dcp pcp sched_bs hash_bs retention use_int = Inr c"
    and "0 < hash_bs" and "0 < sched_bs" and "\<forall>g\<in>set (kv_cache_groups cfg). 0 < spec_block_size (gspec g)"
    and "0 \<le> max_length"
  shows "\<exists>r. hybrid_find_longest_cache_hit (with_managers managers p c) hashes max_length = Some r"
proof -
  let ?c = "with_managers managers p c"
  let ?n = "length (kv_cache_groups (coord_config ?c))"
  let ?st = "\<lparr>hit_blocks_by_group = replicate ?n None, hit_length_by_group = replicate ?n 0, longest_hit_length = 0,
    eagle_verified = [], curr_hit_length = max_length\<rparr>"
  have "lengths_ok ?c (?st\<lparr>curr_hit_length := max_length\<rparr>)" using assms(5) by (simp add: lengths_ok_def)
  then obtain r where "hybrid_loop ?c hashes max_length (is_simple_hybrid ?c) ?st max_length = Some r"
    using hybrid_loop_returns[OF hybrid_ok_init[OF assms(1-4)]] by blast
  then show ?thesis by (cases r) (auto simp: hybrid_find_longest_cache_hit_def Let_def split: prod.splits)
qed


definition sample_config :: kv_cache_config where
  "sample_config = \<lparr>num_blocks = 4,
     kv_cache_groups = [\<lparr>gspec = SlidingWindowSpec 2 3, glayout = 0, is_eagle_group = False\<rparr>,
                        \<lparr>gspec = FullAttentionSpec 2, glayout = 0, is_eagle_group = False\<rparr>],
     has_mixed_precision_kv_cache = False\<rparr>"

lemma sample_hybrid:
  obtains c where "init_hybrid_coordinator sample_config 16 8 False True False 1 1 2 2 None False = Inr c"
    and "attention_groups c = [\<lparr>sg_spec = FullAttentionSpec 2, sg_layout = 0, sg_group_ids = [1], sg_use_eagle = False\<rparr>,
      \<lparr>sg_spec = SlidingWindowSpec 2 3, sg_layout = 0, sg_group_ids = [0], sg_use_eagle = False\<rparr>]"
    and "\<not> enable_partial_hash_hits c" and "eagle_group_ids c = []" and "map mblock_size (single_type_managers c) = [2, 2]"
proof -
  obtain p where p: "init_pool 4 True 2 False False = Inr p" using init_pool_spec[of 4 True 2 False False] by auto
  have groups: "split_spec_groups [] (kv_cache_groups sample_config) =
    [\<lparr>sg_spec = FullAttentionSpec 2, sg_layout = 0, sg_group_ids = [1], sg_use_eagle = False\<rparr>,
      \<lparr>sg_spec = SlidingWindowSpec 2 3, sg_layout = 0, sg_group_ids = [0], sg_use_eagle = False\<rparr>]"
    by (simp add: split_spec_groups_def sample_config_def upt_rec)
  have ids: "flagged_eagle_groups False sample_config = []" by (simp add: flagged_eagle_groups_def sample_config_def upt_rec)
  let ?r = "init_hybrid_coordinator sample_config 16 8 False True False 1 1 2 2 None False"
  have "\<exists>c. ?r = Inr c \<and> attention_groups c = split_spec_groups [] (kv_cache_groups sample_config) \<and> \<not> enable_partial_hash_hits c \<and>
      eagle_group_ids c = [] \<and> map mblock_size (single_type_managers c) = [2, 2]"
    using p groups ids
    by (simp add: init_hybrid_coordinator_def init_base_coordinator_def validate_prefix_cache_retention_interval_def
        verify_and_split_kv_cache_groups_def mark_eagle_managers_def Let_def upt_rec)
      (simp add: sample_config_def get_manager_for_kv_cache_spec_def init_manager_def partial_hits_possible_def mark_eagle_managers_def upt_rec)
  then show thesis using that groups by auto
qed

theorem hybrid_search_terminates_witness:
  "\<exists>c r. init_hybrid_coordinator sample_config 16 8 False True False 1 1 2 2 None False = Inr c \<and>
     hybrid_find_longest_cache_hit c (Raw_hashes [[1], [2]]) 4 = Some r"
proof -
  obtain c where c: "init_hybrid_coordinator sample_config 16 8 False True False 1 1 2 2 None False = Inr c" by (rule sample_hybrid)
  have "\<forall>g\<in>set (kv_cache_groups sample_config). 0 < spec_block_size (gspec g)" by (simp add: sample_config_def)
  from hybrid_search_terminates[OF c _ _ this, of 4 "single_type_managers c" "coord_pool c" "Raw_hashes [[1], [2]]"]
  show ?thesis using c by (simp add: with_managers_def)
qed

end
