(* ===== verification/Hybrid_Hit.thy ===== *)
theory Hybrid_Hit
  imports Hybrid_Lookup
begin

text \<open>
  What the fixed-point loop of \<^verbatim>\<open>HybridKVCacheCoordinator.find_longest_cache_hit\<close> finds: the longest prefix that
  serves every KV-cache group, with the blocks each group needs for it.
\<close>

section \<open>The blocks a hit needs\<close>

text \<open>
  The positions among the first \<open>k\<close> blocks that must be cached for a hit of \<open>k\<close> blocks: all of them for full
  attention, those of the window or of the current chunk, or the last state.
\<close>

fun needed_blocks :: "kv_cache_spec \<Rightarrow> int \<Rightarrow> nat \<Rightarrow> nat set" where
  "needed_blocks (SlidingWindowSpec _ w) bs k = {k - nat (contiguous_blocks_for_hit w bs False)..<k}"
| "needed_blocks (ChunkedLocalAttentionSpec _ cs) bs k = {nat (int k * bs div cs * cs div bs)..<k}"
| "needed_blocks (MambaSpec _ _ _) bs k = {k - 1..<k}"
| "needed_blocks _ bs k = {..<k}"

lemma needed_below: "j \<in> needed_blocks spec bs k \<Longrightarrow> j < k"
  by (cases spec) auto

text \<open>The specifications for which the lookup without EAGLE is exact.\<close>

fun lookup_spec :: "kv_cache_spec \<Rightarrow> int \<Rightarrow> bool" where
  "lookup_spec (SlidingWindowSpec bs w) al \<longleftrightarrow> 2 \<le> w"
| "lookup_spec (ChunkedLocalAttentionSpec bs cs) al \<longleftrightarrow> 0 < cs \<and> bs dvd cs \<and> al = bs"
| "lookup_spec (CrossAttentionSpec _) al \<longleftrightarrow> False"
| "lookup_spec (EncoderOnlyAttentionSpec _) al \<longleftrightarrow> False"
| "lookup_spec _ al \<longleftrightarrow> True"

definition blocks_cached :: "block_pool \<Rightarrow> int list \<Rightarrow> bytes list \<Rightarrow> kv_cache_spec \<Rightarrow> int \<Rightarrow> nat \<Rightarrow> bool" where
  "blocks_cached p gids hs spec bs k \<longleftrightarrow>
     (\<forall>j\<in>needed_blocks spec bs k. cached_for p gids (boundary_hash p hs (int (Suc j) * bs)))"

text \<open>A lookup: the greatest aligned number of blocks within the limit whose needed blocks are cached.\<close>

definition exact_lookup ::
  "block_pool \<Rightarrow> int list \<Rightarrow> bytes list \<Rightarrow> kv_cache_spec \<Rightarrow> int \<Rightarrow> int \<Rightarrow> int \<Rightarrow> block_ref list list \<Rightarrow> nat \<Rightarrow> bool" where
  "exact_lookup p gids hs spec bs al max_length rows k \<longleftrightarrow>
     al dvd int k * bs \<and> int k * bs \<le> max_length \<and> blocks_cached p gids hs spec bs k \<and>
     (\<forall>k'. int k' * bs \<le> max_length \<and> al dvd int k' * bs \<and> blocks_cached p gids hs spec bs k' \<longrightarrow> k' \<le> k) \<and>
     rows_len (length gids) k rows \<and>
     rows_hold p gids (\<lambda>j. boundary_hash p hs (int (Suc j) * bs)) (needed_blocks spec bs k) rows"

lemma rows_hold_mono: "rows_hold p gids h J rows \<Longrightarrow> J' \<subseteq> J \<Longrightarrow> rows_hold p gids h J' rows"
  unfolding rows_hold_def by blast

lemma prefix_cached_blocks:
  assumes "0 < hash_block_size p" "hash_block_size p dvd bs" "0 < bs" "int k * bs \<le> int (length hs) * hash_block_size p"
  shows "prefix_cached p gids hs bs (int k * bs) \<longleftrightarrow> (\<forall>j<k. cached_for p gids (boundary_hash p hs (int (Suc j) * bs)))"
proof
  assume l: "prefix_cached p gids hs bs (int k * bs)"
  show "\<forall>j<k. cached_for p gids (boundary_hash p hs (int (Suc j) * bs))"
  proof (intro allI impI)
    fix j assume "j < k"
    then have "int (Suc j) * bs \<le> int k * bs" using assms(3) by (intro mult_right_mono) auto
    then have "cached_to p gids hs (int (Suc j) * bs)" using l unfolding prefix_cached_def by (metis of_nat_0_less_iff zero_less_Suc)
    then show "cached_for p gids (boundary_hash p hs (int (Suc j) * bs))" by (simp add: cached_to_def)
  qed
next
  assume r: "\<forall>j<k. cached_for p gids (boundary_hash p hs (int (Suc j) * bs))"
  obtain q where q: "bs = hash_block_size p * int q" "0 < q"
    using assms(1-3) by (metis dvd_def zero_less_mult_pos pos_int_cases of_nat_0_less_iff)
  have "hash_block_size p * int (k * q) \<le> hash_block_size p * int (length hs)" using assms(4) by (simp add: q(1) mult.commute mult.left_commute)
  then have "k * q \<le> length hs" using assms(1) by (simp only: mult_le_cancel_left_pos of_nat_le_iff)
  then have kl: "k \<le> length hs div q" using q(2) by (simp add: less_eq_div_iff_mult_less_eq)
  have "j \<le> int k" if "j * bs \<le> int k * bs" for j using that assms(3) by simp
  then show "prefix_cached p gids hs bs (int k * bs)"
    unfolding prefix_cached_def using prefix_cached_full[OF q assms(1) kl r] by auto
qed

text \<open>Multiples of the block size below a limit are within the hashes.\<close>

lemma blocks_within_hashes:
  assumes "(bs::int) > 0" "max_length div bs * bs \<le> n" "int k * bs \<le> max_length"
  shows "int k * bs \<le> n"
proof -
  have "int k \<le> max_length div bs" using assms(1,3) by (metis le_div_iff_int)
  then have "int k * bs \<le> max_length div bs * bs" using assms(1) by (intro mult_right_mono) auto
  then show ?thesis using assms(2) by linarith
qed

lemma round_down_greatest: "0 < (y::int) \<Longrightarrow> y dvd t \<Longrightarrow> t \<le> x \<Longrightarrow> t \<le> round_down x y"
  unfolding round_down_def by (metis dvd_div_mult_self mult_right_mono order_less_imp_le zdiv_mono1)

lemma full_group_hit:
  assumes lo: "lookup_ok p gids" and spec: "is_full_attention spec"
    and bs: "bs = (if dcp > 1 then spec_block_size spec * dcp else spec_block_size spec)"
    and sizes: "0 < hash_block_size p" "0 < bs" "hash_block_size p dvd bs" "0 < al" "bs dvd al"
    and len: "0 \<le> max_length" "max_length div bs * bs \<le> int (length hs) * hash_block_size p"
  shows "\<exists>rows k. find_longest_cache_hit (Raw_hashes hs) max_length gids p spec False al dcp = Inr (rows, int k * bs) \<and>
    exact_lookup p gids hs spec bs al max_length rows k"
proof -
  have albs: "\<not> al < bs" "min al bs = bs" using sizes(4,5) zdvd_imp_le[of bs al] by auto
  obtain rows l m where r: "full_find_longest_cache_hit (Raw_hashes hs) max_length gids p spec False al dcp = Inr (rows, l)"
    "is_longest (prefix_cached p gids hs bs) max_length bs m" "l = round_down m al" "0 \<le> l" "l \<le> m"
    "rows_len (length gids) (nat (cdiv l bs)) rows"
    "rows_hold p gids (\<lambda>j. boundary_hash p hs (min (int (Suc j) * bs) m)) {..<nat (cdiv l bs)} rows"
    using full_hit[OF lo spec bs sizes(2,1,3,4) _ _ len(1), of hs False] sizes(5) albs by auto
  have needed: "needed_blocks spec bs k = {..<k}" for k using spec by (cases spec) auto
  have "bs dvd l" using round_down_dvd[of al m] sizes(5) unfolding r(3) by (rule dvd_trans[rotated])
  then obtain k where k: "l = int k * bs" using r(4) sizes(2)
    by (metis dvd_div_mult_self int_nat_eq pos_imp_zdiv_nonneg_iff)
  have "int k * bs div - bs = - int k"
    using sizes(2) by (metis div_minus_right less_irrefl minus_mult_left nonzero_mult_div_cancel_right)
  then have ceil: "nat (cdiv l bs) = k" by (simp add: cdiv_def k)
  have lm: "l \<le> max_length" using r(2,5) by (simp add: is_longest_def)
  have iff: "prefix_cached p gids hs bs (int k' * bs) \<longleftrightarrow> blocks_cached p gids hs spec bs k'" if "int k' * bs \<le> max_length" for k'
    unfolding blocks_cached_def needed
    using prefix_cached_blocks[OF sizes(1,3,2) blocks_within_hashes[OF sizes(2) len(2) that]] by auto
  have "prefix_cached p gids hs bs l"
    using r(2,5) \<open>bs dvd l\<close> unfolding is_longest_def prefix_cached_def by (meson order_trans)
  then have ok: "blocks_cached p gids hs spec bs k" using iff[of k] lm by (simp add: k)
  have best: "k' \<le> k" if "int k' * bs \<le> max_length" "al dvd int k' * bs" "blocks_cached p gids hs spec bs k'" for k'
  proof -
    have "int k' * bs \<le> m" using r(2) that iff[OF that(1)] sizes(2) by (simp add: is_longest_def)
    then have "int k' * bs \<le> l" unfolding r(3) by (rule round_down_greatest[OF sizes(4) that(2)])
    then show ?thesis using sizes(2) by (simp add: k)
  qed
  have hold: "rows_hold p gids (\<lambda>j. boundary_hash p hs (int (Suc j) * bs)) {..<k} rows"
  proof -
    have "min (int (Suc j) * bs) m = int (Suc j) * bs" if "j < k" for j
    proof -
      have "int (Suc j) * bs \<le> int k * bs" using that sizes(2) by (intro mult_right_mono) auto
      then show ?thesis using r(5) k by simp
    qed
    then show ?thesis using r(7) unfolding ceil rows_hold_def by simp
  qed
  have "al dvd int k * bs" using round_down_dvd[of al m] r(3) k by simp
  moreover have "find_longest_cache_hit (Raw_hashes hs) max_length gids p spec False al dcp = Inr (rows, int k * bs)"
    using r(1) k spec by (cases spec) (simp_all add: find_longest_cache_hit_def)
  ultimately show ?thesis using ok best hold r(6) lm unfolding exact_lookup_def needed ceil by (auto simp: k)
qed

lemma swa_group_hit:
  assumes lo: "lookup_ok p gids"
    and sizes: "0 < hash_block_size p" "0 < bs" "hash_block_size p dvd bs" "0 < al" "bs dvd al" and w: "2 \<le> w"
    and len: "0 \<le> max_length" "max_length div bs * bs \<le> int (length hs) * hash_block_size p"
  shows "\<exists>rows k. find_longest_cache_hit (Raw_hashes hs) max_length gids p (SlidingWindowSpec bs w) False al 1 = Inr (rows, int k * bs) \<and>
    exact_lookup p gids hs (SlidingWindowSpec bs w) bs al max_length rows k"
proof -
  let ?need = "contiguous_blocks_for_hit w bs False" and ?h = "\<lambda>j. boundary_hash p hs (int (Suc j) * bs)"
    and ?spec = "SlidingWindowSpec bs w" and ?n = "nat (max_length div bs)"
  have need: "0 < ?need" using w less_cdiv_iff[OF sizes(2), of 0 "w - 1"] by (simp add: contiguous_blocks_for_hit_def)
  obtain rows k where r: "swa_find_longest_cache_hit (Raw_hashes hs) max_length gids p ?spec False al 1 = Inr (rows, int k * bs)"
    "al dvd int k * bs" "int k * bs \<le> max_length" "k = 0 \<or> k \<le> ?n \<and> window_cached p gids ?h ?need k"
    "\<forall>k'. k' \<le> ?n \<and> al dvd int k' * bs \<and> window_cached p gids ?h ?need k' \<longrightarrow> k' \<le> k"
    "rows_window p gids ?h (k - nat ?need) k k rows"
    using swa_hit[OF lo sizes w _ len refl refl refl refl, of False] by auto
  have iff: "window_cached p gids ?h ?need k' \<longleftrightarrow> blocks_cached p gids hs ?spec bs k'" for k'
  proof -
    have "{j. j < k' \<and> int k' - ?need \<le> int j} = {k' - nat ?need..<k'}" using need by auto
    then show ?thesis unfolding window_cached_def blocks_cached_def needed_blocks.simps by blast
  qed
  have ok: "blocks_cached p gids hs ?spec bs k" using r(4) iff[of k] by (auto simp: blocks_cached_def)
  have le: "k' \<le> ?n" if "int k' * bs \<le> max_length" for k'
    using that le_div_iff_int[OF sizes(2), of "int k'" max_length] by linarith
  show ?thesis using r ok iff le unfolding exact_lookup_def rows_window_def
    by (intro exI[of _ rows] exI[of _ k]) (simp add: find_longest_cache_hit_def)
qed

lemma mamba_group_hit:
  assumes lo: "lookup_ok p gids"
    and sizes: "0 < hash_block_size p" "0 < bs" "hash_block_size p dvd bs" "0 < al" "bs dvd al"
    and len: "0 \<le> max_length" "max_length div bs * bs \<le> int (length hs) * hash_block_size p"
  shows "\<exists>rows k. find_longest_cache_hit (Raw_hashes hs) max_length gids p (MambaSpec bs mode sp) False al 1 = Inr (rows, int k * bs) \<and>
    exact_lookup p gids hs (MambaSpec bs mode sp) bs al max_length rows k"
proof -
  let ?h = "\<lambda>j. boundary_hash p hs (int (Suc j) * bs)" and ?spec = "MambaSpec bs mode sp" and ?n = "nat (max_length div bs)"
  obtain rows k where r: "mamba_find_longest_cache_hit (Raw_hashes hs) max_length gids p ?spec False al 1 = Inr (rows, int k * bs)"
    "k \<le> ?n" "al dvd int k * bs" "0 < k \<longrightarrow> cached_for p gids (?h (k - 1))"
    "\<forall>k'. k < k' \<and> k' \<le> ?n \<and> al dvd int k' * bs \<longrightarrow> \<not> cached_for p gids (?h (k' - 1))" "rows_window p gids ?h (k - 1) k k rows"
    using mamba_hit[OF lo sizes len refl refl, of mode sp False] by blast
  have iff: "blocks_cached p gids hs ?spec bs k' \<longleftrightarrow> (0 < k' \<longrightarrow> cached_for p gids (?h (k' - 1)))" for k'
  proof (cases k')
    case (Suc i)
    have "{k' - 1..<k'} = {i}" by (auto simp: Suc)
    then show ?thesis by (simp add: blocks_cached_def Suc)
  qed (simp add: blocks_cached_def)
  have le: "k' \<le> ?n \<longleftrightarrow> int k' * bs \<le> max_length" for k'
  proof -
    have "k' \<le> ?n \<longleftrightarrow> int k' \<le> max_length div bs" using len(1) sizes(2) by (simp add: nat_le_iff le_nat_iff pos_imp_zdiv_nonneg_iff)
    then show ?thesis using le_div_iff_int[OF sizes(2), of "int k'" max_length] by simp
  qed
  have "k' \<le> k" if "int k' * bs \<le> max_length" "al dvd int k' * bs" "blocks_cached p gids hs ?spec bs k'" for k'
    using r(5) that iff[of k'] le[of k'] by (metis not_le le0 le_less_trans)
  then show ?thesis using r iff[of k] le[of k] unfolding exact_lookup_def rows_window_def
    by (intro exI[of _ rows] exI[of _ k]) (simp add: find_longest_cache_hit_def)
qed

lemma chunked_group_hit:
  assumes lo: "lookup_ok p gids"
    and sizes: "0 < hash_block_size p" "0 < bs" "hash_block_size p dvd bs" and cs: "0 < cs" "bs dvd cs"
    and len: "0 \<le> max_length" "max_length div bs * bs \<le> int (length hs) * hash_block_size p"
  shows "\<exists>rows k. find_longest_cache_hit (Raw_hashes hs) max_length gids p (ChunkedLocalAttentionSpec bs cs) False bs 1 = Inr (rows, int k * bs) \<and>
    exact_lookup p gids hs (ChunkedLocalAttentionSpec bs cs) bs bs max_length rows k"
proof -
  let ?h = "\<lambda>j. boundary_hash p hs (int (Suc j) * bs)" and ?spec = "ChunkedLocalAttentionSpec bs cs" and ?n = "nat (max_length div bs)"
  let ?a = "nat (max_length div cs * cs div bs)"
  obtain rows k where r: "chunked_find_longest_cache_hit (Raw_hashes hs) max_length gids p ?spec False bs 1 = Inr (rows, int k * bs)"
    "?a \<le> k" "k \<le> ?n" "\<forall>j. ?a \<le> j \<and> j < k \<longrightarrow> cached_for p gids (?h j)" "k < ?n \<longrightarrow> \<not> cached_for p gids (?h k)"
    "rows_window p gids ?h ?a k k rows"
    using chunked_hit[OF lo sizes cs(1) len refl refl refl] by blast
  have le: "k' \<le> ?n \<longleftrightarrow> int k' * bs \<le> max_length" for k'
  proof -
    have "k' \<le> ?n \<longleftrightarrow> int k' \<le> max_length div bs" using len(1) sizes(2) by (simp add: nat_le_iff le_nat_iff pos_imp_zdiv_nonneg_iff)
    then show ?thesis using le_div_iff_int[OF sizes(2), of "int k'" max_length] by simp
  qed
  have a: "int ?a * bs = max_length div cs * cs"
  proof -
    have "bs dvd max_length div cs * cs" using cs(2) by simp
    then have "max_length div cs * cs div bs * bs = max_length div cs * cs" by simp
    moreover have "0 \<le> max_length div cs * cs div bs" using len(1) sizes(2) cs(1) by (simp add: pos_imp_zdiv_nonneg_iff)
    ultimately show ?thesis by simp
  qed
  have chunk: "int k' * bs div cs = max_length div cs" if "?a \<le> k'" "k' \<le> ?n" for k'
  proof (rule antisym)
    show "int k' * bs div cs \<le> max_length div cs" using that(2) le[of k'] cs(1) by (simp add: zdiv_mono1)
    have "int ?a * bs \<le> int k' * bs" using that(1) sizes(2) by (intro mult_right_mono) auto
    then have "max_length div cs * cs \<le> int k' * bs" by (simp only: a)
    then show "max_length div cs \<le> int k' * bs div cs" using le_div_iff_int[OF cs(1)] by blast
  qed
  have needed: "needed_blocks ?spec bs k' = {?a..<k'}" if "?a \<le> k'" "k' \<le> ?n" for k' using chunk[OF that] by simp
  have ok: "blocks_cached p gids hs ?spec bs k" using r(4) unfolding blocks_cached_def needed[OF r(2,3)] by auto
  have best: "k' \<le> k" if "int k' * bs \<le> max_length" "blocks_cached p gids hs ?spec bs k'" for k'
  proof (rule ccontr)
    assume "\<not> k' \<le> k"
    then have gt: "k < k'" "k' \<le> ?n" "?a \<le> k'" using le[of k'] that(1) r(2) by auto
    then have "k \<in> needed_blocks ?spec bs k'" using r(2) unfolding needed[OF gt(3,2)] by simp
    then show False using that(2) r(5) gt unfolding blocks_cached_def by auto
  qed
  show ?thesis using r ok best le[of k] unfolding exact_lookup_def rows_window_def
    by (intro exI[of _ rows] exI[of _ k]) (simp add: find_longest_cache_hit_def chunk[OF r(2,3)])
qed

lemma group_hit:
  assumes lo: "lookup_ok p gids" and spec: "lookup_spec spec al"
    and bs: "bs = (if is_full_attention spec \<and> dcp > 1 then spec_block_size spec * dcp else spec_block_size spec)"
    and sizes: "0 < hash_block_size p" "0 < bs" "hash_block_size p dvd bs" "0 < al" "bs dvd al"
    and len: "0 \<le> max_length" "max_length div bs * bs \<le> int (length hs) * hash_block_size p"
  shows "\<exists>rows k. find_longest_cache_hit (Raw_hashes hs) max_length gids p spec False al (if is_full_attention spec then dcp else 1) =
      Inr (rows, int k * bs) \<and> exact_lookup p gids hs spec bs al max_length rows k"
proof (cases "is_full_attention spec")
  case True
  then show ?thesis using full_group_hit[OF lo True _ sizes len, of dcp] bs by simp
next
  case False
  then have size: "spec_block_size spec = bs" using bs by simp
  show ?thesis using False spec size swa_group_hit[OF lo sizes _ len] mamba_group_hit[OF lo sizes len] chunked_group_hit[OF lo sizes(1-3) _ _ len]
    by (cases spec) simp_all
qed

section \<open>One group\<close>

text \<open>A coordinator without EAGLE groups and partial hits, whose sizes divide each other, and hashes up to the limit.\<close>

definition hit_config :: "coordinator \<Rightarrow> bytes list \<Rightarrow> int \<Rightarrow> bool" where
  "hit_config c hs mx \<longleftrightarrow> hybrid_ok c \<and> \<not> enable_partial_hash_hits c \<and> index_ok (coord_pool c) \<and>
     length (kv_cache_groups (coord_config c)) \<le> 2 ^ 32 \<and> hash_block_size (coord_pool c) = coord_hash_block_size c \<and>
     0 \<le> mx \<and> mx div coord_hash_block_size c \<le> int (length hs) \<and>
     (\<forall>sg\<in>set (attention_groups c). \<not> sg_use_eagle sg \<and> lookup_spec (sg_spec sg) (coord_scheduler_block_size c) \<and>
        group_block_size c sg = (if is_full_attention (sg_spec sg) \<and> coord_dcp_world_size c > 1
          then spec_block_size (sg_spec sg) * coord_dcp_world_size c else spec_block_size (sg_spec sg)) \<and>
        0 < group_block_size c sg \<and> coord_hash_block_size c dvd group_block_size c sg \<and>
        group_block_size c sg dvd coord_scheduler_block_size c)"

definition sg_serves :: "coordinator \<Rightarrow> bytes list \<Rightarrow> spec_group \<Rightarrow> int \<Rightarrow> bool" where
  "sg_serves c hs sg n \<longleftrightarrow> blocks_cached (coord_pool c) (map int (sg_group_ids sg)) hs (sg_spec sg) (group_block_size c sg)
     (nat (n div group_block_size c sg))"

lemma serves_down:
  assumes "is_full_attention (sg_spec sg)" and "sg_serves c hs sg n" and "t \<le> n" and "0 < group_block_size c sg"
  shows "sg_serves c hs sg t"
proof -
  have "nat (t div group_block_size c sg) \<le> nat (n div group_block_size c sg)" using assms(3,4) by (intro nat_mono zdiv_mono1)
  moreover have "needed_blocks (sg_spec sg) bs k = {..<k}" for bs k using assms(1) by (cases "sg_spec sg") auto
  ultimately show ?thesis using assms(2) by (auto simp: sg_serves_def blocks_cached_def)
qed

lemma config_sizes:
  assumes "hit_config c hs mx" and "sg \<in> set (attention_groups c)"
  shows "0 < group_block_size c sg" and "group_block_size c sg dvd coord_scheduler_block_size c"
  using assms unfolding hit_config_def by auto

lemma config_lookup:
  assumes cfg: "hit_config c hs mx" and sg: "sg \<in> set (attention_groups c)" and l: "0 \<le> l" "l \<le> mx"
  obtains rows n where "find_longest_cache_hit (Raw_hashes hs) l (map int (sg_group_ids sg)) (coord_pool c) (sg_spec sg) False
      (coord_scheduler_block_size c) (if is_full_attention (sg_spec sg) then coord_dcp_world_size c else 1) = Inr (rows, n)"
    "0 \<le> n" "n \<le> l" "coord_scheduler_block_size c dvd n" "sg_serves c hs sg n"
    "\<And>t. 0 \<le> t \<Longrightarrow> t \<le> l \<Longrightarrow> coord_scheduler_block_size c dvd t \<Longrightarrow> sg_serves c hs sg t \<Longrightarrow> t \<le> n"
    "rows_len (length (sg_group_ids sg)) (nat (n div group_block_size c sg)) rows"
    "rows_hold (coord_pool c) (map int (sg_group_ids sg)) (\<lambda>j. boundary_hash (coord_pool c) hs (int (Suc j) * group_block_size c sg))
       (needed_blocks (sg_spec sg) (group_block_size c sg) (nat (n div group_block_size c sg))) rows"
proof -
  let ?p = "coord_pool c" and ?gids = "map int (sg_group_ids sg)" and ?bs = "group_block_size c sg" and ?al = "coord_scheduler_block_size c"
  have ok: "hybrid_ok c" and hbs: "hash_block_size ?p = coord_hash_block_size c" using cfg by (simp_all add: hit_config_def)
  have sizes: "0 < hash_block_size ?p" "0 < ?bs" "hash_block_size ?p dvd ?bs" "0 < ?al" "?bs dvd ?al"
    using cfg sg by (auto simp: hit_config_def hybrid_ok_def)
  have gid: "int i < 2 ^ 32" if "i \<in> set (sg_group_ids sg)" for i
  proof -
    have "int i < int (length (kv_cache_groups (coord_config c)))" using hybrid_group_ok(2)[OF ok sg that] by simp
    also have "\<dots> \<le> int (2 ^ 32)" using cfg by (simp only: hit_config_def of_nat_le_iff)
    finally show ?thesis by simp
  qed
  have lo: "lookup_ok ?p ?gids" using cfg hybrid_group_ok(1)[OF ok sg] gid by (simp add: lookup_ok_def hit_config_def)
  have len: "l div ?bs * ?bs \<le> int (length hs) * hash_block_size ?p"
  proof -
    obtain q where q: "l div ?bs * ?bs = q * hash_block_size ?p" using sizes(3) by (metis dvdE dvd_mult mult.commute)
    have "q * hash_block_size ?p \<le> mx" using l(2) le_div_iff_int[OF sizes(2), of "l div ?bs" l] unfolding q[symmetric] by simp
    then have "q \<le> mx div hash_block_size ?p" using le_div_iff_int[OF sizes(1)] by blast
    then have "q \<le> int (length hs)" using cfg hbs by (simp add: hit_config_def)
    then show ?thesis using sizes(1) unfolding q by (intro mult_right_mono) auto
  qed
  have spec: "lookup_spec (sg_spec sg) ?al" and bs: "?bs = (if is_full_attention (sg_spec sg) \<and> coord_dcp_world_size c > 1
      then spec_block_size (sg_spec sg) * coord_dcp_world_size c else spec_block_size (sg_spec sg))"
    using cfg sg by (auto simp: hit_config_def)
  obtain rows k where f: "find_longest_cache_hit (Raw_hashes hs) l ?gids ?p (sg_spec sg) False ?al
      (if is_full_attention (sg_spec sg) then coord_dcp_world_size c else 1) = Inr (rows, int k * ?bs)"
    and e: "exact_lookup ?p ?gids hs (sg_spec sg) ?bs ?al l rows k"
    using group_hit[OF lo spec bs sizes l(1) len] by blast
  have div: "nat (int k * ?bs div ?bs) = k" using sizes(2) by simp
  have best: "t \<le> int k * ?bs" if "0 \<le> t" "t \<le> l" "?al dvd t" "sg_serves c hs sg t" for t
  proof -
    have "?bs dvd t" using sizes(5) that(3) by (rule dvd_trans)
    then have t: "int (nat (t div ?bs)) * ?bs = t" using that(1) sizes(2) by (simp add: pos_imp_zdiv_nonneg_iff)
    then have "nat (t div ?bs) \<le> k" using e that unfolding exact_lookup_def sg_serves_def by (metis t)
    then have "int (nat (t div ?bs)) * ?bs \<le> int k * ?bs" using sizes(2) by (intro mult_right_mono) auto
    then show ?thesis by (simp only: t)
  qed
  show thesis
    by (rule that[OF f]) (use e best sizes(2) div in \<open>simp_all add: exact_lookup_def sg_serves_def\<close>)
qed

text \<open>What the loop has recorded for a group: a hit of \<open>n\<close> tokens and its blocks.\<close>

definition stored :: "coordinator \<Rightarrow> bytes list \<Rightarrow> int \<Rightarrow> spec_group \<Rightarrow> hit_state \<Rightarrow> int \<Rightarrow> bool" where
  "stored c hs mx sg st n \<longleftrightarrow> 0 \<le> n \<and> n \<le> mx \<and> n \<le> longest_hit_length st \<and> coord_scheduler_block_size c dvd n \<and> sg_serves c hs sg n \<and>
     (\<forall>i\<in>set (sg_group_ids sg). hit_length_by_group st ! i = n) \<and>
     (\<exists>rows. (\<forall>x < length (sg_group_ids sg). hit_blocks_by_group st ! (sg_group_ids sg ! x) = Some (rows ! x)) \<and>
        rows_len (length (sg_group_ids sg)) (nat (n div group_block_size c sg)) rows \<and>
        rows_hold (coord_pool c) (map int (sg_group_ids sg)) (\<lambda>j. boundary_hash (coord_pool c) hs (int (Suc j) * group_block_size c sg))
          (needed_blocks (sg_spec sg) (group_block_size c sg) (nat (n div group_block_size c sg))) rows)"

text \<open>A full-attention group is not looked up yet, or its recorded hit is at least the candidate length.\<close>

definition hit_inv :: "coordinator \<Rightarrow> bytes list \<Rightarrow> int \<Rightarrow> hit_state \<Rightarrow> bool" where
  "hit_inv c hs mx st \<longleftrightarrow> length (hit_blocks_by_group st) = length (kv_cache_groups (coord_config c)) \<and>
     length (hit_length_by_group st) = length (kv_cache_groups (coord_config c)) \<and> 0 \<le> curr_hit_length st \<and> curr_hit_length st \<le> mx \<and>
     (\<forall>sg\<in>set (attention_groups c). is_full_attention (sg_spec sg) \<longrightarrow>
        hit_blocks_by_group st ! hd (sg_group_ids sg) = None \<or> (\<exists>n. stored c hs mx sg st n \<and> curr_hit_length st \<le> n))"

lemma hit_invD:
  "hit_inv c hs mx st \<Longrightarrow> sg \<in> set (attention_groups c) \<Longrightarrow> is_full_attention (sg_spec sg) \<Longrightarrow>
    hit_blocks_by_group st ! hd (sg_group_ids sg) = None \<or> (\<exists>n. stored c hs mx sg st n \<and> curr_hit_length st \<le> n)"
  by (simp add: hit_inv_def)

lemma store_hits_fields [simp]:
  "longest_hit_length (store_hits gs bs n st) = longest_hit_length st" "curr_hit_length (store_hits gs bs n st) = curr_hit_length st"
  "length (hit_blocks_by_group (store_hits gs bs n st)) = length (hit_blocks_by_group st)"
  "length (hit_length_by_group (store_hits gs bs n st)) = length (hit_length_by_group st)"
  by (induction gs bs n st rule: store_hits.induct) simp_all

lemma store_hits_other:
  "i \<notin> set gs \<Longrightarrow> hit_blocks_by_group (store_hits gs bs n st) ! i = hit_blocks_by_group st ! i \<and>
     hit_length_by_group (store_hits gs bs n st) ! i = hit_length_by_group st ! i"
  by (induction gs bs n st rule: store_hits.induct) auto

lemma store_hits_set:
  "distinct gs \<Longrightarrow> length bs = length gs \<Longrightarrow> \<forall>g\<in>set gs. g < length (hit_blocks_by_group st) \<and> g < length (hit_length_by_group st) \<Longrightarrow>
   x < length gs \<Longrightarrow> hit_blocks_by_group (store_hits gs bs n st) ! (gs ! x) = Some (bs ! x) \<and>
     hit_length_by_group (store_hits gs bs n st) ! (gs ! x) = n"
proof (induction gs bs n st arbitrary: x rule: store_hits.induct)
  case (1 g gs b bs n st)
  then show ?case by (cases x) (simp_all add: store_hits_other)
qed auto

lemma stored_keep:
  assumes "stored c hs mx sg st n" and "\<forall>i\<in>set (sg_group_ids sg). hit_blocks_by_group st' ! i = hit_blocks_by_group st ! i \<and>
      hit_length_by_group st' ! i = hit_length_by_group st ! i" and "longest_hit_length st \<le> longest_hit_length st'"
  shows "stored c hs mx sg st' n"
proof -
  have "n \<le> longest_hit_length st'" using assms(1,3) by (simp add: stored_def)
  moreover have "\<forall>x < length (sg_group_ids sg). hit_blocks_by_group st' ! (sg_group_ids sg ! x) = hit_blocks_by_group st ! (sg_group_ids sg ! x)"
    using assms(2) by simp
  ultimately show ?thesis using assms(1,2) unfolding stored_def by auto
qed

lemma groups_disjoint:
  assumes "hybrid_ok c" and "sg \<in> set (attention_groups c)" and "sg' \<in> set (attention_groups c)" and "sg \<noteq> sg'"
  shows "set (sg_group_ids sg) \<inter> set (sg_group_ids sg') = {}"
proof -
  have "distinct (concat (map sg_group_ids (attention_groups c)))"
    using assms(1) by (simp add: hybrid_ok_def groups_partition_def group_ids_of_def)
  moreover obtain xs ys where "attention_groups c = xs @ sg # ys" "sg' \<in> set xs \<union> set ys"
    using assms(2-4) by (metis UnCI in_set_conv_decomp set_ConsD set_append Un_iff)
  ultimately show ?thesis by auto
qed

lemma group_ids_distinct: "hybrid_ok c \<Longrightarrow> sg \<in> set (attention_groups c) \<Longrightarrow> distinct (sg_group_ids sg)"
  by (auto simp: hybrid_ok_def groups_partition_def group_ids_of_def distinct_concat_iff)

lemma groups_distinct:
  assumes ok: "hybrid_ok c"
  shows "distinct (attention_groups c)"
proof -
  have "distinct (concat (map sg_group_ids sgs)) \<Longrightarrow> \<forall>sg\<in>set sgs. sg_group_ids sg \<noteq> [] \<Longrightarrow> distinct sgs" for sgs
  proof (induction sgs)
    case (Cons sg sgs)
    then have "sg \<notin> set sgs" by (cases "sg_group_ids sg") auto
    then show ?case using Cons by simp
  qed simp
  moreover have "distinct (concat (map sg_group_ids (attention_groups c)))"
    using ok by (simp add: hybrid_ok_def groups_partition_def group_ids_of_def)
  ultimately show ?thesis using hybrid_group_ok(1)[OF ok] by blast
qed

text \<open>
  What one group does to the loop state: the candidate shrinks to the longest hit of the group, its blocks are
  recorded, and the other groups keep what they have.
\<close>

definition group_step_ok :: "coordinator \<Rightarrow> bytes list \<Rightarrow> int \<Rightarrow> spec_group \<Rightarrow> hit_state \<Rightarrow> hit_state \<Rightarrow> bool" where
  "group_step_ok c hs mx sg st st' \<longleftrightarrow> hit_inv c hs mx st' \<and> curr_hit_length st' \<le> curr_hit_length st \<and>
     (coord_scheduler_block_size c dvd curr_hit_length st \<longrightarrow> coord_scheduler_block_size c dvd curr_hit_length st') \<and>
     (\<forall>t. 0 \<le> t \<and> t \<le> curr_hit_length st \<and> coord_scheduler_block_size c dvd t \<and> sg_serves c hs sg t \<longrightarrow> t \<le> curr_hit_length st') \<and>
     (\<exists>n. stored c hs mx sg st' n \<and> curr_hit_length st' \<le> n \<and>
        (\<not> is_full_attention (sg_spec sg) \<or> hit_blocks_by_group st ! hd (sg_group_ids sg) = None \<longrightarrow> n = curr_hit_length st')) \<and>
     (\<forall>sg'\<in>set (attention_groups c). sg' \<noteq> sg \<longrightarrow>
        (\<forall>n. stored c hs mx sg' st n \<longrightarrow> stored c hs mx sg' st' n) \<and>
        hit_blocks_by_group st' ! hd (sg_group_ids sg') = hit_blocks_by_group st ! hd (sg_group_ids sg'))"

lemma group_step_okD:
  assumes "group_step_ok c hs mx sg st st'"
  shows "hit_inv c hs mx st'" and "curr_hit_length st' \<le> curr_hit_length st"
    and "coord_scheduler_block_size c dvd curr_hit_length st \<longrightarrow> coord_scheduler_block_size c dvd curr_hit_length st'"
    and "0 \<le> t \<Longrightarrow> t \<le> curr_hit_length st \<Longrightarrow> coord_scheduler_block_size c dvd t \<Longrightarrow> sg_serves c hs sg t \<Longrightarrow> t \<le> curr_hit_length st'"
    and "\<exists>n. stored c hs mx sg st' n \<and> curr_hit_length st' \<le> n \<and>
        (\<not> is_full_attention (sg_spec sg) \<or> hit_blocks_by_group st ! hd (sg_group_ids sg) = None \<longrightarrow> n = curr_hit_length st')"
    and "sg' \<in> set (attention_groups c) \<Longrightarrow> sg' \<noteq> sg \<Longrightarrow> stored c hs mx sg' st n \<Longrightarrow> stored c hs mx sg' st' n"
    and "sg' \<in> set (attention_groups c) \<Longrightarrow> sg' \<noteq> sg \<Longrightarrow> hit_blocks_by_group st' ! hd (sg_group_ids sg') = hit_blocks_by_group st ! hd (sg_group_ids sg')"
  using assms by (simp_all add: group_step_ok_def)

lemma hit_group_step:
  assumes cfg: "hit_config c hs mx" and sg: "sg \<in> set (attention_groups c)" and inv: "hit_inv c hs mx st"
  shows "\<exists>st'. hybrid_group_step c (Raw_hashes hs) mx idx sg st = Inr st' \<and> group_step_ok c hs mx sg st st'"
proof (cases "is_full_attention (sg_spec sg) \<and> hit_blocks_by_group st ! hd (sg_group_ids sg) \<noteq> None")
  case True
  then obtain n where n: "stored c hs mx sg st n" "curr_hit_length st \<le> n" using hit_invD[OF inv sg] by auto
  have ok: "hybrid_ok c" using cfg by (simp add: hit_config_def)
  have "hit_length_by_group st ! hd (sg_group_ids sg) = n" using n(1) hybrid_group_ok(1)[OF ok sg] by (simp add: stored_def)
  then have "hybrid_group_step c (Raw_hashes hs) mx idx sg st = Inr st"
    unfolding hybrid_group_step_def Let_def if_P[OF True] using n(2) by simp
  moreover have "group_step_ok c hs mx sg st st" using inv n True unfolding group_step_ok_def by auto
  ultimately show ?thesis by blast
next
  case False
  let ?curr = "curr_hit_length st" and ?ids = "sg_group_ids sg"
  have ok: "hybrid_ok c" and al: "cache_hit_alignment_tokens c = coord_scheduler_block_size c" and eagle: "\<not> sg_use_eagle sg"
    using cfg sg by (auto simp: hit_config_def cache_hit_alignment_tokens_def)
  have bounds: "0 \<le> ?curr" "?curr \<le> mx" using inv by (simp_all add: hit_inv_def)
  obtain rows n where f: "find_longest_cache_hit (Raw_hashes hs) ?curr (map int ?ids) (coord_pool c) (sg_spec sg) False
      (coord_scheduler_block_size c) (if is_full_attention (sg_spec sg) then coord_dcp_world_size c else 1) = Inr (rows, n)"
    and n: "0 \<le> n" "n \<le> ?curr" "coord_scheduler_block_size c dvd n" "sg_serves c hs sg n"
    and best: "\<And>t. 0 \<le> t \<Longrightarrow> t \<le> ?curr \<Longrightarrow> coord_scheduler_block_size c dvd t \<Longrightarrow> sg_serves c hs sg t \<Longrightarrow> t \<le> n"
    and rows: "rows_len (length ?ids) (nat (n div group_block_size c sg)) rows"
    "rows_hold (coord_pool c) (map int ?ids) (\<lambda>j. boundary_hash (coord_pool c) hs (int (Suc j) * group_block_size c sg))
       (needed_blocks (sg_spec sg) (group_block_size c sg) (nat (n div group_block_size c sg))) rows"
    by (rule config_lookup[OF cfg sg bounds]) blast
  define st1 where "st1 = st\<lparr>eagle_verified := (if n < ?curr then [] else eagle_verified st), curr_hit_length := n\<rparr>"
  define st' where "st' = (store_hits ?ids rows n st1)\<lparr>longest_hit_length := max (longest_hit_length (store_hits ?ids rows n st1)) n\<rparr>"
  have run: "hybrid_group_step c (Raw_hashes hs) mx idx sg st = Inr st'"
    unfolding hybrid_group_step_def Let_def if_not_P[OF False] using eagle f by (simp add: al st'_def st1_def)
  have st1: "hit_blocks_by_group st1 = hit_blocks_by_group st" "hit_length_by_group st1 = hit_length_by_group st" "curr_hit_length st1 = n"
    "longest_hit_length st1 = longest_hit_length st" by (simp_all add: st1_def)
  have G: "length (hit_blocks_by_group st) = length (kv_cache_groups (coord_config c))" "length (hit_length_by_group st) = length (kv_cache_groups (coord_config c))"
    using inv by (simp_all add: hit_inv_def)
  have ids: "\<forall>g\<in>set ?ids. g < length (hit_blocks_by_group st1) \<and> g < length (hit_length_by_group st1)"
    using hybrid_group_ok(2)[OF ok sg] by (simp add: st1 G)
  have len: "length rows = length ?ids" using rows(1) by (simp add: rows_len_def)
  have set: "hit_blocks_by_group st' ! (?ids ! x) = Some (rows ! x)" "hit_length_by_group st' ! (?ids ! x) = n" if "x < length ?ids" for x
    using store_hits_set[OF group_ids_distinct[OF ok sg] len ids that, of n] by (simp_all add: st'_def)
  have curr': "curr_hit_length st' = n" "n \<le> longest_hit_length st'" "longest_hit_length st \<le> longest_hit_length st'" by (simp_all add: st'_def st1)
  have self: "stored c hs mx sg st' n"
    unfolding stored_def using n bounds curr' rows set by (auto simp: in_set_conv_nth)
  have other: "hit_blocks_by_group st' ! i = hit_blocks_by_group st ! i \<and> hit_length_by_group st' ! i = hit_length_by_group st ! i"
    if "sg' \<in> set (attention_groups c)" "sg' \<noteq> sg" "i \<in> set (sg_group_ids sg')" for sg' i
    using store_hits_other[of i ?ids rows n st1] groups_disjoint[OF ok that(1) sg that(2)] that(3) by (auto simp: st'_def st1)
  have keep: "stored c hs mx sg' st' k" if "sg' \<in> set (attention_groups c)" "sg' \<noteq> sg" "stored c hs mx sg' st k" for sg' k
    using stored_keep[OF that(3)] other[OF that(1,2)] curr'(3) by blast
  have hds: "hit_blocks_by_group st' ! hd (sg_group_ids sg') = hit_blocks_by_group st ! hd (sg_group_ids sg')"
    if "sg' \<in> set (attention_groups c)" "sg' \<noteq> sg" for sg'
    using other[OF that] hybrid_group_ok(1)[OF ok that(1)] by simp
  have "hit_blocks_by_group st' ! hd (sg_group_ids sg') = None \<or> (\<exists>n. stored c hs mx sg' st' n \<and> curr_hit_length st' \<le> n)"
    if "sg' \<in> set (attention_groups c)" "is_full_attention (sg_spec sg')" for sg'
  proof (cases "sg' = sg")
    case True
    then show ?thesis using self curr'(1) by auto
  next
    case False
    from hit_invD[OF inv that] show ?thesis using keep[OF that(1) False] hds[OF that(1) False] n(2) curr'(1) by (metis order_trans)
  qed
  moreover have "length (hit_blocks_by_group st') = length (hit_blocks_by_group st)" "length (hit_length_by_group st') = length (hit_length_by_group st)"
    by (simp_all add: st'_def st1)
  ultimately have "hit_inv c hs mx st'" using n bounds curr'(1) G unfolding hit_inv_def by auto
  then have "group_step_ok c hs mx sg st st'" unfolding group_step_ok_def using n curr'(1) best self keep hds by auto
  then show ?thesis using run by blast
qed

section \<open>One pass and the loop\<close>

definition all_serve :: "coordinator \<Rightarrow> bytes list \<Rightarrow> spec_group set \<Rightarrow> int \<Rightarrow> bool" where
  "all_serve c hs S t \<longleftrightarrow> 0 \<le> t \<and> coord_scheduler_block_size c dvd t \<and> (\<forall>sg\<in>S. sg_serves c hs sg t)"

definition pass_ok :: "coordinator \<Rightarrow> bytes list \<Rightarrow> int \<Rightarrow> spec_group list \<Rightarrow> hit_state \<Rightarrow> hit_state \<Rightarrow> bool" where
  "pass_ok c hs mx sgs st st' \<longleftrightarrow> hit_inv c hs mx st' \<and> curr_hit_length st' \<le> curr_hit_length st \<and>
     (coord_scheduler_block_size c dvd curr_hit_length st \<longrightarrow> coord_scheduler_block_size c dvd curr_hit_length st') \<and>
     (\<forall>t. all_serve c hs (set sgs) t \<and> t \<le> curr_hit_length st \<longrightarrow> t \<le> curr_hit_length st') \<and>
     (\<forall>sg\<in>set sgs. \<exists>n. stored c hs mx sg st' n \<and> curr_hit_length st' \<le> n \<and> (\<not> is_full_attention (sg_spec sg) \<longrightarrow> n \<le> curr_hit_length st)) \<and>
     (\<forall>sg\<in>set (attention_groups c) - set sgs. \<forall>n. stored c hs mx sg st n \<longrightarrow> stored c hs mx sg st' n) \<and>
     (sgs \<noteq> [] \<longrightarrow> hit_blocks_by_group st ! hd (sg_group_ids (last sgs)) = None \<longrightarrow> stored c hs mx (last sgs) st' (curr_hit_length st'))"

lemma pass_okD:
  assumes "pass_ok c hs mx sgs st st'"
  shows "hit_inv c hs mx st'" and "curr_hit_length st' \<le> curr_hit_length st"
    and "coord_scheduler_block_size c dvd curr_hit_length st \<longrightarrow> coord_scheduler_block_size c dvd curr_hit_length st'"
    and "all_serve c hs (set sgs) t \<Longrightarrow> t \<le> curr_hit_length st \<Longrightarrow> t \<le> curr_hit_length st'"
    and "sg \<in> set sgs \<Longrightarrow> \<exists>n. stored c hs mx sg st' n \<and> curr_hit_length st' \<le> n \<and> (\<not> is_full_attention (sg_spec sg) \<longrightarrow> n \<le> curr_hit_length st)"
    and "sg \<in> set (attention_groups c) - set sgs \<Longrightarrow> stored c hs mx sg st n \<Longrightarrow> stored c hs mx sg st' n"
    and "sgs \<noteq> [] \<Longrightarrow> hit_blocks_by_group st ! hd (sg_group_ids (last sgs)) = None \<Longrightarrow> stored c hs mx (last sgs) st' (curr_hit_length st')"
  using assms by (simp_all add: pass_ok_def)

lemma pass_ok_Cons:
  assumes sg: "sg \<in> set (attention_groups c)" "sg \<notin> set sgs" "set sgs \<subseteq> set (attention_groups c)"
    and s1: "group_step_ok c hs mx sg st st1" and s2: "pass_ok c hs mx sgs st1 st'"
  shows "pass_ok c hs mx (sg # sgs) st st'"
proof -
  note d1 = group_step_okD[OF s1] and d2 = pass_okD[OF s2]
  obtain n1 where n1: "stored c hs mx sg st1 n1" "curr_hit_length st1 \<le> n1"
    "\<not> is_full_attention (sg_spec sg) \<or> hit_blocks_by_group st ! hd (sg_group_ids sg) = None \<Longrightarrow> n1 = curr_hit_length st1"
    using d1(5) by auto
  have self: "stored c hs mx sg st' n1" using d2(6)[OF _ n1(1)] sg by simp
  have best: "t \<le> curr_hit_length st'" if "all_serve c hs (set (sg # sgs)) t" "t \<le> curr_hit_length st" for t
  proof -
    have "t \<le> curr_hit_length st1" using that by (intro d1(4)) (simp_all add: all_serve_def)
    then show ?thesis using that by (intro d2(4)) (simp_all add: all_serve_def)
  qed
  have each: "\<exists>n. stored c hs mx sg' st' n \<and> curr_hit_length st' \<le> n \<and> (\<not> is_full_attention (sg_spec sg') \<longrightarrow> n \<le> curr_hit_length st)"
    if "sg' \<in> set (sg # sgs)" for sg'
  proof (cases "sg' = sg")
    case True
    then show ?thesis using self n1(2,3) d1(2) d2(2) by (intro exI[of _ n1]) auto
  next
    case False
    then have "sg' \<in> set sgs" using that by simp
    from d2(5)[OF this] show ?thesis using d1(2) by auto
  qed
  have keep: "stored c hs mx sg' st' n" if "sg' \<in> set (attention_groups c) - set (sg # sgs)" "stored c hs mx sg' st n" for sg' n
  proof (rule d2(6))
    show "sg' \<in> set (attention_groups c) - set sgs" using that(1) by simp
    show "stored c hs mx sg' st1 n" using that(1) by (intro d1(6)[OF _ _ that(2)]) auto
  qed
  have lst: "stored c hs mx (last (sg # sgs)) st' (curr_hit_length st')"
    if none: "hit_blocks_by_group st ! hd (sg_group_ids (last (sg # sgs))) = None"
  proof (cases "sgs = []")
    case True
    have "curr_hit_length st' \<le> curr_hit_length st1" by (rule d2(2))
    moreover have "curr_hit_length st1 \<le> curr_hit_length st'"
    proof (rule d2(4))
      have "stored c hs mx sg st1 (curr_hit_length st1)" using n1 none True by auto
      then show "all_serve c hs (set sgs) (curr_hit_length st1)" using True by (simp add: all_serve_def stored_def)
    qed simp
    ultimately show ?thesis using none self True n1(3) by simp
  next
    case False
    then have l: "last sgs \<in> set sgs" by simp
    then have "last sgs \<in> set (attention_groups c)" "last sgs \<noteq> sg" using sg by auto
    then have "hit_blocks_by_group st1 ! hd (sg_group_ids (last sgs)) = None" using none False d1(7) by simp
    then show ?thesis using d2(7)[OF False] False by simp
  qed
  show ?thesis unfolding pass_ok_def
    using d2(1,2) d1(2,3) d2(3) best each keep lst by (intro conjI) auto
qed

lemma hit_pass:
  assumes cfg: "hit_config c hs mx"
  shows "distinct sgs \<Longrightarrow> set sgs \<subseteq> set (attention_groups c) \<Longrightarrow> hit_inv c hs mx st \<Longrightarrow>
    \<exists>st'. hybrid_pass c (Raw_hashes hs) mx idx sgs st = Inr st' \<and> pass_ok c hs mx sgs st st'"
proof (induction sgs arbitrary: st idx)
  case (Cons sg sgs)
  have sg: "sg \<in> set (attention_groups c)" "sg \<notin> set sgs" "distinct sgs" "set sgs \<subseteq> set (attention_groups c)" using Cons.prems by auto
  obtain st1 where s1: "hybrid_group_step c (Raw_hashes hs) mx idx sg st = Inr st1" "group_step_ok c hs mx sg st st1"
    using hit_group_step[OF cfg sg(1) Cons.prems(3)] by blast
  obtain st' where "hybrid_pass c (Raw_hashes hs) mx (Suc idx) sgs st1 = Inr st'" "pass_ok c hs mx sgs st1 st'"
    using Cons.IH[OF sg(3,4) group_step_okD(1)[OF s1(2)]] by blast
  then show ?case using s1(1) pass_ok_Cons[OF sg(1,2,4) s1(2)] by simp
qed (simp add: pass_ok_def)

definition hit_found :: "coordinator \<Rightarrow> bytes list \<Rightarrow> int \<Rightarrow> hit_state \<Rightarrow> int \<Rightarrow> bool" where
  "hit_found c hs mx st hit \<longleftrightarrow> hit \<le> mx \<and> all_serve c hs (set (attention_groups c)) hit \<and>
     (\<forall>t. all_serve c hs (set (attention_groups c)) t \<and> t \<le> mx \<longrightarrow> t \<le> hit) \<and>
     length (hit_blocks_by_group st) = length (kv_cache_groups (coord_config c)) \<and>
     (\<forall>sg\<in>set (attention_groups c). \<exists>n. stored c hs mx sg st n \<and> hit \<le> n \<and> (\<not> is_full_attention (sg_spec sg) \<longrightarrow> n = hit))"

lemma hit_foundI:
  assumes cfg: "hit_config c hs mx" and "hit_inv c hs mx st" and hit: "0 \<le> hit" "hit \<le> mx" "coord_scheduler_block_size c dvd hit"
    and best: "\<And>t. all_serve c hs (set (attention_groups c)) t \<Longrightarrow> t \<le> mx \<Longrightarrow> t \<le> hit"
    and each: "\<And>sg. sg \<in> set (attention_groups c) \<Longrightarrow> \<exists>n. stored c hs mx sg st n \<and> hit \<le> n \<and> (\<not> is_full_attention (sg_spec sg) \<longrightarrow> n = hit)"
  shows "hit_found c hs mx st hit"
proof -
  have "sg_serves c hs sg hit" if mem: "sg \<in> set (attention_groups c)" for sg
  proof -
    obtain n where n: "stored c hs mx sg st n" "hit \<le> n" "\<not> is_full_attention (sg_spec sg) \<longrightarrow> n = hit" using each[OF mem] by auto
    have s: "sg_serves c hs sg n" using n(1) by (simp add: stored_def)
    have "0 < group_block_size c sg" by (rule config_sizes(1)[OF cfg mem])
    with n(2,3) s show ?thesis using serves_down[OF _ s n(2)] by (cases "is_full_attention (sg_spec sg)") auto
  qed
  then show ?thesis using assms by (auto simp: hit_found_def all_serve_def hit_inv_def)
qed

definition all_fresh :: "coordinator \<Rightarrow> hit_state \<Rightarrow> bool" where
  "all_fresh c st \<longleftrightarrow> (\<forall>sg\<in>set (attention_groups c). hit_blocks_by_group st ! hd (sg_group_ids sg) = None)"

lemma hit_loop:
  assumes cfg: "hit_config c hs mx"
  shows "hit_inv c hs mx (st\<lparr>curr_hit_length := hit\<rparr>) \<Longrightarrow> all_fresh c st \<or> coord_scheduler_block_size c dvd hit \<Longrightarrow>
    (simple \<longrightarrow> is_simple_hybrid c \<and> all_fresh c st) \<Longrightarrow>
    (\<And>t. all_serve c hs (set (attention_groups c)) t \<Longrightarrow> t \<le> mx \<Longrightarrow> t \<le> hit) \<Longrightarrow>
    \<exists>st' hit'. hybrid_loop c (Raw_hashes hs) mx simple st hit = Some (Inr (st', hit')) \<and> hit_found c hs mx st' hit'"
proof (induction "nat hit" arbitrary: st hit rule: less_induct)
  case less
  let ?sgs = "attention_groups c"
  have ok: "hybrid_ok c" using cfg by (simp add: hit_config_def)
  have ne: "?sgs \<noteq> []" using ok by (simp add: hybrid_ok_def)
  have dist: "distinct ?sgs" by (rule groups_distinct[OF ok])
  obtain st' where run: "hybrid_pass c (Raw_hashes hs) mx 0 ?sgs (st\<lparr>curr_hit_length := hit\<rparr>) = Inr st'"
    and ps: "pass_ok c hs mx ?sgs (st\<lparr>curr_hit_length := hit\<rparr>) st'"
    using hit_pass[OF cfg dist subset_refl less.prems(1)] by blast
  note d = pass_okD[OF ps, simplified]
  let ?n = "curr_hit_length st'"
  have fresh: "stored c hs mx (last ?sgs) st' ?n" if "all_fresh c st" using d(7)[OF ne] that ne by (simp add: all_fresh_def)
  have al: "coord_scheduler_block_size c dvd ?n" using less.prems(2) fresh d(3) by (auto simp: stored_def)
  have bounds: "0 \<le> ?n" "?n \<le> mx" using d(1) by (simp_all add: hit_inv_def)
  have best: "t \<le> ?n" if "all_serve c hs (set ?sgs) t" "t \<le> mx" for t using d(4)[OF that(1)] less.prems(4)[OF that] by simp
  show ?case
  proof (cases "?n \<ge> hit")
    case True
    then have n: "?n = hit" using d(2) by simp
    have each: "\<exists>n. stored c hs mx sg st' n \<and> ?n \<le> n \<and> (\<not> is_full_attention (sg_spec sg) \<longrightarrow> n = ?n)" if "sg \<in> set ?sgs" for sg
      using d(5)[OF that] n by auto
    have "hybrid_loop c (Raw_hashes hs) mx simple st hit = Some (Inr (st', ?n))" using run n by (subst hybrid_loop.simps) simp
    then show ?thesis using hit_foundI[OF cfg d(1) bounds al best each] by blast
  next
    case False
    show ?thesis
    proof (cases simple)
      case True
      then have s: "is_simple_hybrid c" "all_fresh c st" using less.prems(3) by auto
      then obtain g1 g2 where g: "?sgs = [g1, g2]" "is_full_attention (sg_spec g1)"
        by (auto simp: is_simple_hybrid_def length_Suc_conv numeral_2_eq_2)
      have each: "\<exists>n. stored c hs mx sg st' n \<and> ?n \<le> n \<and> (\<not> is_full_attention (sg_spec sg) \<longrightarrow> n = ?n)" if "sg \<in> set ?sgs" for sg
      proof (cases "sg = g2")
        case True
        then show ?thesis using fresh[OF s(2)] g(1) by auto
      next
        case False
        then show ?thesis using d(5)[OF that] that g by auto
      qed
      have "hybrid_loop c (Raw_hashes hs) mx simple st hit = Some (Inr (st', ?n))" using run False True by (subst hybrid_loop.simps) simp
      then show ?thesis using hit_foundI[OF cfg d(1) bounds al best each] by blast
    next
      case not_simple: False
      have "\<exists>st2 hit'. hybrid_loop c (Raw_hashes hs) mx simple st' ?n = Some (Inr (st2, hit')) \<and> hit_found c hs mx st2 hit'"
        by (rule less.hyps) (use False bounds d(1) al not_simple best in auto)
      then show ?thesis using run False not_simple by (subst hybrid_loop.simps) simp
    qed
  qed
qed

section \<open>The result\<close>

lemma truncate_fold:
  fixes st :: hit_state
  shows "distinct ids \<Longrightarrow> \<forall>i\<in>set ids. i < length (hit_blocks_by_group st) \<Longrightarrow>
   st' = fold (\<lambda>g s. case hit_blocks_by_group s ! g of None \<Rightarrow> s
                | Some blks \<Rightarrow> s\<lparr>hit_blocks_by_group := (hit_blocks_by_group s)[g := Some (py_take blks num)],
                                hit_length_by_group := (hit_length_by_group s)[g := n]\<rparr>) ids st \<Longrightarrow>
   length (hit_blocks_by_group st') = length (hit_blocks_by_group st) \<and> longest_hit_length st' = longest_hit_length st \<and>
   (\<forall>i. hit_blocks_by_group st' ! i = (if i \<in> set ids then map_option (\<lambda>b. py_take b num) (hit_blocks_by_group st ! i) else hit_blocks_by_group st ! i))"
proof (induction ids arbitrary: st)
  case (Cons g ids)
  show ?case
  proof (cases "hit_blocks_by_group st ! g")
    case None
    then show ?thesis using Cons.IH[of st] Cons.prems by auto
  next
    case (Some b)
    let ?st = "st\<lparr>hit_blocks_by_group := (hit_blocks_by_group st)[g := Some (py_take b num)], hit_length_by_group := (hit_length_by_group st)[g := n]\<rparr>"
    have "g < length (hit_blocks_by_group st)" "g \<notin> set ids" using Cons.prems by auto
    then show ?thesis using Cons.IH[of ?st] Cons.prems Some by (auto simp: nth_list_update)
  qed
qed simp

text \<open>The blocks of one group, by its position in the configuration.\<close>

definition group_needs :: "coordinator \<Rightarrow> int \<Rightarrow> nat \<Rightarrow> nat set" where
  "group_needs c n i = (let bs = mblock_size (single_type_managers c ! i)
     in needed_blocks (gspec (kv_cache_groups (coord_config c) ! i)) bs (nat (n div bs)))"

definition group_holds :: "coordinator \<Rightarrow> bytes list \<Rightarrow> nat \<Rightarrow> nat \<Rightarrow> block_ref \<Rightarrow> bool" where
  "group_holds c hs i j b \<longleftrightarrow>
     holds_key (coord_pool c) (boundary_hash (coord_pool c) hs (int (Suc j) * mblock_size (single_type_managers c ! i))) (int i) b"

definition group_serves :: "coordinator \<Rightarrow> bytes list \<Rightarrow> nat \<Rightarrow> int \<Rightarrow> bool" where
  "group_serves c hs i n \<longleftrightarrow> (\<forall>j\<in>group_needs c n i. \<exists>b. group_holds c hs i j b)"

definition same_sizes :: "coordinator \<Rightarrow> bool" where
  "same_sizes c \<longleftrightarrow> (\<forall>sg\<in>set (attention_groups c). \<forall>i\<in>set (sg_group_ids sg). mblock_size (single_type_managers c ! i) = group_block_size c sg)"

lemma group_spec:
  assumes "hybrid_ok c" "sg \<in> set (attention_groups c)" "i \<in> set (sg_group_ids sg)"
  shows "gspec (kv_cache_groups (coord_config c) ! i) = sg_spec sg"
  using assms by (auto simp: hybrid_ok_def groups_partition_def group_matches_def)

lemma group_of:
  assumes "hybrid_ok c" "i < length (kv_cache_groups (coord_config c))"
  obtains sg where "sg \<in> set (attention_groups c)" "i \<in> set (sg_group_ids sg)"
proof -
  have "set (concat (map sg_group_ids (attention_groups c))) = {..<length (kv_cache_groups (coord_config c))}"
    using assms(1) by (simp add: hybrid_ok_def groups_partition_def group_ids_of_def)
  then have "i \<in> set (concat (map sg_group_ids (attention_groups c)))" using assms(2) by simp
  then show thesis using that by auto
qed

lemma serves_groups:
  assumes ok: "hybrid_ok c" and same: "same_sizes c"
  shows "(\<forall>sg\<in>set (attention_groups c). sg_serves c hs sg n) \<longleftrightarrow> (\<forall>i < length (kv_cache_groups (coord_config c)). group_serves c hs i n)"
proof -
  have one: "sg_serves c hs sg n \<longleftrightarrow> (\<forall>i\<in>set (sg_group_ids sg). group_serves c hs i n)" if "sg \<in> set (attention_groups c)" for sg
    using same that group_spec[OF ok that]
    by (auto simp: sg_serves_def blocks_cached_def cached_for_def group_serves_def group_needs_def group_holds_def same_sizes_def Let_def)
  then show ?thesis using hybrid_group_ok(2)[OF ok] group_of[OF ok] by metis
qed

lemma truncate_blocks:
  fixes st :: hit_state and hit :: int
  assumes ok: "hybrid_ok c" and G: "length (hit_blocks_by_group st) = length (kv_cache_groups (coord_config c))" and st': "st' = truncate_full_blocks c hit st"
  shows "length (hit_blocks_by_group st') = length (kv_cache_groups (coord_config c))" and "longest_hit_length st' = longest_hit_length st"
    and "sg \<in> set (attention_groups c) \<Longrightarrow> i \<in> set (sg_group_ids sg) \<Longrightarrow> hit_blocks_by_group st' ! i =
      (if sg = hd (attention_groups c) \<and> is_full_attention (sg_spec sg)
       then map_option (\<lambda>b. py_take b (cdiv hit (group_block_size c sg))) (hit_blocks_by_group st ! i) else hit_blocks_by_group st ! i)"
proof -
  let ?sg = "hd (attention_groups c)"
  have sg: "?sg \<in> set (attention_groups c)" using ok by (simp add: hybrid_ok_def)
  have ids: "\<forall>i\<in>set (sg_group_ids ?sg). i < length (hit_blocks_by_group st)" using hybrid_group_ok(2)[OF ok sg] G by simp
  have all: "length (hit_blocks_by_group st') = length (hit_blocks_by_group st) \<and> longest_hit_length st' = longest_hit_length st \<and>
    (\<forall>i. hit_blocks_by_group st' ! i = (if i \<in> set (sg_group_ids ?sg) \<and> is_full_attention (sg_spec ?sg)
      then map_option (\<lambda>b. py_take b (cdiv hit (group_block_size c ?sg))) (hit_blocks_by_group st ! i) else hit_blocks_by_group st ! i))"
  proof (cases "is_full_attention (sg_spec ?sg)")
    case True
    show ?thesis using truncate_fold[OF group_ids_distinct[OF ok sg] ids st'[unfolded truncate_full_blocks_def Let_def if_P[OF True]]] True by simp
  next
    case False
    then show ?thesis using st' by (simp add: truncate_full_blocks_def Let_def)
  qed
  then show "length (hit_blocks_by_group st') = length (kv_cache_groups (coord_config c))" "longest_hit_length st' = longest_hit_length st"
    using G by simp_all
  assume m: "sg \<in> set (attention_groups c)" "i \<in> set (sg_group_ids sg)"
  have "i \<in> set (sg_group_ids ?sg) \<longleftrightarrow> sg = ?sg" using m groups_disjoint[OF ok m(1) sg] by auto
  then show "hit_blocks_by_group st' ! i = (if sg = ?sg \<and> is_full_attention (sg_spec sg)
       then map_option (\<lambda>b. py_take b (cdiv hit (group_block_size c sg))) (hit_blocks_by_group st ! i) else hit_blocks_by_group st ! i)"
    using all by auto
qed

lemma stored_blocks:
  assumes ok: "hybrid_ok c" and same: "same_sizes c" and sg: "sg \<in> set (attention_groups c)" "i \<in> set (sg_group_ids sg)"
    and st: "stored c hs mx sg st n"
  obtains b where "hit_blocks_by_group st ! i = Some b" "length b = nat (n div mblock_size (single_type_managers c ! i))"
    "\<forall>j\<in>group_needs c n i. group_holds c hs i j (b ! j)"
proof -
  obtain x where x: "x < length (sg_group_ids sg)" "sg_group_ids sg ! x = i" using sg(2) by (auto simp: in_set_conv_nth)
  obtain rows where r: "hit_blocks_by_group st ! (sg_group_ids sg ! x) = Some (rows ! x)"
    "rows_len (length (sg_group_ids sg)) (nat (n div group_block_size c sg)) rows"
    "rows_hold (coord_pool c) (map int (sg_group_ids sg)) (\<lambda>j. boundary_hash (coord_pool c) hs (int (Suc j) * group_block_size c sg))
       (needed_blocks (sg_spec sg) (group_block_size c sg) (nat (n div group_block_size c sg))) rows"
    using st x(1) by (auto simp: stored_def)
  have bs: "mblock_size (single_type_managers c ! i) = group_block_size c sg" using same sg by (auto simp: same_sizes_def)
  show thesis
  proof (rule that[of "rows ! x"])
    show "hit_blocks_by_group st ! i = Some (rows ! x)" using r(1) x(2) by simp
    show "length (rows ! x) = nat (n div mblock_size (single_type_managers c ! i))" using rows_len_nth[OF r(2) x(1)] by (simp add: bs)
    show "\<forall>j\<in>group_needs c n i. group_holds c hs i j (rows ! x ! j)"
      using r(3) x group_spec[OF ok sg] by (auto simp: rows_hold_def group_needs_def group_holds_def bs Let_def)
  qed
qed

lemma hybrid_hit:
  assumes cfg: "hit_config c hs mx" and same: "same_sizes c"
  shows "\<exists>hit_blocks hit uncached. hybrid_find_longest_cache_hit c (Raw_hashes hs) mx = Some (Inr (hit_blocks, hit, uncached)) \<and>
    is_longest (\<lambda>n. \<forall>i < length (kv_cache_groups (coord_config c)). group_serves c hs i n) mx (coord_scheduler_block_size c) hit \<and>
    0 \<le> uncached \<and> length hit_blocks = length (kv_cache_groups (coord_config c)) \<and>
    (\<forall>i < length (kv_cache_groups (coord_config c)).
       (\<forall>j\<in>group_needs c hit i. j < length (hit_blocks ! i) \<and> group_holds c hs i j (hit_blocks ! i ! j)) \<and>
       (\<not> is_full_attention (gspec (kv_cache_groups (coord_config c) ! i)) \<or> i \<in> set (sg_group_ids (hd (attention_groups c))) \<longrightarrow>
          length (hit_blocks ! i) = nat (hit div mblock_size (single_type_managers c ! i))))"
proof -
  let ?G = "length (kv_cache_groups (coord_config c))"
  let ?st = "\<lparr>hit_blocks_by_group = replicate ?G None, hit_length_by_group = replicate ?G 0, longest_hit_length = 0,
    eagle_verified = [], curr_hit_length = mx\<rparr>"
  have ok: "hybrid_ok c" and mx: "0 \<le> mx" using cfg by (simp_all add: hit_config_def)
  have none: "hit_blocks_by_group ?st ! hd (sg_group_ids sg) = None" if "sg \<in> set (attention_groups c)" for sg
    using hybrid_group_ok(1,2)[OF ok that] by simp
  have inv: "hit_inv c hs mx (?st\<lparr>curr_hit_length := mx\<rparr>)" using mx none by (simp add: hit_inv_def)
  have fresh: "all_fresh c ?st" using none by (simp add: all_fresh_def)
  obtain st hit where loop: "hybrid_loop c (Raw_hashes hs) mx (is_simple_hybrid c) ?st mx = Some (Inr (st, hit))" and found: "hit_found c hs mx st hit"
    using hit_loop[OF cfg inv, of "is_simple_hybrid c"] fresh by blast
  define st' where "st' = truncate_full_blocks c hit st"
  define bl where "bl = map (\<lambda>b. case b of None \<Rightarrow> [] | Some blks \<Rightarrow> blks) (hit_blocks_by_group st')"
  have run: "hybrid_find_longest_cache_hit c (Raw_hashes hs) mx = Some (Inr (bl, hit, longest_hit_length st - hit))"
    unfolding hybrid_find_longest_cache_hit_def Let_def loop by (simp add: bl_def st'_def)
  have hit: "0 \<le> hit" "hit \<le> mx" "coord_scheduler_block_size c dvd hit" and serve: "\<forall>sg\<in>set (attention_groups c). sg_serves c hs sg hit"
    and G: "length (hit_blocks_by_group st) = ?G"
    using found by (simp_all add: hit_found_def all_serve_def)
  have best: "t \<le> hit" if "0 \<le> t" "t \<le> mx" "coord_scheduler_block_size c dvd t" "\<forall>sg\<in>set (attention_groups c). sg_serves c hs sg t" for t
    using found that by (simp add: hit_found_def all_serve_def)
  have longest: "is_longest (\<lambda>n. \<forall>i<?G. group_serves c hs i n) mx (coord_scheduler_block_size c) hit"
    using hit serve best unfolding is_longest_def serves_groups[OF ok same, symmetric] by blast
  have rec: "\<exists>n. stored c hs mx sg st n \<and> hit \<le> n \<and> (\<not> is_full_attention (sg_spec sg) \<longrightarrow> n = hit)" if "sg \<in> set (attention_groups c)" for sg
    using found that by (simp add: hit_found_def)
  note tr = truncate_blocks[OF ok G st'_def]
  have "hd (attention_groups c) \<in> set (attention_groups c)" using ok by (simp add: hybrid_ok_def)
  from rec[OF this] have unc: "0 \<le> longest_hit_length st - hit" by (auto simp: stored_def)
  have each: "(\<forall>j\<in>group_needs c hit i. j < length (bl ! i) \<and> group_holds c hs i j (bl ! i ! j)) \<and>
      (\<not> is_full_attention (gspec (kv_cache_groups (coord_config c) ! i)) \<or> i \<in> set (sg_group_ids (hd (attention_groups c))) \<longrightarrow>
         length (bl ! i) = nat (hit div mblock_size (single_type_managers c ! i)))" if i: "i < ?G" for i
  proof -
    obtain sg where sg: "sg \<in> set (attention_groups c)" "i \<in> set (sg_group_ids sg)" by (rule group_of[OF ok i])
    let ?bs = "mblock_size (single_type_managers c ! i)" and ?spec = "gspec (kv_cache_groups (coord_config c) ! i)"
    have spec: "?spec = sg_spec sg" by (rule group_spec[OF ok sg])
    have bs: "?bs = group_block_size c sg" using same sg by (auto simp: same_sizes_def)
    have sizes: "0 < ?bs" "?bs dvd hit" using config_sizes[OF cfg sg(1)] hit(3) unfolding bs by (auto intro: dvd_trans)
    have ceil: "cdiv hit ?bs = hit div ?bs"
      using sizes by (metis cdiv_def div_minus_right dvd_neg_div minus_minus)
    obtain n where n: "stored c hs mx sg st n" "hit \<le> n" "\<not> is_full_attention (sg_spec sg) \<longrightarrow> n = hit" using rec[OF sg(1)] by auto
    obtain b where b: "hit_blocks_by_group st ! i = Some b" "length b = nat (n div ?bs)" "\<forall>j\<in>group_needs c n i. group_holds c hs i j (b ! j)"
      by (rule stored_blocks[OF ok same sg n(1)])
    have le: "nat (hit div ?bs) \<le> nat (n div ?bs)" using n(2) sizes(1) by (intro nat_mono zdiv_mono1)
    have sub: "group_needs c hit i \<subseteq> group_needs c n i"
    proof (cases "is_full_attention ?spec")
      case True
      then have "needed_blocks ?spec ?bs k = {..<k}" for k by (cases ?spec) auto
      then show ?thesis using le by (auto simp: group_needs_def)
    next
      case False
      then show ?thesis using n(3) spec by simp
    qed
    have below: "j < nat (hit div ?bs)" if "j \<in> group_needs c hit i" for j using that by (auto simp: group_needs_def Let_def intro: needed_below)
    let ?cut = "sg = hd (attention_groups c) \<and> is_full_attention (sg_spec sg)"
    have nonneg: "0 \<le> hit div ?bs" using hit(1) sizes(1) by (simp add: pos_imp_zdiv_nonneg_iff)
    have bl: "bl ! i = (if ?cut then take (nat (hit div ?bs)) b else b)"
      using tr(1) tr(3)[OF sg] b(1) i ceil nonneg by (cases ?cut) (auto simp: bl_def bs)
    have hd: "i \<in> set (sg_group_ids (hd (attention_groups c))) \<Longrightarrow> sg = hd (attention_groups c)"
      using groups_disjoint[OF ok sg(1), of "hd (attention_groups c)"] sg(2) ok by (auto simp: hybrid_ok_def)
    have len: "length (bl ! i) = (if ?cut then nat (hit div ?bs) else nat (n div ?bs))" using bl b(2) le by (cases ?cut) auto
    have "\<forall>j\<in>group_needs c hit i. j < length (bl ! i) \<and> group_holds c hs i j (bl ! i ! j)"
    proof
      fix j assume j: "j \<in> group_needs c hit i"
      then have "j < nat (hit div ?bs)" "j < nat (n div ?bs)" "group_holds c hs i j (b ! j)" using below[OF j] le sub b(3) by auto
      then show "j < length (bl ! i) \<and> group_holds c hs i j (bl ! i ! j)" using len bl by (cases ?cut) auto
    qed
    moreover have "length (bl ! i) = nat (hit div ?bs)" if "\<not> is_full_attention ?spec \<or> i \<in> set (sg_group_ids (hd (attention_groups c)))"
      using that len n(3) hd spec by auto
    ultimately show ?thesis by blast
  qed
  have "length bl = ?G" using tr(1) by (simp add: bl_def)
  with run longest unc each show ?thesis by (intro exI[of _ bl] exI[of _ hit] exI[of _ "longest_hit_length st - hit"]) simp
qed

text \<open>The configurations that construction and the named conditions give.\<close>

lemma make_managers_sizes:
  "make_managers mif mml caching dcp sbs z i gs = Inr ms \<Longrightarrow> length ms = length gs \<and> (\<forall>x < length gs.
     mblock_size (ms ! x) = (if dcp > 1 \<and> \<not> is_mamba (gspec (gs ! x)) then spec_block_size (gspec (gs ! x)) * dcp else spec_block_size (gspec (gs ! x))))"
proof (induction gs arbitrary: i ms)
  case (Cons g gs)
  then obtain m ms' where m: "get_manager_for_kv_cache_spec (gspec g) mif mml caching (int i) dcp sbs z = Inr m"
    and ms': "make_managers mif mml caching dcp sbs z (Suc i) gs = Inr ms'" and ms: "ms = m # ms'"
    by (auto elim!: rbindE)
  have "mblock_size m = (if dcp > 1 \<and> \<not> is_mamba (gspec g) then spec_block_size (gspec g) * dcp else spec_block_size (gspec g))"
    using m by (auto simp: get_manager_for_kv_cache_spec_def init_manager_def split: kv_cache_spec.splits)
  then show ?case using Cons.IH[OF ms'] unfolding ms by (auto simp: nth_Cons split: nat.splits)
qed simp

lemma mark_eagle_sizes: "map mblock_size (mark_eagle_managers sgs ms) = map mblock_size ms"
  by (rule nth_equalityI) (auto simp: mark_eagle_managers_def)

lemma init_hybrid_sizes:
  assumes init: "init_hybrid_coordinator cfg mml mif eagle caching ev dcp pcp sbs hbs ret ui = Inr c"
  shows "coord_config c = cfg" "coord_hash_block_size c = hbs" "coord_scheduler_block_size c = sbs" "coord_dcp_world_size c = dcp"
    "enable_partial_hash_hits c = partial_hits_possible cfg dcp hbs" "eagle_group_ids c = flagged_eagle_groups eagle cfg"
    "length (single_type_managers c) = length (kv_cache_groups cfg)"
    "\<forall>i < length (kv_cache_groups cfg). mblock_size (single_type_managers c ! i) = (if is_full_attention (gspec (kv_cache_groups cfg ! i)) \<and> dcp > 1
       then spec_block_size (gspec (kv_cache_groups cfg ! i)) * dcp else spec_block_size (gspec (kv_cache_groups cfg ! i)))"
    "\<forall>m\<in>set (single_type_managers c). hbs dvd mblock_size m"
proof -
  from init obtain c0 where base: "init_base_coordinator HybridCoordinator cfg mml mif eagle caching ev dcp sbs hbs ret ui = Inr c0"
    and a: "\<forall>m\<in>set (single_type_managers c0). mblock_size m mod hbs = 0"
      "dcp > 1 \<longrightarrow> (\<forall>g\<in>set (kv_cache_groups cfg). is_full_attention (gspec g) \<or> is_mamba (gspec g))"
    and v: "verify_and_split_kv_cache_groups (c0\<lparr>enable_partial_hash_hits := partial_hits_possible cfg dcp hbs\<rparr>) = Inr c"
    by (auto simp: init_hybrid_coordinator_def py_assert_def elim!: rbindE split: if_splits)
  have c0: "coord_config c0 = cfg" "coord_hash_block_size c0 = hbs" "coord_scheduler_block_size c0 = sbs" "coord_dcp_world_size c0 = dcp"
    "eagle_group_ids c0 = flagged_eagle_groups eagle cfg"
    "make_managers mif mml caching dcp sbs (needs_kv_cache_zeroing cfg) 0 (kv_cache_groups cfg) = Inr (single_type_managers c0)"
    using base by (auto simp: init_base_coordinator_def py_assert_def elim!: rbindE split: if_splits)
  have c: "single_type_managers c = mark_eagle_managers (attention_groups c) (single_type_managers c0)"
    "coord_config c = cfg" "coord_hash_block_size c = hbs" "coord_scheduler_block_size c = sbs" "coord_dcp_world_size c = dcp"
    "enable_partial_hash_hits c = partial_hits_possible cfg dcp hbs" "eagle_group_ids c = flagged_eagle_groups eagle cfg"
    using v c0 by (auto simp: verify_and_split_kv_cache_groups_def Let_def py_assert_def split: if_splits)
  have sizes: "map mblock_size (single_type_managers c) = map mblock_size (single_type_managers c0)" unfolding c(1) by (rule mark_eagle_sizes)
  then have len: "length (single_type_managers c) = length (single_type_managers c0)" by (rule map_eq_imp_length_eq)
  note mk = make_managers_sizes[OF c0(6)]
  have size: "mblock_size (single_type_managers c ! i) = mblock_size (single_type_managers c0 ! i)" if "i < length (kv_cache_groups cfg)" for i
    using sizes len mk that by (metis nth_map)
  show "length (single_type_managers c) = length (kv_cache_groups cfg)" using len mk by simp
  show "\<forall>i < length (kv_cache_groups cfg). mblock_size (single_type_managers c ! i) = (if is_full_attention (gspec (kv_cache_groups cfg ! i)) \<and> dcp > 1
       then spec_block_size (gspec (kv_cache_groups cfg ! i)) * dcp else spec_block_size (gspec (kv_cache_groups cfg ! i)))"
  proof (intro allI impI)
    fix i assume i: "i < length (kv_cache_groups cfg)"
    have "\<not> (is_full_attention s \<and> is_mamba s)" for s by (cases s) auto
    then have "dcp > 1 \<longrightarrow> is_full_attention (gspec (kv_cache_groups cfg ! i)) = (\<not> is_mamba (gspec (kv_cache_groups cfg ! i)))"
      using a(2) i nth_mem by blast
    then show "mblock_size (single_type_managers c ! i) = (if is_full_attention (gspec (kv_cache_groups cfg ! i)) \<and> dcp > 1
       then spec_block_size (gspec (kv_cache_groups cfg ! i)) * dcp else spec_block_size (gspec (kv_cache_groups cfg ! i)))"
      using mk i size[OF i] by auto
  qed
  have "hbs dvd mblock_size m" if "m \<in> set (single_type_managers c)" for m
  proof -
    have "mblock_size m \<in> set (map mblock_size (single_type_managers c))" using that by simp
    then have "mblock_size m \<in> set (map mblock_size (single_type_managers c0))" by (simp only: sizes)
    then show ?thesis using a(1) by (auto simp: dvd_eq_mod_eq_0)
  qed
  then show "\<forall>m\<in>set (single_type_managers c). hbs dvd mblock_size m" by blast
qed (use init in \<open>auto simp: init_hybrid_coordinator_def init_base_coordinator_def verify_and_split_kv_cache_groups_def Let_def py_assert_def
       elim!: rbindE split: if_splits\<close>)

lemma no_eagle_groups:
  assumes "\<not> eagle" and "\<forall>g\<in>set (kv_cache_groups cfg). \<not> is_eagle_group g"
  shows "flagged_eagle_groups eagle cfg = []"
  using assms by (auto simp: flagged_eagle_groups_def Let_def filter_empty_conv)

lemma hit_config_init:
  assumes init: "init_hybrid_coordinator cfg max_model_len max_in_flight eagle caching events dcp pcp sched_bs hash_bs retention use_int = Inr c0"
    and c: "c = with_managers managers p c0"
    and sizes: "0 < hash_bs" "0 < sched_bs" "\<forall>g\<in>set (kv_cache_groups cfg). 0 < spec_block_size (gspec g)"
    and specs: "\<forall>g\<in>set (kv_cache_groups cfg). lookup_spec (gspec g) sched_bs \<and> \<not> is_eagle_group g" "\<not> eagle"
    and coarse: "\<not> partial_hits_possible cfg dcp hash_bs"
    and managers: "map mblock_size managers = map mblock_size (single_type_managers c0)" "\<forall>m\<in>set managers. mblock_size m dvd sched_bs"
    and pool: "index_ok p" "hash_block_size p = hash_bs" and ids: "length (kv_cache_groups cfg) \<le> 2 ^ 32"
    and hashes: "0 \<le> max_length" "max_length div hash_bs \<le> int (length hs)"
  shows "hit_config c hs max_length" and "same_sizes c"
proof -
  note i = init_hybrid_sizes[OF init]
  have ok: "hybrid_ok c" unfolding c by (rule hybrid_ok_init[OF init sizes])
  have f: "coord_config c = cfg" "coord_hash_block_size c = hash_bs" "coord_scheduler_block_size c = sched_bs" "coord_dcp_world_size c = dcp"
    "single_type_managers c = managers" "coord_pool c = p" "\<not> enable_partial_hash_hits c" "eagle_group_ids c = []"
    using i coarse no_eagle_groups[OF specs(2)] specs(1) by (simp_all add: c with_managers_def)
  have len: "length managers = length (kv_cache_groups cfg)" using map_eq_imp_length_eq[OF managers(1)] i(7) by simp
  have size: "mblock_size (managers ! x) = mblock_size (single_type_managers c0 ! x)" if "x < length (kv_cache_groups cfg)" for x
    using managers(1) len i(7) that by (metis nth_map)
  have each: "mblock_size (managers ! x) = (if is_full_attention (sg_spec sg) \<and> dcp > 1 then spec_block_size (sg_spec sg) * dcp else spec_block_size (sg_spec sg))"
    "hash_bs dvd mblock_size (managers ! x)" "mblock_size (managers ! x) dvd sched_bs" "lookup_spec (sg_spec sg) sched_bs"
    if m: "sg \<in> set (attention_groups c)" "x \<in> set (sg_group_ids sg)" for sg x
  proof -
    have x: "x < length (kv_cache_groups cfg)" using hybrid_group_ok(2)[OF ok m] f(1) by simp
    have s: "gspec (kv_cache_groups cfg ! x) = sg_spec sg" using group_spec[OF ok m] f(1) by simp
    show "mblock_size (managers ! x) = (if is_full_attention (sg_spec sg) \<and> dcp > 1 then spec_block_size (sg_spec sg) * dcp else spec_block_size (sg_spec sg))"
      using i(8) x s size[OF x] by auto
    show "hash_bs dvd mblock_size (managers ! x)" using i(7,9) x size[OF x] by simp
    show "mblock_size (managers ! x) dvd sched_bs" using managers(2) len x by simp
    show "lookup_spec (sg_spec sg) sched_bs" using specs(1) x s nth_mem by metis
  qed
  have hd: "hd (sg_group_ids sg) \<in> set (sg_group_ids sg)" if "sg \<in> set (attention_groups c)" for sg using hybrid_group_ok(1)[OF ok that] by simp
  show "same_sizes c" using each(1) hd by (auto simp: same_sizes_def group_block_size_def f)
  have "\<not> sg_use_eagle sg \<and> lookup_spec (sg_spec sg) sched_bs \<and>
      group_block_size c sg = (if is_full_attention (sg_spec sg) \<and> dcp > 1 then spec_block_size (sg_spec sg) * dcp else spec_block_size (sg_spec sg)) \<and>
      0 < group_block_size c sg \<and> hash_bs dvd group_block_size c sg \<and> group_block_size c sg dvd sched_bs"
    if m: "sg \<in> set (attention_groups c)" for sg
  proof -
    note e = each[OF m hd[OF m]]
    have "\<not> sg_use_eagle sg" using ok m f(8) by (auto simp: hybrid_ok_def groups_partition_def group_matches_def)
    moreover have "0 < mblock_size (managers ! hd (sg_group_ids sg))"
      using e(1) hybrid_group_ok(3)[OF ok m] by (auto simp: zero_less_mult_iff)
    ultimately show ?thesis using e by (simp add: group_block_size_def f)
  qed
  then show "hit_config c hs max_length" unfolding hit_config_def f using ok f(7) pool ids hashes by blast
qed

text \<open>
  C6: The prefix-cache hit of a hybrid model is the longest common one.  Let \<^verbatim>\<open>HybridKVCacheCoordinator.__init__\<close>
  succeed, without EAGLE groups and without partial hits, and let its managers and pool be in any later state with a
  consistent index.  Then \<^verbatim>\<open>find_longest_cache_hit\<close> returns the greatest multiple of the scheduler block size up to the
  limit for which every KV-cache group has cached the blocks it needs: all blocks for full attention, those of the
  window for sliding-window attention, those of the current chunk for chunked local attention, the last state for
  Mamba.  The blocks returned for a group hold exactly these keys, and there are as many as the hit has, with null
  blocks for those not needed; only a second full-attention specification can keep more.
\<close>

theorem hybrid_hit_longest:
  assumes "init_hybrid_coordinator cfg max_model_len max_in_flight eagle caching events dcp pcp sched_bs hash_bs retention use_int = Inr c0"
    and "c = with_managers managers p c0"
    and "0 < hash_bs" "0 < sched_bs" "\<forall>g\<in>set (kv_cache_groups cfg). 0 < spec_block_size (gspec g)"
    and "\<forall>g\<in>set (kv_cache_groups cfg). lookup_spec (gspec g) sched_bs \<and> \<not> is_eagle_group g" "\<not> eagle"
    and "\<not> partial_hits_possible cfg dcp hash_bs"
    and "map mblock_size managers = map mblock_size (single_type_managers c0)" "\<forall>m\<in>set managers. mblock_size m dvd sched_bs"
    and "index_ok p" "hash_block_size p = hash_bs" and "length (kv_cache_groups cfg) \<le> 2 ^ 32"
    and "0 \<le> max_length" "max_length div hash_bs \<le> int (length hs)"
  shows "\<exists>hit_blocks hit uncached. hybrid_find_longest_cache_hit c (Raw_hashes hs) max_length = Some (Inr (hit_blocks, hit, uncached)) \<and>
    is_longest (\<lambda>n. \<forall>i < length (kv_cache_groups cfg). group_serves c hs i n) max_length sched_bs hit \<and>
    0 \<le> uncached \<and> length hit_blocks = length (kv_cache_groups cfg) \<and>
    (\<forall>i < length (kv_cache_groups cfg).
       (\<forall>j\<in>group_needs c hit i. j < length (hit_blocks ! i) \<and> group_holds c hs i j (hit_blocks ! i ! j)) \<and>
       (\<not> is_full_attention (gspec (kv_cache_groups cfg ! i)) \<or> i \<in> set (sg_group_ids (hd (attention_groups c))) \<longrightarrow>
          length (hit_blocks ! i) = nat (hit div mblock_size (managers ! i))))"
proof -
  have f: "coord_config c = cfg" "coord_scheduler_block_size c = sched_bs" "single_type_managers c = managers"
    using init_hybrid_sizes[OF assms(1)] by (simp_all add: assms(2) with_managers_def)
  show ?thesis using hybrid_hit[OF hit_config_init[OF assms]] by (simp only: f)
qed

theorem hybrid_hit_longest_witness:
  "\<exists>c0 c p hit_blocks uncached. init_hybrid_coordinator sample_config 16 8 False True False 1 1 2 2 None False = Inr c0 \<and>
     c = with_managers (single_type_managers c0) p c0 \<and>
     hybrid_find_longest_cache_hit c (Raw_hashes [[1], [2]]) 5 = Some (Inr (hit_blocks, 4, uncached)) \<and> map length hit_blocks = [2, 2]"
proof -
  obtain c0 where init: "init_hybrid_coordinator sample_config 16 8 False True False 1 1 2 2 None False = Inr c0"
    and sgs: "attention_groups c0 = [\<lparr>sg_spec = FullAttentionSpec 2, sg_layout = 0, sg_group_ids = [1], sg_use_eagle = False\<rparr>,
      \<lparr>sg_spec = SlidingWindowSpec 2 3, sg_layout = 0, sg_group_ids = [0], sg_use_eagle = False\<rparr>]"
    and bs: "map mblock_size (single_type_managers c0) = [2, 2]"
    by (rule sample_hybrid)
  obtain p where p: "lookup_ok p [0, 1]" "hash_block_size p = 2" "\<forall>h\<in>set [[1], [2]]. cached_for p [0, 1] h"
    by (rule pool_with_group_hashes[of "[0, 1]" 2 "[[1], [2]]"]) simp_all
  define c where "c = with_managers (single_type_managers c0) p c0"
  let ?cfg = sample_config
  have G: "length (kv_cache_groups ?cfg) = 2" and cfg: "coord_config c = ?cfg"
    using init_hybrid_sizes(1)[OF init] by (simp_all add: sample_config_def c_def with_managers_def)
  have groups: "\<forall>g\<in>set (kv_cache_groups ?cfg). 0 < spec_block_size (gspec g)"
    "\<forall>g\<in>set (kv_cache_groups ?cfg). lookup_spec (gspec g) 2 \<and> \<not> is_eagle_group g" "\<not> partial_hits_possible ?cfg 1 2"
    by (simp_all add: sample_config_def partial_hits_possible_def)
  have len: "length (single_type_managers c0) = 2" using init_hybrid_sizes(7)[OF init] G by simp
  have m: "mblock_size (single_type_managers c0 ! i) = 2" if "i < 2" for i
    using arg_cong[OF bs, of "\<lambda>xs. xs ! i"] that len by (auto simp: less_2_cases_iff)
  have dvd: "\<forall>m\<in>set (single_type_managers c0). mblock_size m dvd 2" using m len by (auto simp: in_set_conv_nth)
  have idx: "index_ok p" using p(1) by (simp add: lookup_ok_def)
  obtain hit_blocks hit uncached where r: "hybrid_find_longest_cache_hit c (Raw_hashes [[1], [2]]) 5 = Some (Inr (hit_blocks, hit, uncached))"
    "is_longest (\<lambda>n. \<forall>i < length (kv_cache_groups ?cfg). group_serves c [[1], [2]] i n) 5 2 hit" "length hit_blocks = length (kv_cache_groups ?cfg)"
    "\<forall>i < length (kv_cache_groups ?cfg). \<not> is_full_attention (gspec (kv_cache_groups ?cfg ! i)) \<or> i \<in> set (sg_group_ids (hd (attention_groups c))) \<longrightarrow>
       length (hit_blocks ! i) = nat (hit div mblock_size (single_type_managers c0 ! i))"
    using hybrid_hit_longest[OF init c_def _ _ groups(1,2) _ groups(3) refl dvd idx p(2), of 5 "[[1], [2]]"] G by auto
  have serves: "group_serves c [[1], [2]] i 4" if "i < 2" for i
  proof -
    have "j < 2 \<Longrightarrow> \<exists>b. group_holds c [[1], [2]] i j b" for j
      using p(2,3) that m[OF that] by (auto simp: group_holds_def c_def with_managers_def boundary_hash_def cached_for_def less_2_cases_iff)
    moreover have "j < 2" if "j \<in> group_needs c 4 i" for j
      using that m[OF \<open>i < 2\<close>] needed_below[of j _ 2 2] by (simp add: group_needs_def c_def with_managers_def)
    ultimately show ?thesis by (auto simp: group_serves_def)
  qed
  have "4 \<le> hit" using r(2) serves G by (simp add: is_longest_def)
  moreover have "hit \<le> 5" "2 dvd hit" using r(2) by (simp_all add: is_longest_def)
  ultimately have hit: "hit = 4" by presburger
  have "length (hit_blocks ! i) = 2" if "i < 2" for i
    using r(4) that m[OF that] hit by (auto simp: sample_config_def less_2_cases_iff c_def with_managers_def sgs)
  then have "length (hit_blocks ! 0) = 2" "length (hit_blocks ! 1) = 2" by simp_all
  moreover obtain a b where "hit_blocks = [a, b]" using r(3) G by (metis length_0_conv length_Suc_conv numeral_2_eq_2)
  ultimately have lens: "map length hit_blocks = [2, 2]" by simp
  show ?thesis
    by (intro exI[of _ c0] exI[of _ c] exI[of _ p] exI[of _ hit_blocks] exI[of _ uncached]) (use init r(1)[unfolded hit] c_def lens in simp)
qed

end
