(* ===== verification/Ngram_Proposer.thy ===== *)
theory Ngram_Proposer
  imports Prelude "HOL-Library.While_Combinator"
begin

text \<open>
  The n-gram proposer of speculative decoding (\<^verbatim>\<open>src/vllm/v1/spec_decode/ngram_proposer.py\<close>).  It drafts the tokens
  that followed an earlier occurrence of the last tokens of a request, found in one pass of the algorithm of
  Knuth, Morris and Pratt over the reversed tokens.  The compiled function does not check subscripts; the invariant of
  the loop shows that all of them are in range.  The number of threads does not affect the result and is left out.
\<close>

section \<open>Search for the longest n-gram\<close>

record match_state =
  lps :: "nat list"
  longest_ngram :: nat
  position :: nat
  prev_lps :: nat
  cursor :: nat

definition match_start :: "nat \<Rightarrow> match_state" where
  "match_start max_ngram = \<lparr>lps = replicate max_ngram 0, longest_ngram = 0, position = 0, prev_lps = 0, cursor = 1\<rparr>"

definition match_step :: "nat \<Rightarrow> int list \<Rightarrow> match_state \<Rightarrow> match_state" where
  "match_step max_ngram tokens s =
     (if tokens ! prev_lps s = tokens ! cursor s then
        let prev = prev_lps s + 1;
            s1 = (if prev \<ge> longest_ngram s then s\<lparr>longest_ngram := prev, position := cursor s\<rparr> else s);
            table = (if cursor s < max_ngram then (lps s)[cursor s := prev] else lps s)
        in s1\<lparr>lps := table, prev_lps := (if prev = max_ngram then table ! (max_ngram - 1) else prev), cursor := cursor s + 1\<rparr>
      else if prev_lps s \<noteq> 0 then s\<lparr>prev_lps := lps s ! (prev_lps s - 1)\<rparr>
      else s\<lparr>cursor := cursor s + 1\<rparr>)"

definition match_loop :: "nat \<Rightarrow> int list \<Rightarrow> match_state option" where
  "match_loop max_ngram tokens =
     while_option (\<lambda>s. cursor s < length tokens) (match_step max_ngram tokens) (match_start max_ngram)"

definition find_longest_matched_ngram_and_propose_tokens ::
  "int list \<Rightarrow> int \<Rightarrow> nat \<Rightarrow> int \<Rightarrow> int \<Rightarrow> int list option" where
  "find_longest_matched_ngram_and_propose_tokens origin_tokens min_ngram max_ngram max_model_len k0 =
     (let total_token = int (length origin_tokens)
      in if total_token < min_ngram then Some []
         else let k = min k0 (max_model_len - total_token)
              in if k \<le> 0 then Some []
                 else case match_loop max_ngram (rev origin_tokens) of
                        None \<Rightarrow> None
                      | Some s \<Rightarrow>
                          if int (longest_ngram s) < min_ngram then Some []
                          else let start_position = total_token - 1 - int (position s) + int (longest_ngram s);
                                   k' = min k (total_token - start_position)
                               in Some (py_slice origin_tokens start_position (start_position + k')))"

section \<open>Proposals for a batch\<close>

record ngram_proposer =
  min_n :: int
  max_n :: nat
  spec_k :: int
  max_len :: int
  valid_ngram_draft :: "int list list"
  valid_ngram_num_drafts :: "nat list"

definition init_ngram_buffers :: "int \<Rightarrow> nat \<Rightarrow> nat \<Rightarrow> int \<Rightarrow> nat \<Rightarrow> ngram_proposer" where
  "init_ngram_buffers prompt_lookup_min prompt_lookup_max num_speculative_tokens max_model_len max_num_seqs =
     \<lparr>min_n = prompt_lookup_min, max_n = prompt_lookup_max, spec_k = int num_speculative_tokens, max_len = max_model_len,
      valid_ngram_draft = replicate max_num_seqs (replicate num_speculative_tokens 0),
      valid_ngram_num_drafts = replicate max_num_seqs 0\<rparr>"

fun batch_propose_numba ::
  "nat list \<Rightarrow> nat list \<Rightarrow> int list list \<Rightarrow> int \<Rightarrow> ngram_proposer \<Rightarrow> ngram_proposer result option" where
  "batch_propose_numba [] num_tokens_no_spec token_ids_cpu k P = Some (Inr P)"
| "batch_propose_numba (idx # reqs) num_tokens_no_spec token_ids_cpu k P =
     (case find_longest_matched_ngram_and_propose_tokens (take (num_tokens_no_spec ! idx) (token_ids_cpu ! idx))
             (min_n P) (max_n P) (max_len P) k of
        None \<Rightarrow> None
      | Some drafter_output \<Rightarrow>
          let n = length drafter_output; row = valid_ngram_draft P ! idx;
              P1 = P\<lparr>valid_ngram_num_drafts := (valid_ngram_num_drafts P)[idx := n]\<rparr>
          in if n > length row then Some (Inl ValueError)
             else batch_propose_numba reqs num_tokens_no_spec token_ids_cpu k
                    (if n \<noteq> 0 then P1\<lparr>valid_ngram_draft := (valid_ngram_draft P)[idx := drafter_output @ drop n row]\<rparr> else P1))"

definition drafts_of :: "nat list \<Rightarrow> ngram_proposer \<Rightarrow> nat \<Rightarrow> int list result" where
  "drafts_of valid_ngram_requests P i =
     (if i \<in> set valid_ngram_requests
      then rbind (py_nth (valid_ngram_num_drafts P) (int i)) (\<lambda>n.
             if n > 0 then rbind (py_nth (valid_ngram_draft P) (int i)) (\<lambda>row. Inr (take n row)) else Inr [])
      else Inr [])"

fun collect_drafts :: "nat list \<Rightarrow> ngram_proposer \<Rightarrow> nat list \<Rightarrow> int list list result" where
  "collect_drafts valid_ngram_requests P [] = Inr []"
| "collect_drafts valid_ngram_requests P (i # is) =
     rbind (drafts_of valid_ngram_requests P i) (\<lambda>d.
     rbind (collect_drafts valid_ngram_requests P is) (\<lambda>ds. Inr (d # ds)))"

definition batch_propose ::
  "nat \<Rightarrow> nat list \<Rightarrow> nat list \<Rightarrow> int list list \<Rightarrow> int \<Rightarrow> ngram_proposer \<Rightarrow> (int list list \<times> ngram_proposer) result option" where
  "batch_propose num_requests valid_ngram_requests num_tokens_no_spec token_ids_cpu k P =
     (case (if valid_ngram_requests \<noteq> [] then batch_propose_numba valid_ngram_requests num_tokens_no_spec token_ids_cpu k P
            else Some (Inr P)) of
        None \<Rightarrow> None
      | Some r \<Rightarrow> Some (rbind r (\<lambda>P'. rbind (collect_drafts valid_ngram_requests P' [0..<num_requests]) (\<lambda>ds. Inr (ds, P')))))"

definition needs_proposal :: "int list list \<Rightarrow> nat list \<Rightarrow> ngram_proposer \<Rightarrow> nat \<Rightarrow> bool" where
  "needs_proposal sampled_token_ids num_tokens_no_spec P i \<longleftrightarrow>
     sampled_token_ids ! i \<noteq> [] \<and> int (num_tokens_no_spec ! i) < max_len P"

definition propose ::
  "int \<Rightarrow> int list list \<Rightarrow> nat list \<Rightarrow> int list list \<Rightarrow> ngram_proposer \<Rightarrow> (int list list \<times> ngram_proposer) result option" where
  "propose num_speculative_tokens sampled_token_ids num_tokens_no_spec token_ids_cpu P =
     (if num_speculative_tokens \<le> spec_k P
      then batch_propose (length sampled_token_ids)
             (filter (needs_proposal sampled_token_ids num_tokens_no_spec P) [0..<length sampled_token_ids])
             num_tokens_no_spec token_ids_cpu num_speculative_tokens P
      else Some (Inl AssertionError))"

text \<open>The constructor ends with a call on a batch of requests that sampled nothing.\<close>

definition init_ngram_proposer :: "int option \<Rightarrow> nat option \<Rightarrow> nat \<Rightarrow> nat \<Rightarrow> nat \<Rightarrow> ngram_proposer result option" where
  "init_ngram_proposer prompt_lookup_min prompt_lookup_max num_speculative_tokens max_model_len max_num_seqs =
     (case (prompt_lookup_min, prompt_lookup_max) of
        (Some lo, Some hi) \<Rightarrow>
          (case propose (int num_speculative_tokens) (replicate 1024 []) (replicate 1024 0) (replicate 1024 (replicate max_model_len 0))
                  (init_ngram_buffers lo hi num_speculative_tokens (int max_model_len) max_num_seqs) of
             None \<Rightarrow> None
           | Some r \<Rightarrow> Some (rbind r (\<lambda>(_, P). Inr P)))
      | _ \<Rightarrow> Some (Inl AssertionError))"

section \<open>Borders\<close>

text \<open>\<open>ends t v i\<close>: the first \<open>v\<close> tokens of \<open>t\<close> end again before position \<open>i\<close>.\<close>

definition ends :: "'a list \<Rightarrow> nat \<Rightarrow> nat \<Rightarrow> bool" where
  "ends t v i \<longleftrightarrow> v \<le> i \<and> (\<forall>j<v. t ! j = t ! (i - v + j))"

lemma ends_0 [simp]: "ends t 0 i"
  by (simp add: ends_def)

lemma ends_Suc: "ends t (Suc v) (Suc i) \<longleftrightarrow> ends t v i \<and> t ! v = t ! i"
  by (auto simp: ends_def less_Suc_eq)

lemma ends_chain:
  assumes v: "ends t v i" and le: "u \<le> v"
  shows "ends t u i \<longleftrightarrow> ends t u v"
proof -
  have "t ! (v - u + j) = t ! (i - u + j)" if "j < u" for j
  proof -
    have "v - u + j < v" using that le by simp
    then have "t ! (v - u + j) = t ! (i - v + (v - u + j))" using v by (simp add: ends_def)
    also have "i - v + (v - u + j) = i - u + j" using v le by (simp add: ends_def)
    finally show ?thesis .
  qed
  then show ?thesis using v le by (auto simp: ends_def)
qed

text \<open>The greatest number of tokens, below a bound, with which a proper suffix of the tokens before \<open>i\<close> starts the text.\<close>

definition longest_end :: "'a list \<Rightarrow> nat \<Rightarrow> nat \<Rightarrow> nat \<Rightarrow> bool" where
  "longest_end t bound i v \<longleftrightarrow> v < i \<and> v \<le> bound \<and> ends t v i \<and> (\<forall>u. u < i \<and> u \<le> bound \<and> ends t u i \<longrightarrow> u \<le> v)"

text \<open>The invariant of the loop, for \<open>N\<close> the greatest length of an n-gram.\<close>

definition match_inv :: "nat \<Rightarrow> int list \<Rightarrow> match_state \<Rightarrow> bool" where
  "match_inv N t s \<longleftrightarrow>
     length (lps s) = N \<and> 0 < cursor s \<and> prev_lps s < N \<and> prev_lps s < cursor s \<and> ends t (prev_lps s) (cursor s) \<and>
     (\<forall>v. prev_lps s < v \<and> v < N \<and> v < cursor s \<and> ends t v (cursor s) \<longrightarrow> t ! v \<noteq> t ! cursor s) \<and>
     (\<forall>j<N. if j < cursor s then longest_end t N (Suc j) (lps s ! j) else lps s ! j = 0) \<and>
     longest_ngram s \<le> N \<and> (\<forall>j v. 0 < j \<and> j < cursor s \<and> v \<le> j \<and> v \<le> N \<and> ends t v (Suc j) \<longrightarrow> v \<le> longest_ngram s) \<and>
     (0 < longest_ngram s \<longrightarrow> longest_ngram s \<le> position s \<and> position s < cursor s \<and> ends t (longest_ngram s) (Suc (position s)) \<and>
        (\<forall>j. position s < j \<and> j < cursor s \<longrightarrow> \<not> ends t (longest_ngram s) (Suc j)))"

lemma match_inv_best: "match_inv N t s \<Longrightarrow> 0 < j \<Longrightarrow> j < cursor s \<Longrightarrow> v \<le> j \<Longrightarrow> v \<le> N \<Longrightarrow> ends t v (Suc j) \<Longrightarrow> v \<le> longest_ngram s"
  unfolding match_inv_def by blast

lemma match_inv_last: "match_inv N t s \<Longrightarrow> 0 < longest_ngram s \<Longrightarrow> position s < j \<Longrightarrow> j < cursor s \<Longrightarrow> \<not> ends t (longest_ngram s) (Suc j)"
  unfolding match_inv_def by blast

lemma match_inv_table: "match_inv N t s \<Longrightarrow> j < N \<Longrightarrow> j < cursor s \<Longrightarrow> longest_end t N (Suc j) (lps s ! j)"
  by (simp add: match_inv_def)

lemma match_inv_found:
  "match_inv N t s \<Longrightarrow> 0 < longest_ngram s \<Longrightarrow> longest_ngram s \<le> position s \<and> position s < cursor s \<and> ends t (longest_ngram s) (Suc (position s))"
  "match_inv N t s \<Longrightarrow> longest_ngram s \<le> N"
  by (simp_all add: match_inv_def)

lemma match_invI:
  assumes "length (lps s) = N" "0 < cursor s" "prev_lps s < N" "prev_lps s < cursor s" "ends t (prev_lps s) (cursor s)"
    and "\<And>v. prev_lps s < v \<Longrightarrow> v < N \<Longrightarrow> v < cursor s \<Longrightarrow> ends t v (cursor s) \<Longrightarrow> t ! v \<noteq> t ! cursor s"
    and "\<And>j. j < N \<Longrightarrow> if j < cursor s then longest_end t N (Suc j) (lps s ! j) else lps s ! j = 0"
    and "longest_ngram s \<le> N"
    and "\<And>j v. 0 < j \<Longrightarrow> j < cursor s \<Longrightarrow> v \<le> j \<Longrightarrow> v \<le> N \<Longrightarrow> ends t v (Suc j) \<Longrightarrow> v \<le> longest_ngram s"
    and "0 < longest_ngram s \<Longrightarrow> longest_ngram s \<le> position s \<and> position s < cursor s \<and> ends t (longest_ngram s) (Suc (position s))"
    and "\<And>j. 0 < longest_ngram s \<Longrightarrow> position s < j \<Longrightarrow> j < cursor s \<Longrightarrow> \<not> ends t (longest_ngram s) (Suc j)"
  shows "match_inv N t s"
  unfolding match_inv_def by (intro conjI allI impI; (elim conjE)?; use assms in simp)

lemma match_start_inv: "0 < N \<Longrightarrow> match_inv N t (match_start N)"
  by (auto simp: match_inv_def match_start_def longest_end_def)

text \<open>A step on equal tokens finds the longest end at the cursor.\<close>

lemma extend_longest:
  assumes inv: "match_inv N t s" and eq: "t ! prev_lps s = t ! cursor s"
  shows "longest_end t N (Suc (cursor s)) (Suc (prev_lps s))"
proof -
  have "u \<le> Suc (prev_lps s)" if u: "u < Suc (cursor s)" "u \<le> N" "ends t u (Suc (cursor s))" for u
  proof (cases u)
    case (Suc v)
    then have "ends t v (cursor s)" "t ! v = t ! cursor s" "v < N" "v < cursor s" using u by (simp_all add: ends_Suc)
    then have "\<not> prev_lps s < v" using inv by (auto simp: match_inv_def)
    then show ?thesis using Suc by simp
  qed simp
  then show ?thesis using inv eq by (auto simp: longest_end_def match_inv_def ends_Suc)
qed

lemma match_step_equal:
  assumes inv: "match_inv N t s" and eq: "t ! prev_lps s = t ! cursor s"
  shows "match_inv N t (match_step N t s)"
proof -
  let ?v = "Suc (prev_lps s)" and ?i = "cursor s"
  define table where "table = (if ?i < N then (lps s)[?i := ?v] else lps s)"
  have long: "longest_end t N (Suc ?i) ?v" by (rule extend_longest[OF inv eq])
  have len: "length table = N" using inv by (simp add: match_inv_def table_def)
  have tab: "if j < Suc ?i then longest_end t N (Suc j) (table ! j) else table ! j = 0" if "j < N" for j
    using that inv long by (cases "j = ?i") (auto simp: match_inv_def less_Suc_eq table_def)
  define prev where "prev = (if ?v = N then table ! (N - 1) else ?v)"
  have vi: "ends t ?v (Suc ?i)" "?v \<le> N" "?v \<le> ?i" using long by (simp_all add: longest_end_def)
  have pr: "prev < N \<and> prev < Suc ?i \<and> ends t prev (Suc ?i) \<and> (\<forall>u. prev < u \<and> u < N \<and> u < Suc ?i \<longrightarrow> \<not> ends t u (Suc ?i))"
  proof (cases "?v = N")
    case True
    have N: "0 < N" "N - 1 < N" "N - 1 < Suc ?i" "Suc (N - 1) = N" using True vi(3) by auto
    have l: "longest_end t N N (table ! (N - 1))" using tab[OF N(2)] N by simp
    then have "ends t (table ! (N - 1)) (Suc ?i)" "table ! (N - 1) < N"
      using ends_chain[OF vi(1), of "table ! (N - 1)"] True by (simp_all add: longest_end_def)
    moreover have "\<not> ends t u (Suc ?i)" if "table ! (N - 1) < u" "u < N" for u
      using ends_chain[OF vi(1), of u] that True l by (auto simp: longest_end_def)
    ultimately show ?thesis using True vi(3) by (simp add: prev_def)
  next
    case False
    have "\<not> ends t u (Suc ?i)" if "?v < u" "u < N" "u < Suc ?i" for u using that long by (auto simp: longest_end_def)
    then show ?thesis using False vi by (simp add: prev_def)
  qed
  have best: "v \<le> max (longest_ngram s) ?v" if "0 < j" "j < Suc ?i" "v \<le> j" "v \<le> N" "ends t v (Suc j)" for j v
  proof (cases "j = ?i")
    case True
    then show ?thesis using that long by (auto simp: longest_end_def le_max_iff_disj)
  next
    case False
    then have "v \<le> longest_ngram s" by (intro match_inv_best[OF inv that(1) _ that(3-5)]) (use that in simp)
    then show ?thesis by simp
  qed
  have fields: "match_step N t s = (if ?v \<ge> longest_ngram s then s\<lparr>longest_ngram := ?v, position := ?i\<rparr> else s)
      \<lparr>lps := table, prev_lps := prev, cursor := Suc ?i\<rparr>"
    using eq by (simp add: match_step_def Let_def table_def prev_def)
  show ?thesis
  proof (cases "?v \<ge> longest_ngram s")
    case True
    then have "match_step N t s = s\<lparr>longest_ngram := ?v, position := ?i, lps := table, prev_lps := prev, cursor := Suc ?i\<rparr>"
      using fields by simp
    then show ?thesis using tab pr best vi len True unfolding match_inv_def by (auto simp: max_def)
  next
    case False
    then have m: "match_step N t s = s\<lparr>lps := table, prev_lps := prev, cursor := Suc ?i\<rparr>" using fields by simp
    have "\<not> ends t (longest_ngram s) (Suc ?i)" if "longest_ngram s \<le> ?i"
      using False long inv that by (auto simp: longest_end_def match_inv_def)
    then have last: "\<not> ends t (longest_ngram s) (Suc j)" if "0 < longest_ngram s" "position s < j" "j < Suc ?i" for j
      using inv that match_inv_last[OF inv that(1,2)] by (cases "j = ?i") (auto simp: match_inv_def)
    show ?thesis using tab pr best len False last inv unfolding match_inv_def m by (auto simp: max_def)
  qed
qed

lemma match_step_different:
  assumes inv: "match_inv N t s" and ne: "t ! prev_lps s \<noteq> t ! cursor s"
  shows "match_inv N t (match_step N t s) \<and> (prev_lps s \<noteq> 0 \<longrightarrow> prev_lps (match_step N t s) < prev_lps s)"
proof (cases "prev_lps s = 0")
  case False
  let ?p = "prev_lps s" and ?i = "cursor s"
  let ?u = "lps s ! (?p - 1)"
  have p: "?p - 1 < N" "?p - 1 < ?i" "Suc (?p - 1) = ?p" "ends t ?p ?i" using inv False by (auto simp: match_inv_def)
  then have l: "longest_end t N ?p ?u" using match_inv_table[OF inv p(1,2)] by simp
  then have u: "?u < ?p" "ends t ?u ?i" using ends_chain[OF p(4), of ?u] by (simp_all add: longest_end_def)
  have "t ! v \<noteq> t ! ?i" if v: "?u < v" "v < N" "v < ?i" "ends t v ?i" for v
  proof (cases "?p \<le> v")
    case True
    then show ?thesis using inv ne v by (cases "?p = v") (auto simp: match_inv_def)
  next
    case False
    then have "v \<le> ?u" using ends_chain[OF p(4), of v] v l by (auto simp: longest_end_def)
    then show ?thesis using v by simp
  qed
  moreover have "match_step N t s = s\<lparr>prev_lps := ?u\<rparr>" using ne False by (simp add: match_step_def)
  ultimately show ?thesis using inv u False unfolding match_inv_def by auto
next
  case True
  let ?i = "cursor s"
  have none: "v = 0" if "v \<le> ?i" "v \<le> N" "ends t v (Suc ?i)" for v
  proof (cases v)
    case (Suc w)
    then have "ends t w ?i" "t ! w = t ! ?i" "w < N" "w < ?i" using that by (simp_all add: ends_Suc)
    then have "\<not> 0 < w" using inv True by (auto simp: match_inv_def)
    then show ?thesis using \<open>t ! w = t ! ?i\<close> ne True by simp
  qed simp
  have m: "match_step N t s = s\<lparr>cursor := Suc ?i\<rparr>" using ne True by (simp add: match_step_def)
  have table: "if j < Suc ?i then longest_end t N (Suc j) (lps s ! j) else lps s ! j = 0" if "j < N" for j
  proof (cases "j = ?i")
    case True
    have "lps s ! j = 0" using inv that True by (simp add: match_inv_def)
    moreover have "longest_end t N (Suc ?i) 0" using none by (simp add: longest_end_def)
    ultimately show ?thesis using True by simp
  next
    case False
    then show ?thesis using inv that by (auto simp: match_inv_def)
  qed
  have best: "v \<le> longest_ngram s" if "0 < j" "j < Suc ?i" "v \<le> j" "v \<le> N" "ends t v (Suc j)" for j v
    using that none[of v] match_inv_best[OF inv that(1) _ that(3-5)] by (cases "j = ?i") auto
  have last: "\<not> ends t (longest_ngram s) (Suc j)" if "0 < longest_ngram s" "position s < j" "j < Suc ?i" for j
  proof (cases "j = ?i")
    case True
    have "longest_ngram s \<le> ?i" using match_inv_found(1)[OF inv that(1)] by simp
    then show ?thesis using none[of "longest_ngram s"] match_inv_found(2)[OF inv] that(1) True by auto
  next
    case False
    then show ?thesis using match_inv_last[OF inv that(1,2)] that(3) by simp
  qed
  have "match_inv N t (s\<lparr>cursor := Suc ?i\<rparr>)"
  proof (rule match_invI)
    show "0 < longest_ngram (s\<lparr>cursor := Suc ?i\<rparr>) \<Longrightarrow> longest_ngram (s\<lparr>cursor := Suc ?i\<rparr>) \<le> position (s\<lparr>cursor := Suc ?i\<rparr>) \<and>
        position (s\<lparr>cursor := Suc ?i\<rparr>) < cursor (s\<lparr>cursor := Suc ?i\<rparr>) \<and> ends t (longest_ngram (s\<lparr>cursor := Suc ?i\<rparr>)) (Suc (position (s\<lparr>cursor := Suc ?i\<rparr>)))"
      using match_inv_found(1)[OF inv] by simp
    show "t ! v \<noteq> t ! cursor (s\<lparr>cursor := Suc ?i\<rparr>)"
      if "prev_lps (s\<lparr>cursor := Suc ?i\<rparr>) < v" "v < N" "v < cursor (s\<lparr>cursor := Suc ?i\<rparr>)" "ends t v (cursor (s\<lparr>cursor := Suc ?i\<rparr>))" for v
      using none[of v] that True by simp
  qed (use table best last inv True in \<open>auto simp: match_inv_def\<close>)
  then show ?thesis using True m by simp
qed

text \<open>Every step moves the cursor or shortens the border.\<close>

lemma match_loop_returns:
  assumes N: "0 < N"
  shows "\<exists>s. match_loop N t = Some s \<and> match_inv N t s \<and> length t \<le> cursor s \<and> cursor s \<le> max 1 (length t)"
proof -
  let ?b = "\<lambda>s. cursor s < length t" and ?m = "\<lambda>s. 2 * (length t - cursor s) + prev_lps s"
  have step: "match_inv N t s \<Longrightarrow> match_inv N t (match_step N t s)" for s
    using match_step_equal match_step_different by blast
  have less: "?m (match_step N t s) < ?m s" if inv: "match_inv N t s" and b: "?b s" for s
  proof (cases "t ! prev_lps s = t ! cursor s")
    case True
    have c: "cursor (match_step N t s) = Suc (cursor s)" using True by (simp add: match_step_def Let_def)
    have "prev_lps (match_step N t s) \<le> Suc (prev_lps s)"
    proof (cases "Suc (prev_lps s) = N")
      case True
      then show ?thesis using step[OF inv] by (auto simp: match_inv_def)
    next
      case False
      then show ?thesis using True by (simp add: match_step_def Let_def)
    qed
    then show ?thesis using b by (simp add: c)
  next
    case False
    show ?thesis
    proof (cases "prev_lps s = 0")
      case True
      then show ?thesis using False b by (simp add: match_step_def)
    next
      case nz: False
      have "cursor (match_step N t s) = cursor s" using False nz by (simp add: match_step_def)
      then show ?thesis using match_step_different[OF inv False] nz by simp
    qed
  qed
  have "\<exists>s. while_option ?b (match_step N t) (match_start N) = Some s"
    by (rule measure_while_option_Some[of "match_inv N t" _ _ ?m, OF _ match_start_inv[OF N]]) (use step less in blast)
  then obtain s where s: "while_option ?b (match_step N t) (match_start N) = Some s" ..
  have "match_inv N t s" by (rule while_option_rule[where P = "match_inv N t", OF _ s match_start_inv[OF N]]) (use step in blast)
  moreover have "\<not> ?b s" by (rule while_option_stop[OF s])
  moreover have "cursor s \<le> max 1 (length t)"
    by (rule while_option_rule[where P = "\<lambda>s. cursor s \<le> max 1 (length t)", OF _ s]) (auto simp: match_step_def match_start_def Let_def)
  ultimately show ?thesis using s by (simp add: match_loop_def)
qed

section \<open>What is proposed\<close>

text \<open>\<open>occurs ts n j\<close>: the last \<open>n\<close> tokens also stand at position \<open>j\<close>, before the end.\<close>

definition occurs :: "int list \<Rightarrow> nat \<Rightarrow> nat \<Rightarrow> bool" where
  "occurs ts n j \<longleftrightarrow> j + n < length ts \<and> take n (drop j ts) = drop (length ts - n) ts"

lemma occurs_ends:
  assumes "j < length ts"
  shows "occurs ts n j \<longleftrightarrow> n < length ts - j \<and> ends (rev ts) n (length ts - j)"
proof (cases "n < length ts - j")
  case True
  have "take n (drop j ts) = drop (length ts - n) ts \<longleftrightarrow> (\<forall>i<n. ts ! (j + i) = ts ! (length ts - n + i))"
    using True by (auto simp: list_eq_iff_nth_eq)
  also have "\<dots> \<longleftrightarrow> (\<forall>i<n. ts ! (j + (n - 1 - i)) = ts ! (length ts - n + (n - 1 - i)))"
    (is "?l \<longleftrightarrow> ?r")
  proof
    assume r: ?r
    show ?l
    proof (intro allI impI)
      fix i assume "i < n"
      then show "ts ! (j + i) = ts ! (length ts - n + i)" using r[rule_format, of "n - 1 - i"] by simp
    qed
  next
    assume l: ?l
    show ?r by (intro allI impI l[rule_format]) simp
  qed
  also have "\<dots> \<longleftrightarrow> (\<forall>i<n. rev ts ! i = rev ts ! (length ts - j - n + i))"
  proof (intro all_cong)
    fix i assume i: "i < n"
    have "rev ts ! i = ts ! (length ts - n + (n - 1 - i))" using i True by (simp add: rev_nth)
    moreover have "rev ts ! (length ts - j - n + i) = ts ! (j + (n - 1 - i))" using i True by (simp add: rev_nth)
    ultimately show "(ts ! (j + (n - 1 - i)) = ts ! (length ts - n + (n - 1 - i))) = (rev ts ! i = rev ts ! (length ts - j - n + i))"
      by auto
  qed
  finally show ?thesis using True by (auto simp: occurs_def ends_def)
qed (auto simp: occurs_def)

text \<open>
  The draft of a request: the tokens after the first occurrence of the longest n-gram that ends the request and
  occurs before, at most \<open>k\<close> of them; nothing when no n-gram of an allowed length occurs before.
\<close>

definition ngram_draft :: "int list \<Rightarrow> int \<Rightarrow> nat \<Rightarrow> int \<Rightarrow> int list \<Rightarrow> bool" where
  "ngram_draft ts lo hi k out \<longleftrightarrow>
     (if k \<le> 0 \<or> (\<forall>n j. lo \<le> int n \<and> n \<le> hi \<longrightarrow> \<not> occurs ts n j) then out = []
      else \<exists>n j. lo \<le> int n \<and> n \<le> hi \<and> occurs ts n j \<and> (\<forall>n' j'. n < n' \<and> n' \<le> hi \<longrightarrow> \<not> occurs ts n' j') \<and>
             (\<forall>j'<j. \<not> occurs ts n j') \<and> out = take (nat k) (drop (j + n) ts))"

lemma ngram_draftI:
  assumes "0 < k" "lo \<le> int n" "n \<le> hi" "occurs ts n j" "\<And>n' j'. n < n' \<Longrightarrow> n' \<le> hi \<Longrightarrow> \<not> occurs ts n' j'"
    "\<And>j'. j' < j \<Longrightarrow> \<not> occurs ts n j'"
  shows "ngram_draft ts lo hi k (take (nat k) (drop (j + n) ts))"
proof -
  have "\<not> (k \<le> 0 \<or> (\<forall>n j. lo \<le> int n \<and> n \<le> hi \<longrightarrow> \<not> occurs ts n j))" using assms(1-4) by auto
  then show ?thesis unfolding ngram_draft_def using assms by (simp only: if_False) blast
qed

lemma ngram_draft_length: "ngram_draft ts lo hi k out \<Longrightarrow> int (length out) \<le> max 0 k"
  by (auto simp: ngram_draft_def split: if_splits)

lemma slice_from:
  assumes a: "a \<le> length xs" and k: "0 < k"
  shows "py_slice xs (int a) (int a + min k (int (length xs) - int a)) = take (nat k) (drop a xs)"
proof (cases "k \<le> int (length xs) - int a")
  case True
  have "nat (int a + k) - a = nat k" "nat (int a + k) \<le> length xs" using True k by linarith+
  then show ?thesis using True a k by (simp add: py_slice_def slice_bound_def min_def Let_def)
next
  case False
  then have "length (drop a xs) \<le> nat k" by simp
  then show ?thesis using False a by (simp add: py_slice_def slice_bound_def Let_def)
qed

lemma find_ngram_draft:
  assumes lo: "1 \<le> lo" and hi: "0 < hi"
  shows "\<exists>out. find_longest_matched_ngram_and_propose_tokens ts lo hi mml k = Some out \<and>
    ngram_draft ts lo hi (min k (mml - int (length ts))) out"
proof -
  let ?k = "min k (mml - int (length ts))"
  note find = find_longest_matched_ngram_and_propose_tokens_def Let_def
  consider "int (length ts) < lo" | "lo \<le> int (length ts)" "?k \<le> 0" | "lo \<le> int (length ts)" "0 < ?k" by linarith
  then show ?thesis
  proof cases
    case 1
    have "\<not> occurs ts n j" if "lo \<le> int n" for n j using 1 that by (simp add: occurs_def)
    then show ?thesis using 1 by (auto simp: find ngram_draft_def)
  next
    case 2
    then show ?thesis by (auto simp: find ngram_draft_def)
  next
    case 3
    obtain s where s: "match_loop hi (rev ts) = Some s" "match_inv hi (rev ts) s" "length ts \<le> cursor s" "cursor s \<le> max 1 (length ts)"
      using match_loop_returns[OF hi, of "rev ts"] by auto
    have best: "n \<le> longest_ngram s" if "occurs ts n j" "n \<le> hi" "0 < n" for n j
    proof -
      have "j < length ts" using that(1) by (simp add: occurs_def)
      moreover from this have "Suc (length ts - j - 1) = length ts - j" by simp
      ultimately have j: "j < length ts" "n < length ts - j" "ends (rev ts) n (Suc (length ts - j - 1))"
        using that(1) occurs_ends[of j ts n] by simp_all
      then show ?thesis using that s(3) by (intro match_inv_best[OF s(2), of "length ts - j - 1"]) auto
    qed
    show ?thesis
    proof (cases "int (longest_ngram s) < lo")
      case True
      then have "\<not> occurs ts n j" if "lo \<le> int n" "n \<le> hi" for n j using best[of n j] that lo by auto
      then show ?thesis using 3 s(1) True by (auto simp: find ngram_draft_def)
    next
      case False
      let ?n = "longest_ngram s" and ?p = "position s"
      let ?j = "length ts - 1 - ?p"
      have n: "0 < ?n" using False lo by simp
      note found = match_inv_found(1)[OF s(2) n]
      have cur: "cursor s = length ts" using s(3,4) 3(1) lo by linarith
      have p: "?p < length ts" "?n \<le> ?p" "?j < length ts" "length ts - ?j = Suc ?p" using found cur by auto
      have occ: "occurs ts ?n ?j" using occurs_ends[OF p(3)] found p by simp
      have first: "\<not> occurs ts ?n j'" if "j' < ?j" for j'
      proof
        assume o: "occurs ts ?n j'"
        have "Suc (length ts - j' - 1) = length ts - j'" "j' < length ts" "?p < length ts - j' - 1" "length ts - j' - 1 < length ts"
          using that p(1) by linarith+
        then show False using o occurs_ends[of j' ts ?n] match_inv_last[OF s(2) n, of "length ts - j' - 1"] that cur by auto
      qed
      have longest: "\<not> occurs ts n' j'" if "?n < n'" "n' \<le> hi" for n' j' using best[of n' j'] that by auto
      let ?start = "int (length ts) - 1 - int ?p + int ?n"
      have start: "?start = int (?j + ?n)" "?j + ?n \<le> length ts" using p by (auto simp: of_nat_diff)
      have "py_slice ts ?start (?start + min ?k (int (length ts) - ?start)) = take (nat ?k) (drop (?j + ?n) ts)"
        unfolding start(1) by (rule slice_from[OF start(2) 3(2)])
      then have "find_longest_matched_ngram_and_propose_tokens ts lo hi mml k = Some (take (nat ?k) (drop (?j + ?n) ts))"
        using 3 s(1) False by (simp add: find)
      moreover have "ngram_draft ts lo hi ?k (take (nat ?k) (drop (?j + ?n) ts))"
      proof -
        have "lo \<le> int ?n" "?n \<le> hi" using False match_inv_found(2)[OF s(2)] by simp_all
        then show ?thesis by (rule ngram_draftI[OF 3(2) _ _ occ longest first])
      qed
      ultimately show ?thesis by blast
    qed
  qed
qed

section \<open>The batch\<close>

definition buffers_ok :: "nat \<Rightarrow> ngram_proposer \<Rightarrow> bool" where
  "buffers_ok R P \<longleftrightarrow> length (valid_ngram_draft P) = R \<and> length (valid_ngram_num_drafts P) = R \<and>
     (\<forall>row\<in>set (valid_ngram_draft P). int (length row) = spec_k P)"

definition same_settings :: "ngram_proposer \<Rightarrow> ngram_proposer \<Rightarrow> bool" where
  "same_settings P P' \<longleftrightarrow> min_n P' = min_n P \<and> max_n P' = max_n P \<and> spec_k P' = spec_k P \<and> max_len P' = max_len P"

definition request_draft :: "nat list \<Rightarrow> int list list \<Rightarrow> int \<Rightarrow> ngram_proposer \<Rightarrow> nat \<Rightarrow> int list \<Rightarrow> bool" where
  "request_draft num_tokens token_ids k P i out \<longleftrightarrow>
     (let ts = take (num_tokens ! i) (token_ids ! i) in ngram_draft ts (min_n P) (max_n P) (min k (max_len P - int (length ts))) out)"

lemma batch_propose_numba_ok:
  assumes "buffers_ok R P" "1 \<le> min_n P" "0 < max_n P" "k \<le> spec_k P" "0 \<le> spec_k P" "\<forall>i\<in>set reqs. i < R"
  shows "\<exists>P'. batch_propose_numba reqs num_tokens token_ids k P = Some (Inr P') \<and> buffers_ok R P' \<and> same_settings P P' \<and>
    (\<forall>i<R. if i \<in> set reqs then request_draft num_tokens token_ids k P i (take (valid_ngram_num_drafts P' ! i) (valid_ngram_draft P' ! i))
           else valid_ngram_num_drafts P' ! i = valid_ngram_num_drafts P ! i \<and> valid_ngram_draft P' ! i = valid_ngram_draft P ! i)"
  using assms
proof (induction reqs arbitrary: P)
  case Nil
  then show ?case by (simp add: same_settings_def)
next
  case (Cons idx reqs)
  let ?ts = "take (num_tokens ! idx) (token_ids ! idx)"
  let ?k = "min k (max_len P - int (length ?ts))"
  obtain out where out: "find_longest_matched_ngram_and_propose_tokens ?ts (min_n P) (max_n P) (max_len P) k = Some out"
    and draft: "ngram_draft ?ts (min_n P) (max_n P) ?k out" using find_ngram_draft[OF Cons.prems(2,3)] by blast
  let ?row = "valid_ngram_draft P ! idx"
  have idx: "idx < R" "idx < length (valid_ngram_draft P)" "idx < length (valid_ngram_num_drafts P)"
    using Cons.prems(1,6) by (simp_all add: buffers_ok_def)
  have row: "int (length ?row) = spec_k P" using Cons.prems(1) nth_mem[OF idx(2)] by (simp add: buffers_ok_def)
  have "int (length out) \<le> max 0 ?k" by (rule ngram_draft_length[OF draft])
  then have n: "length out \<le> length ?row" using row Cons.prems(4,5) by linarith
  define P1 where "P1 = P\<lparr>valid_ngram_num_drafts := (valid_ngram_num_drafts P)[idx := length out],
      valid_ngram_draft := (valid_ngram_draft P)[idx := out @ drop (length out) ?row]\<rparr>"
  have run: "batch_propose_numba (idx # reqs) num_tokens token_ids k P = batch_propose_numba reqs num_tokens token_ids k P1"
    using n idx by (cases "out = []") (simp_all add: out Let_def P1_def)
  have set1: "same_settings P P1" by (simp add: same_settings_def P1_def)
  have ok1: "buffers_ok R P1"
    using Cons.prems(1) n row unfolding buffers_ok_def P1_def by (auto dest!: set_update_subset_insert[THEN subsetD])
  obtain P' where P': "batch_propose_numba reqs num_tokens token_ids k P1 = Some (Inr P')" "buffers_ok R P'" "same_settings P1 P'"
    and all: "\<forall>i<R. if i \<in> set reqs then request_draft num_tokens token_ids k P1 i (take (valid_ngram_num_drafts P' ! i) (valid_ngram_draft P' ! i))
           else valid_ngram_num_drafts P' ! i = valid_ngram_num_drafts P1 ! i \<and> valid_ngram_draft P' ! i = valid_ngram_draft P1 ! i"
    using Cons.IH[OF ok1] Cons.prems set1 by (auto simp: same_settings_def)
  have rd: "request_draft num_tokens token_ids k P1 i = request_draft num_tokens token_ids k P i" for i
    using set1 by (simp add: fun_eq_iff request_draft_def same_settings_def)
  have here: "request_draft num_tokens token_ids k P idx (take (valid_ngram_num_drafts P1 ! idx) (valid_ngram_draft P1 ! idx))"
    using draft idx by (simp add: request_draft_def Let_def P1_def)
  have other: "valid_ngram_num_drafts P1 ! i = valid_ngram_num_drafts P ! i \<and> valid_ngram_draft P1 ! i = valid_ngram_draft P ! i" if "i \<noteq> idx" for i
    using that by (simp add: P1_def)
  have "if i \<in> set (idx # reqs) then request_draft num_tokens token_ids k P i (take (valid_ngram_num_drafts P' ! i) (valid_ngram_draft P' ! i))
      else valid_ngram_num_drafts P' ! i = valid_ngram_num_drafts P ! i \<and> valid_ngram_draft P' ! i = valid_ngram_draft P ! i" if "i < R" for i
    using all[rule_format, OF that] here other[of i] unfolding rd by (cases "i \<in> set reqs"; cases "i = idx") simp_all
  moreover have "same_settings P P'" using set1 P'(3) by (simp add: same_settings_def)
  ultimately show ?case using run P' by auto
qed

lemma collect_drafts_ok:
  assumes "buffers_ok R P" "\<forall>i\<in>set is. i < R"
  shows "collect_drafts reqs P is =
    Inr (map (\<lambda>i. if i \<in> set reqs then take (valid_ngram_num_drafts P ! i) (valid_ngram_draft P ! i) else []) is)"
  using assms(2) by (induction "is") (use assms(1) in \<open>auto simp: drafts_of_def py_nth_def buffers_ok_def\<close>)

text \<open>
  The call of the constructor has no request to search for: whatever the tokens are, it reaches no search and leaves the
  buffers as they are.
\<close>

lemma propose_nothing_sampled:
  "k \<le> spec_k P \<Longrightarrow> propose k (replicate n []) num_tokens token_ids P = Some (Inr (replicate n [], P))"
proof -
  assume k: "k \<le> spec_k P"
  have none: "filter (needs_proposal (replicate n []) num_tokens P) [0..<n] = []" by (auto simp: needs_proposal_def filter_empty_conv)
  have "collect_drafts [] P is = Inr (replicate (length is) [])" for "is" by (induction "is") (simp_all add: drafts_of_def)
  then show ?thesis using k by (simp add: propose_def batch_propose_def none)
qed

lemma init_ngram_proposer_starts:
  "init_ngram_proposer (Some lo) (Some hi) k mml R = Some (Inr (init_ngram_buffers lo hi k (int mml) R)) \<and>
   buffers_ok R (init_ngram_buffers lo hi k (int mml) R)"
  unfolding init_ngram_proposer_def
  by (subst prod.case, simp only: option.case, subst propose_nothing_sampled) (simp_all add: init_ngram_buffers_def buffers_ok_def)

text \<open>
  C34: Every request of a batch gets its draft, whatever the buffers hold from earlier batches.  A request that
  sampled nothing or has reached the greatest length gets none; for every other one the proposer finds the longest n-gram
  of an allowed length that ends its tokens and occurs before, and proposes the tokens that follow its first occurrence,
  as many as asked for and as fit into the greatest length.  The search ends and all its subscripts are in range.
\<close>

theorem propose_longest_ngram:
  assumes "buffers_ok R P" "1 \<le> min_n P" "0 < max_n P" "0 \<le> spec_k P" "k \<le> spec_k P" "length sampled \<le> R"
  shows "\<exists>drafts P'. propose k sampled num_tokens token_ids P = Some (Inr (drafts, P')) \<and> buffers_ok R P' \<and> same_settings P P' \<and>
    length drafts = length sampled \<and>
    (\<forall>i<length sampled. if sampled ! i = [] \<or> max_len P \<le> int (num_tokens ! i) then drafts ! i = []
       else request_draft num_tokens token_ids k P i (drafts ! i))"
proof -
  let ?reqs = "filter (needs_proposal sampled num_tokens P) [0..<length sampled]"
  have "\<forall>i\<in>set ?reqs. i < R" using assms(6) by auto
  from batch_propose_numba_ok[OF assms(1-3,5,4) this, of num_tokens token_ids] obtain P'
    where P': "batch_propose_numba ?reqs num_tokens token_ids k P = Some (Inr P')" "buffers_ok R P'" "same_settings P P'"
    and all: "\<forall>i<R. if i \<in> set ?reqs then request_draft num_tokens token_ids k P i (take (valid_ngram_num_drafts P' ! i) (valid_ngram_draft P' ! i))
           else valid_ngram_num_drafts P' ! i = valid_ngram_num_drafts P ! i \<and> valid_ngram_draft P' ! i = valid_ngram_draft P ! i"
    by blast
  define out where "out = (\<lambda>i. if i \<in> set ?reqs then take (valid_ngram_num_drafts P' ! i) (valid_ngram_draft P' ! i) else [])"
  have "collect_drafts ?reqs P' [0..<length sampled] = Inr (map out [0..<length sampled])"
    unfolding out_def by (rule collect_drafts_ok[OF P'(2)]) (use assms(6) in auto)
  then have "propose k sampled num_tokens token_ids P = Some (Inr (map out [0..<length sampled], P'))"
    using assms(5) P'(1) by (cases "?reqs = []") (simp_all add: propose_def batch_propose_def)
  moreover have "if sampled ! i = [] \<or> max_len P \<le> int (num_tokens ! i) then out i = [] else request_draft num_tokens token_ids k P i (out i)"
    if "i < length sampled" for i
    using that all assms(6) by (auto simp: needs_proposal_def out_def)
  ultimately show ?thesis using P'(2,3)
    by (intro exI[of _ "map out [0..<length sampled]"] exI[of _ P'] conjI) simp_all
qed

theorem propose_longest_ngram_witness:
  "\<exists>P P'. init_ngram_proposer (Some 1) (Some 3) 2 8 2 = Some (Inr P) \<and>
     propose 2 [[3], []] [6, 2] [[1, 2, 3, 4, 2, 3], [1, 2]] P = Some (Inr ([[4, 2], []], P'))"
proof -
  let ?P = "init_ngram_buffers 1 3 2 8 2"
  let ?ts = "[1, 2, 3, 4, 2, 3] :: int list"
  have ok: "buffers_ok 2 ?P" by (simp add: init_ngram_buffers_def buffers_ok_def)
  obtain drafts P' where run: "propose 2 [[3], []] [6, 2] [?ts, [1, 2]] ?P = Some (Inr (drafts, P'))"
    and len: "length drafts = 2" and all: "drafts ! 1 = []" "request_draft [6, 2] [?ts, [1, 2]] 2 ?P 0 (drafts ! 0)"
    using propose_longest_ngram[OF ok, of 2 "[[3], []]" "[6, 2]" "[?ts, [1, 2]]"]
    by (auto simp: init_ngram_buffers_def All_less_Suc numeral_2_eq_2)
  have d: "ngram_draft ?ts 1 3 2 (drafts ! 0)" using all(2) by (simp add: request_draft_def init_ngram_buffers_def Let_def)
  have o: "occurs ?ts 2 1" by (simp add: occurs_def)
  have "\<exists>n j. 1 \<le> n \<and> n \<le> 3 \<and> occurs ?ts n j \<and> (\<forall>n' j'. n < n' \<and> n' \<le> 3 \<longrightarrow> \<not> occurs ?ts n' j') \<and>
      (\<forall>j'<j. \<not> occurs ?ts n j') \<and> drafts ! 0 = take 2 (drop (j + n) ?ts)"
    using d o unfolding ngram_draft_def by (fastforce split: if_splits)
  then obtain n j where n: "1 \<le> n" "n \<le> 3" "occurs ?ts n j" and longest: "\<forall>n' j'. n < n' \<and> n' \<le> 3 \<longrightarrow> \<not> occurs ?ts n' j'"
    and first: "\<forall>j'<j. \<not> occurs ?ts n j'" and out: "drafts ! 0 = take 2 (drop (j + n) ?ts)" by blast
  have "n \<noteq> 3" using n(3) by (auto simp: occurs_def less_Suc_eq numeral_eq_Suc)
  moreover have "\<not> n < 2" using longest o by auto
  ultimately have n2: "n = 2" using n(2) by simp
  have "\<not> 1 < j" using first o n2 by auto
  moreover have "j \<noteq> 0"
  proof
    assume "j = 0"
    then show False using n(3) by (simp add: n2 occurs_def)
  qed
  ultimately have "j = 1" by simp
  then have "drafts ! 0 = [4, 2]" using out n2 by simp
  moreover obtain a b where "drafts = [a, b]" using len by (auto simp: length_Suc_conv numeral_2_eq_2)
  ultimately have "drafts = [[4, 2], []]" using all(1) by simp
  moreover have "init_ngram_proposer (Some 1) (Some 3) 2 8 2 = Some (Inr ?P)"
    using init_ngram_proposer_starts[of 1 3 2 8 2] by simp
  ultimately show ?thesis using run by blast
qed

end
