(* ===== verification/Spec2Isabelle.thy ===== *)
theory Spec2Isabelle
  imports Prefix_Cache Request_Queue Encoder_Cache KV_Machine Hybrid_Hit Ngram_Proposer
begin

text \<open>
  Verification of the scheduling and KV-cache core of this vLLM fork (\<^verbatim>\<open>src/vllm/v1\<close>).

  \<^bold>\<open>The program.\<close>  The engine keeps the keys and values of attention in blocks of GPU memory.  Every request
  (\<^verbatim>\<open>request.py\<close>) hashes its tokens block by block; the hash of a block depends on all tokens before it, so that a
  hash names a prefix.  The block pool (\<^verbatim>\<open>core/block_pool.py\<close>) counts references on blocks, keeps the unreferenced
  ones in a doubly linked queue (\<^verbatim>\<open>core/kv_cache_utils.py\<close>) in the order of eviction, and finds cached blocks by hash.
  One manager for each kind of attention (\<^verbatim>\<open>core/single_type_kv_cache_manager.py\<close>) keeps the block tables of the
  requests, allocates, caches, frees and searches the longest cached prefix.  A coordinator
  (\<^verbatim>\<open>core/kv_cache_coordinator.py\<close>) runs the managers of all KV-cache groups on one pool and looks for a hit that
  serves all of them.  The KV-cache manager (\<^verbatim>\<open>core/kv_cache_manager.py\<close>) is what the scheduler calls: lookups,
  allocation of slots with its admission checks, release, and hand-overs to the workers.  Beside it, the encoder cache (\<^verbatim>\<open>core/encoder_cache_manager.py\<close>) accounts for outputs of
  multimodal encoders, and the waiting queues (\<^verbatim>\<open>core/sched/request_queue.py\<close>) order the requests.

  \<^bold>\<open>Conventions\<close> (theory \<open>Prelude\<close>).  An operation that can raise returns a value of \<open>'a result\<close>, with the exception
  on the left; \<open>rbind\<close> sequences, and every \<^verbatim>\<open>raise\<close>, \<^verbatim>\<open>assert\<close> and failing subscript of the source is a branch.  A
  method takes the state of its object as an argument and returns it updated.  Python integers are \<open>int\<close>.  Blocks are
  shared mutable objects in the source: here the pool holds the block records in a list and everything else names them
  by position, so that aliasing is kept.  Dictionaries whose order or size matters are association lists (\<open>Dict\<close>).
  Code outside the repository's Python sources is a parameter: the hash function of the tokens and the digest of
  embeddings are arguments of the definitions, and what a property needs of them, freedom of collisions on the inputs
  involved, is a hypothesis of that property.

  \<^bold>\<open>Theories.\<close>
  \<^item> \<open>Free_Block_Queue\<close>: \<^verbatim>\<open>FreeKVCacheBlockQueue\<close> with its pointer updates.  Every sequence of calls returns and raises
    what a plain list would; traversals return the list.  The interface of the list is the locale \<open>free_queue\<close>.
  \<^item> \<open>Request\<close>, \<open>Block_Hash\<close>: \<^verbatim>\<open>Request\<close>, \<^verbatim>\<open>RequestStatus\<close>, the extra keys of multimodal inputs, LoRA, cache salt and
    prompt embeddings, \<^verbatim>\<open>hash_block_tokens\<close>, the block hasher, packed group keys and \<^verbatim>\<open>BlockHashListWithBlockSize\<close>.
    Appending tokens in steps gives the chained hashes of the whole sequence; equal hashes mean equal prefixes; two
    cases in which different contents get the same hash are shown as they are in the code.
  \<^item> \<open>Block_Hash_Map\<close>, \<open>Block_Pool\<close>, \<open>Prefix_Cache\<close>: \<^verbatim>\<open>BlockHashToBlockMap\<close> and \<^verbatim>\<open>BlockPool\<close>, with the events it queues.
    Calls of the public methods are the steps of a machine; in its reachable states free queue, reference counts, keys
    and lookup table agree, and a hit returns blocks last filled with the same prefix.  The locale \<open>block_index\<close> is what
    the pool needs of the table.
  \<^item> \<open>Heapq\<close>, \<open>Request_Queue\<close>: the algorithms of Python's \<^verbatim>\<open>heapq\<close> and both waiting queues; the locale
    \<open>queue_contract\<close> holds for the FCFS queue, for the priority queue and for the union the factory returns.
  \<^item> \<open>Encoder_Cache\<close>: \<^verbatim>\<open>EncoderCacheManager\<close>, \<^verbatim>\<open>EncoderDecoderCacheManager\<close>, the budget of
    \<^verbatim>\<open>compute_mm_encoder_budget\<close>, and \<^verbatim>\<open>Scheduler._free_encoder_inputs\<close>.  The slot counters are exact in every
    reachable state.
  \<^item> \<open>KV_Spec\<close>, \<open>Cache_Lookup\<close>, \<open>Window_Lookup\<close>: the specifications of \<^verbatim>\<open>kv_cache_interface.py\<close> that the managers read, the
    admission caps, and \<^verbatim>\<open>find_longest_cache_hit\<close> and \<^verbatim>\<open>reachable_block_mask\<close> of all managers.  The lookups return the
    longest hit; the mask keeps the blocks that a later lookup needs.
  \<^item> \<open>Single_Type_Manager\<close>: the managers as state transformers on manager and pool.  \<open>Manager_Refs\<close>, \<open>Manager_Inv\<close> and
    \<open>Manager_Machine\<close> show that the reference count of a block is always the number of its places in block tables,
    queued copies and with callers, for any number of managers on one pool.
  \<^item> \<open>KV_Coordinator\<close>: the base coordinator and its three subclasses.  \<open>Hybrid_Lookup\<close> shows that the fixed-point loop of
    the hybrid coordinator stops, \<open>Hybrid_Hit\<close> that it finds the longest hit common to all groups.
  \<^item> \<open>KV_Manager\<close>: \<^verbatim>\<open>KVCacheManager\<close> and \<^verbatim>\<open>KVCacheBlocks\<close>.  \<open>KV_Machine\<close> takes the public methods as steps and shows that
    the references are accounted for in every reachable state, pins and hand-overs included.

  \<^item> \<open>Ngram_Proposer\<close>: the drafts of \<^verbatim>\<open>spec_decode/ngram_proposer.py\<close>.  The search over the reversed tokens finds the longest
    n-gram with an earlier occurrence, and the first of its occurrences, for every request of a batch.

  \<^bold>\<open>Loops.\<close>  Loops over lists, ranges and queues are structural recursions.  The sifting loops of \<^verbatim>\<open>heapq\<close> have
  termination proofs.  The fixed-point loop of the hybrid coordinator is a \<open>partial_function (option)\<close>, and that it
  returns is a property; the search of the n-gram proposer is a \<open>while_option\<close>, shown to end with every batch; no definition takes fuel that could run out unnoticed.

  \<^bold>\<open>Not modelled.\<close>  \<^verbatim>\<open>core/sched/scheduler.py\<close> apart from the release of encoder inputs: its step composes the parts
  above with the KV connector, structured output, speculative decoding and the metrics, most of which is outside what
  these files determine.  The workers, attention backends, kernels (\<^verbatim>\<open>csrc\<close>), models and quantisation compute on
  tensors of the GPU.  The entry points, renderers, parsers, tokenizers and the Rust front end transform text and HTTP.
  \<^verbatim>\<open>distributed\<close>, executors and offloading connectors move data between processes.  Metrics and logging only observe.
  Of objects that are modelled, fields that are only stored for these parts are left out.
\<close>

end
